(* ===== verification/Prelude.thy ===== *)
theory Prelude
  imports Main "HOL-Library.Word" "HOL-Library.Code_Target_Numeral"
begin

text \<open>
  Shared vocabulary of the development.  Python exceptions are values of
  \<open>pyerr\<close>, so that a function that may raise returns a sum whose left
  component is the exception.  Python objects that the code compares with
  \<^verbatim>\<open>is\<close> are values of \<open>obj\<close>: an address, which is what
  \<^verbatim>\<open>id(...)\<close> reads and which a later object may reuse, and a birth
  number that keeps two objects apart that had the same address at different
  times.  The rest of the theory holds the result combinators, the notion of a
  sequence of elementary state updates that an asynchronous exception may cut
  short, and the lemmas on lists, sums and bit fields the components share.
\<close>

section \<open>Exceptions and results\<close>

datatype pyerr =
    TypeError string
  | ValueError string
  | RuntimeError string
  | OSError string
  | AssertionError string
  | IndexError string
  | KeyError string
  | ArgumentTypeError string
  | TimeoutError string
  | OverflowError string
  | TransientGcsUploadError string

type_synonym 'a result = "pyerr + 'a"

definition rbind :: "'a result \<Rightarrow> ('a \<Rightarrow> 'b result) \<Rightarrow> 'b result" where
  "rbind r f = (case r of Inl e \<Rightarrow> Inl e | Inr x \<Rightarrow> f x)"

definition rlift :: "('a \<Rightarrow> 'b) \<Rightarrow> 'a result \<Rightarrow> 'b result" where
  "rlift f r = (case r of Inl e \<Rightarrow> Inl e | Inr x \<Rightarrow> Inr (f x))"

definition guard_raise :: "bool \<Rightarrow> pyerr \<Rightarrow> unit result" where
  "guard_raise bad e = (if bad then Inl e else Inr ())"

primrec rmap :: "('a \<Rightarrow> 'b result) \<Rightarrow> 'a list \<Rightarrow> 'b list result" where
  "rmap f [] = Inr []"
| "rmap f (x # xs) = rbind (f x) (\<lambda>y. rbind (rmap f xs) (\<lambda>ys. Inr (y # ys)))"

definition is_ok :: "'a result \<Rightarrow> bool" where
  "is_ok r = (case r of Inl _ \<Rightarrow> False | Inr _ \<Rightarrow> True)"

lemma rbind_Inl [simp]: "rbind (Inl e) f = Inl e"
  by (simp add: rbind_def)

lemma rbind_Inr [simp]: "rbind (Inr x) f = f x"
  by (simp add: rbind_def)

named_theorems ok_iff \<open>when a computation returns a given value\<close>

lemma rlift_simps [simp]: "rlift f (Inl e) = Inl e" "rlift f (Inr x) = Inr (f x)"
  by (simp_all add: rlift_def)

lemma rlift_eq_Inr [ok_iff]: "rlift f r = Inr y \<longleftrightarrow> (\<exists>x. r = Inr x \<and> y = f x)"
  by (cases r) auto

lemma rbind_eq_Inr [ok_iff]: "rbind r f = Inr y \<longleftrightarrow> (\<exists>x. r = Inr x \<and> f x = Inr y)"
  by (cases r) auto

lemma guard_raise_Inr [simp]: "guard_raise b e = Inr u \<longleftrightarrow> \<not> b"
  by (simp add: guard_raise_def)

lemma is_ok_simps [simp]: "is_ok (Inl e) = False" "is_ok (Inr x) = True"
  by (simp_all add: is_ok_def)

lemma rmap_eq_Inr [ok_iff]:
  "rmap f xs = Inr ys \<longleftrightarrow> length ys = length xs \<and> (\<forall>i<length xs. f (xs ! i) = Inr (ys ! i))"
proof (induction xs arbitrary: ys)
  case Nil
  then show ?case by auto
next
  case (Cons x xs)
  show ?case
  proof (cases ys)
    case Nil
    then show ?thesis by (auto simp: rbind_eq_Inr)
  next
    case (Cons y zs)
    then show ?thesis
      by (auto simp: rbind_eq_Inr Cons.IH less_Suc_eq_0_disj)
  qed
qed

section \<open>Object identity\<close>

datatype obj = Obj (address: nat) (birth: nat)

definition may_coexist :: "obj \<Rightarrow> obj list \<Rightarrow> bool" where
  "may_coexist x live = list_all (\<lambda>y. address y = address x \<longrightarrow> y = x) live"

section \<open>Interruptible update sequences\<close>

text \<open>
  A Python statement sequence inside \<^verbatim>\<open>try\<close> is a list of elementary
  updates.  An asynchronous exception may arrive before the first, between any
  two, or after the last of them: \<open>cut (Some k)\<close> keeps the first \<open>k\<close>
  updates, \<open>cut None\<close> keeps them all.
\<close>

primrec apply_all :: "('s \<Rightarrow> 's) list \<Rightarrow> 's \<Rightarrow> 's" where
  "apply_all [] s = s"
| "apply_all (f # fs) s = apply_all fs (f s)"

primrec cut :: "nat option \<Rightarrow> 'a list \<Rightarrow> 'a list" where
  "cut None xs = xs"
| "cut (Some k) xs = take k xs"

lemma apply_all_append [simp]: "apply_all (xs @ ys) s = apply_all ys (apply_all xs s)"
  by (induction xs arbitrary: s) auto

lemma apply_all_invariant:
  assumes "P s" and "\<And>f s. f \<in> set fs \<Longrightarrow> P s \<Longrightarrow> P (f s)"
  shows "P (apply_all fs s)"
  using assms by (induction fs arbitrary: s) auto

lemma cut_bracket:
  assumes "P s" and "D (f s)" and "\<And>g s. g \<in> set gs \<Longrightarrow> D s \<Longrightarrow> D (g s)"
    and "P (apply_all (f # gs @ [h]) s)" and "\<And>s. D s \<Longrightarrow> P s"
  shows "P (apply_all (cut k (f # gs @ [h])) s)"
proof (cases k)
  case None
  then show ?thesis using assms(4) by simp
next
  case (Some n)
  consider "n = 0" | m where "n = Suc m" "m \<le> length gs" | "length gs < n - 1" "0 < n"
    by (cases n; cases "n - 1 \<le> length gs") auto
  then show ?thesis
  proof cases
    case 1
    then have "cut k (f # gs @ [h]) = []" using Some by simp
    then show ?thesis using assms(1) by (simp only: apply_all.simps)
  next
    case 2
    have "D (apply_all (take m gs) (f s))"
    proof (rule apply_all_invariant [where P = D])
      show "D (f s)" by (rule assms(2))
      show "D (g t)" if "g \<in> set (take m gs)" "D t" for g t
        using assms(3) [OF in_set_takeD [OF that(1)] that(2)] .
    qed
    then have "P (apply_all (take m gs) (f s))" by (rule assms(5))
    moreover have "cut k (f # gs @ [h]) = f # take m gs" using Some 2 by simp
    ultimately show ?thesis by (simp only: apply_all.simps)
  next
    case 3
    then have "cut k (f # gs @ [h]) = f # gs @ [h]" using Some by simp
    then show ?thesis using assms(4) by (simp only:)
  qed
qed

lemma set_cut: "set (cut k xs) \<subseteq> set xs"
  by (cases k) (auto dest: in_set_takeD)

section \<open>Lists\<close>

lemma set_update_None:
  "i < length xs \<Longrightarrow> Some x \<in> set (xs[i := None]) \<Longrightarrow> Some x \<in> set xs"
  by (auto simp: in_set_conv_nth nth_list_update split: if_splits)

lemma filter_upt_card: "length (filter P [0..<n]) = card {i. i < n \<and> P i}"
proof -
  have "length (filter P [0..<n]) = card (set (filter P [0..<n]))"
    by (intro distinct_card [symmetric]) simp
  also have "set (filter P [0..<n]) = {i. i < n \<and> P i}" by auto
  finally show ?thesis .
qed

section \<open>Ring buffers\<close>

text \<open>
  Free slots and free tokens are kept in preallocated lists used as rings.
  \<open>ring_seg ring head n\<close> is the list of the \<open>n\<close> live cells from \<open>head\<close> on.
\<close>

definition ring_next :: "nat \<Rightarrow> nat \<Rightarrow> nat" where
  "ring_next cap i = (if i + 1 = cap then 0 else i + 1)"

definition ring_seg :: "'a list \<Rightarrow> nat \<Rightarrow> nat \<Rightarrow> 'a list" where
  "ring_seg ring head n = map (\<lambda>k. ring ! ((head + k) mod length ring)) [0..<n]"

lemma ring_next_mod: "i < cap \<Longrightarrow> ring_next cap i = Suc i mod cap"
  by (auto simp: ring_next_def)

lemma ring_next_less: "i < cap \<Longrightarrow> ring_next cap i < cap"
  by (auto simp: ring_next_def)

lemma length_ring_seg [simp]: "length (ring_seg ring head n) = n"
  by (simp add: ring_seg_def)

lemma ring_seg_0 [simp]: "ring_seg ring head 0 = []"
  by (simp add: ring_seg_def)

lemma ring_seg_pop:
  assumes "head < length ring" "0 < n"
  shows "ring_seg ring head n = ring ! head # ring_seg ring (ring_next (length ring) head) (n - 1)"
proof (rule nth_equalityI)
  show "length (ring_seg ring head n) =
      length (ring ! head # ring_seg ring (ring_next (length ring) head) (n - 1))"
    using assms by simp
next
  fix i
  assume "i < length (ring_seg ring head n)"
  then have "i < n" by simp
  then show "ring_seg ring head n ! i =
      (ring ! head # ring_seg ring (ring_next (length ring) head) (n - 1)) ! i"
    using assms by (cases i) (auto simp: ring_seg_def ring_next_mod mod_simps)
qed

lemma ring_offset_le:
  assumes "(h + i) mod c = (h + j) mod c" "i \<le> j" "j < c"
  shows "i = (j::nat)"
proof -
  have "c dvd (h + j) - (h + i)"
    using assms by (subst mod_eq_dvd_iff_nat [symmetric]) auto
  then have "c dvd j - i" by simp
  then have "j - i = 0"
    using assms(3) by (meson dvd_imp_le leD less_imp_diff_less not_gr_zero)
  with assms(2) show ?thesis by simp
qed

lemma ring_offset_inj:
  assumes "(h + i) mod c = (h + j) mod c" "i < c" "j < c"
  shows "i = (j::nat)"
  using assms ring_offset_le [of h i c j] ring_offset_le [of h j c i]
  by (cases "i \<le> j") auto

lemma ring_seg_push:
  assumes "n < length ring"
  shows "ring_seg (ring[(head + n) mod length ring := x]) head (Suc n) = ring_seg ring head n @ [x]"
proof -
  have ne: "(head + n) mod length ring \<noteq> (head + k) mod length ring" if "k < n" for k
    using ring_offset_inj [of head n "length ring" k] that assms by auto
  have "ring \<noteq> []" using assms by auto
  then show ?thesis
    by (auto simp: ring_seg_def nth_list_update dest: ne)
qed

section \<open>Bit lengths and packed tokens\<close>

fun bit_length :: "nat \<Rightarrow> nat" where
  "bit_length n = (if n = 0 then 0 else Suc (bit_length (n div 2)))"

declare bit_length.simps [simp del]

lemma less_two_power_bit_length: "n < 2 ^ bit_length n"
proof (induction n rule: bit_length.induct)
  case (1 n)
  show ?case
  proof (cases "n = 0")
    case True
    then show ?thesis by (simp add: bit_length.simps [of n])
  next
    case False
    with 1 have "n div 2 < 2 ^ bit_length (n div 2)" by simp
    then have "n < 2 * 2 ^ bit_length (n div 2)" by linarith
    with False show ?thesis by (simp add: bit_length.simps [of n])
  qed
qed

unbundle bit_operations_syntax

definition pack :: "nat \<Rightarrow> nat \<Rightarrow> nat \<Rightarrow> nat" where
  "pack bits hi lo = push_bit bits hi OR lo"

lemma pack_eq: "lo < 2 ^ bits \<Longrightarrow> pack bits hi lo = hi * 2 ^ bits + lo"
proof -
  assume lo: "lo < 2 ^ bits"
  have "push_bit bits hi AND lo = 0"
  proof (rule bit_eqI)
    fix n
    show "bit (push_bit bits hi AND lo) n = bit (0::nat) n"
    proof (cases "bits \<le> n")
      case True
      with lo have "lo < 2 ^ n" by (meson less_le_trans one_le_numeral power_increasing)
      then have "\<not> bit lo n" by (simp add: bit_nat_def div_eq_0_iff)
      then show ?thesis by (simp add: bit_and_iff)
    next
      case False
      then show ?thesis by (simp add: bit_and_iff bit_push_bit_iff)
    qed
  qed
  then have "push_bit bits hi OR lo = push_bit bits hi + lo"
    by (simp add: disjunctive_add_eq_or)
  then show ?thesis by (simp add: pack_def push_bit_eq_mult)
qed

lemma pack_low: "lo < 2 ^ bits \<Longrightarrow> pack bits hi lo mod 2 ^ bits = lo"
  by (simp add: pack_eq)

lemma pack_high: "lo < 2 ^ bits \<Longrightarrow> pack bits hi lo div 2 ^ bits = hi"
  by (simp add: pack_eq)

lemma mask_and: "x AND (2 ^ n - 1) = x mod (2 ^ n :: nat)"
  using take_bit_eq_mask [of n x] by (simp add: take_bit_eq_mod mask_eq_exp_minus_1)

end
