(* ===== verification/Generation_Pool.thy ===== *)
theory Generation_Pool
  imports Prelude
begin

text \<open>
  Model of \<^verbatim>\<open>core_impl/bounded_generation.py\<close>: a fixed set of slots, each with
  a generation counter, handed out to owners as packed tokens.  The list of
  owners is the authority; the slot states, the identity index, the free ring
  and the counters are derived and can be rebuilt from it.  Every mutating
  method takes the position at which an asynchronous exception interrupts its
  \<^verbatim>\<open>try\<close> block (\<open>None\<close> for an undisturbed call) and the position at which a
  second one interrupts its handler.  Proved: the pool invariant under every
  call and every interruption, conservation of slots, exact recovery from an
  interrupted admission, and that no token is ever issued twice.
\<close>

section \<open>State\<close>

datatype slot_state = FREE | ACTIVE | RETIRED | RETIRING

definition MAX_TOKEN :: nat where
  "MAX_TOKEN = push_bit 63 1 - 1"

record pool =
  gp_capacity :: nat
  gp_slot_bits :: nat
  gp_slot_mask :: nat
  gp_max_generation :: nat
  gp_count :: nat
  gp_generations :: "nat list"
  gp_states :: "slot_state list"
  gp_owners :: "obj option list"
  gp_owner_slots :: "nat \<rightharpoonup> nat"
  gp_free_ring :: "nat list"
  gp_free_head :: nat
  gp_free_tail :: nat
  gp_active :: int
  gp_retired :: int
  gp_corrupted :: bool
  gp_derived_dirty :: bool

record generation_snapshot =
  gs_capacity :: nat
  gs_active :: int
  gs_available :: nat
  gs_retired :: int
  gs_corrupted :: bool

datatype 'a outcome = Returned 'a | Raised pyerr | Interrupted

definition init_pool :: "int \<Rightarrow> pool result" where
  "init_pool capacity =
     (if capacity \<le> 0
      then Inl (ValueError ''bounded generation capacity must be a positive exact integer'')
      else let n = nat capacity; bits = max 1 (bit_length (n - 1)) in
        Inr \<lparr>gp_capacity = n,
             gp_slot_bits = bits,
             gp_slot_mask = push_bit bits 1 - 1,
             gp_max_generation = drop_bit bits MAX_TOKEN,
             gp_count = n,
             gp_generations = replicate n 0,
             gp_states = replicate n FREE,
             gp_owners = replicate n None,
             gp_owner_slots = Map.empty,
             gp_free_ring = [0..<n],
             gp_free_head = 0,
             gp_free_tail = 0,
             gp_active = 0,
             gp_retired = 0,
             gp_corrupted = False,
             gp_derived_dirty = False\<rparr>)"

definition encode :: "pool \<Rightarrow> nat \<Rightarrow> nat \<Rightarrow> nat" where
  "encode p slot generation = pack (gp_slot_bits p) generation slot"

section \<open>Rebuilding the derived state\<close>

type_synonym scan = "slot_state list \<times> nat list \<times> (nat \<rightharpoonup> nat) \<times> nat \<times> int \<times> int"

fun rebuild_slot :: "pool \<Rightarrow> nat \<Rightarrow> scan \<Rightarrow> scan" where
  "rebuild_slot p slot (states, ring, index, available, active, retired) =
     (case gp_owners p ! slot of
        Some owner \<Rightarrow>
          (states[slot := ACTIVE], ring, index(address owner \<mapsto> slot), available, active + 1, retired)
      | None \<Rightarrow>
          if gp_generations p ! slot \<ge> gp_max_generation p \<or> gp_states p ! slot = RETIRED
          then (states[slot := RETIRED], ring, index, available, active, retired + 1)
          else (states[slot := FREE], ring[available := slot], index, available + 1, active, retired))"

definition rebuild_scan :: "pool \<Rightarrow> scan" where
  "rebuild_scan p =
     fold (rebuild_slot p) [0..<gp_capacity p]
       (replicate (gp_capacity p) FREE, replicate (gp_capacity p) 0, Map.empty, 0, 0, 0)"

definition rebuild_steps :: "pool \<Rightarrow> (pool \<Rightarrow> pool) list" where
  "rebuild_steps p =
     (case rebuild_scan p of (states, ring, index, available, active, retired) \<Rightarrow>
       [\<lambda>q. q\<lparr>gp_derived_dirty := True\<rparr>,
        \<lambda>q. q\<lparr>gp_states := states\<rparr>,
        \<lambda>q. q\<lparr>gp_free_ring := ring\<rparr>,
        \<lambda>q. q\<lparr>gp_free_head := 0\<rparr>,
        \<lambda>q. q\<lparr>gp_free_tail := (if available = gp_capacity p then 0 else available)\<rparr>,
        \<lambda>q. q\<lparr>gp_owner_slots := index\<rparr>,
        \<lambda>q. q\<lparr>gp_count := available\<rparr>,
        \<lambda>q. q\<lparr>gp_active := active\<rparr>,
        \<lambda>q. q\<lparr>gp_retired := retired\<rparr>,
        \<lambda>q. q\<lparr>gp_derived_dirty := False\<rparr>])"

definition rebuild_derived :: "pool \<Rightarrow> pool" where
  "rebuild_derived p = apply_all (rebuild_steps p) p"

definition ensure_derived :: "pool \<Rightarrow> pool" where
  "ensure_derived p = (if gp_derived_dirty p then rebuild_derived p else p)"

definition verified_slot :: "pool \<Rightarrow> obj \<Rightarrow> nat option" where
  "verified_slot p owner =
     (case gp_owner_slots p (address owner) of
        Some slot \<Rightarrow> if slot < gp_capacity p \<and> gp_owners p ! slot = Some owner then Some slot else None
      | None \<Rightarrow> None)"

definition slot_for_owner :: "pool \<Rightarrow> obj \<Rightarrow> nat option \<times> pool" where
  "slot_for_owner p0 owner =
     (let p = ensure_derived p0 in
      case verified_slot p owner of
        Some slot \<Rightarrow> (Some slot, p)
      | None \<Rightarrow>
          if gp_owner_slots p (address owner) \<noteq> None
          then let q = rebuild_derived (p\<lparr>gp_derived_dirty := True\<rparr>) in (verified_slot q owner, q)
          else (None, p))"

section \<open>The free ring\<close>

definition prepare_free_pop :: "pool \<Rightarrow> (nat \<times> nat \<times> nat) option" where
  "prepare_free_pop p =
     (if gp_count p \<le> 0 then None
      else Some (gp_free_ring p ! gp_free_head p,
                 ring_next (gp_capacity p) (gp_free_head p),
                 gp_count p - 1))"

definition commit_free_pop :: "nat \<Rightarrow> nat \<Rightarrow> (pool \<Rightarrow> pool) list" where
  "commit_free_pop next_head next_count =
     [\<lambda>q. q\<lparr>gp_free_head := next_head\<rparr>, \<lambda>q. q\<lparr>gp_count := next_count\<rparr>]"

definition prepare_free_push :: "pool \<Rightarrow> (nat \<times> nat \<times> nat) option" where
  "prepare_free_push p =
     (if gp_count p \<ge> gp_capacity p then None
      else Some (gp_free_tail p, ring_next (gp_capacity p) (gp_free_tail p), gp_count p + 1))"

definition commit_free_push :: "nat \<Rightarrow> nat \<Rightarrow> nat \<Rightarrow> nat \<Rightarrow> (pool \<Rightarrow> pool) list" where
  "commit_free_push slot tail next_tail next_count =
     [\<lambda>q. q\<lparr>gp_free_ring := (gp_free_ring q)[tail := slot]\<rparr>,
      \<lambda>q. q\<lparr>gp_free_tail := next_tail\<rparr>,
      \<lambda>q. q\<lparr>gp_count := next_count\<rparr>]"

section \<open>Admission\<close>

definition choose_free :: "pool \<Rightarrow> (nat \<times> nat \<times> nat) option \<times> pool" where
  "choose_free p =
     (case prepare_free_pop p of
        None \<Rightarrow> (None, p)
      | Some (slot, next_head, next_count) \<Rightarrow>
          if slot \<ge> gp_capacity p \<or> gp_owners p ! slot \<noteq> None \<or> gp_states p ! slot \<noteq> FREE
             \<or> gp_generations p ! slot \<ge> gp_max_generation p
          then let q = rebuild_derived (p\<lparr>gp_derived_dirty := True\<rparr>) in (prepare_free_pop q, q)
          else (Some (slot, next_head, next_count), p))"

definition acquire_steps :: "obj \<Rightarrow> nat \<Rightarrow> nat \<Rightarrow> nat \<Rightarrow> nat \<Rightarrow> (pool \<Rightarrow> pool) list" where
  "acquire_steps owner slot generation next_head next_count =
     [\<lambda>q. q\<lparr>gp_derived_dirty := True\<rparr>,
      \<lambda>q. q\<lparr>gp_owners := (gp_owners q)[slot := Some owner]\<rparr>,
      \<lambda>q. q\<lparr>gp_owner_slots := (gp_owner_slots q)(address owner \<mapsto> slot)\<rparr>,
      \<lambda>q. q\<lparr>gp_generations := (gp_generations q)[slot := generation]\<rparr>,
      \<lambda>q. q\<lparr>gp_states := (gp_states q)[slot := ACTIVE]\<rparr>]
     @ commit_free_pop next_head next_count @
     [\<lambda>q. q\<lparr>gp_active := gp_active q + 1\<rparr>,
      \<lambda>q. q\<lparr>gp_derived_dirty := False\<rparr>]"

definition acquire_rollback :: "nat option \<Rightarrow> obj \<Rightarrow> nat \<Rightarrow> pool \<Rightarrow> pool" where
  "acquire_rollback again owner slot p =
     (if gp_owners p ! slot = Some owner
      then let undo =
             [\<lambda>q. q\<lparr>gp_owners := (gp_owners q)[slot := None]\<rparr>,
              \<lambda>q. if gp_generations q ! slot < gp_max_generation q
                   then q\<lparr>gp_states := (gp_states q)[slot := FREE]\<rparr> else q]
           in apply_all (cut again (undo @ rebuild_steps (apply_all undo p))) p
      else p)"

definition acquire_for ::
  "nat option \<Rightarrow> nat option \<Rightarrow> obj option \<Rightarrow> pool \<Rightarrow> nat option outcome \<times> pool" where
  "acquire_for intr again owner_arg p0 =
     (case owner_arg of
        None \<Rightarrow> (Raised (ValueError ''bounded generation owner must not be None''), p0)
      | Some owner \<Rightarrow>
          if gp_corrupted p0 then (Returned None, p0)
          else case slot_for_owner (ensure_derived p0) owner of
            (Some _, p1) \<Rightarrow>
              (Raised (RuntimeError ''bounded generation owner already has a live slot''), p1)
          | (None, p1) \<Rightarrow>
              case choose_free p1 of
                (None, p2) \<Rightarrow> (Returned None, p2)
              | (Some (slot, next_head, next_count), p2) \<Rightarrow>
                  let generation = gp_generations p2 ! slot + 1;
                      token = encode p2 slot generation;
                      p3 = apply_all (cut intr (acquire_steps owner slot generation next_head next_count)) p2
                  in case intr of
                       None \<Rightarrow> (Returned (Some token), p3)
                     | Some _ \<Rightarrow> (Interrupted, acquire_rollback again owner slot p3))"

section \<open>Retirement\<close>

definition release_steps ::
  "obj \<Rightarrow> nat \<Rightarrow> (nat \<times> nat \<times> nat) option \<Rightarrow> (pool \<Rightarrow> pool) list" where
  "release_steps owner slot push =
     [\<lambda>q. q\<lparr>gp_derived_dirty := True\<rparr>,
      \<lambda>q. q\<lparr>gp_states := (gp_states q)[slot := RETIRING]\<rparr>,
      \<lambda>q. q\<lparr>gp_owners := (gp_owners q)[slot := None]\<rparr>,
      \<lambda>q. q,
      \<lambda>q. q\<lparr>gp_owner_slots := (gp_owner_slots q)(address owner := None)\<rparr>,
      \<lambda>q. q\<lparr>gp_active := gp_active q - 1\<rparr>]
     @ (case push of
          None \<Rightarrow> [\<lambda>q. q\<lparr>gp_states := (gp_states q)[slot := RETIRED]\<rparr>,
                   \<lambda>q. q\<lparr>gp_retired := gp_retired q + 1\<rparr>]
        | Some (tail, next_tail, next_count) \<Rightarrow>
            commit_free_push slot tail next_tail next_count
            @ [\<lambda>q. q\<lparr>gp_states := (gp_states q)[slot := FREE]\<rparr>])
     @ [\<lambda>q. q\<lparr>gp_derived_dirty := False\<rparr>]"

text \<open>
  The fourth update stands for the assignment of the local flag \<^verbatim>\<open>committed\<close>: an
  interruption after it finds the flag set, one before it does not.
\<close>

definition release_handler :: "nat \<Rightarrow> nat option \<Rightarrow> obj \<Rightarrow> nat \<Rightarrow> pool \<Rightarrow> pool" where
  "release_handler at again owner slot p =
     (if at < 4
      then (if gp_owners p ! slot = Some owner \<and> again = None
            then p\<lparr>gp_states := (gp_states p)[slot := ACTIVE]\<rparr> else p)
      else apply_all (cut again (rebuild_steps p)) p)"

definition release_commit ::
  "nat option \<Rightarrow> nat option \<Rightarrow> obj \<Rightarrow> nat \<Rightarrow> (nat \<times> nat \<times> nat) option \<Rightarrow> pool \<Rightarrow> bool outcome \<times> pool" where
  "release_commit intr again owner slot push p =
     (let q = apply_all (cut intr (release_steps owner slot push)) p in
      case intr of
        None \<Rightarrow> (Returned True, q)
      | Some at \<Rightarrow> (Interrupted, release_handler at again owner slot q))"

definition release_for ::
  "nat option \<Rightarrow> nat option \<Rightarrow> obj \<Rightarrow> pool \<Rightarrow> bool outcome \<times> pool" where
  "release_for intr again owner p0 =
     (case slot_for_owner (ensure_derived p0) owner of
        (None, p1) \<Rightarrow> (Returned True, p1)
      | (Some slot, p1) \<Rightarrow>
          let retiring = gp_generations p1 ! slot \<ge> gp_max_generation p1;
              push = (if retiring then None else prepare_free_push p1)
          in if \<not> retiring \<and> push = None
             then case slot_for_owner (rebuild_derived (p1\<lparr>gp_derived_dirty := True\<rparr>)) owner of
                    (None, p2) \<Rightarrow> (Returned True, p2)
                  | (Some slot2, p2) \<Rightarrow>
                      let retiring2 = gp_generations p2 ! slot2 \<ge> gp_max_generation p2;
                          push2 = (if retiring2 then None else prepare_free_push p2)
                      in if \<not> retiring2 \<and> push2 = None
                         then (Returned False, p2\<lparr>gp_corrupted := True\<rparr>)
                         else release_commit intr again owner slot2 push2 p2
             else release_commit intr again owner slot push p1)"

section \<open>Queries\<close>

definition token_for :: "obj \<Rightarrow> pool \<Rightarrow> nat option \<times> pool" where
  "token_for owner p =
     (case slot_for_owner p owner of
        (None, q) \<Rightarrow> (None, q)
      | (Some slot, q) \<Rightarrow> (Some (encode q slot (gp_generations q ! slot)), q))"

definition owner_for :: "int \<Rightarrow> pool \<Rightarrow> obj option" where
  "owner_for token p =
     (if token \<le> 0 then None
      else let t = nat token; slot = t AND gp_slot_mask p; generation = drop_bit (gp_slot_bits p) t
           in if slot \<ge> gp_capacity p \<or> gp_generations p ! slot \<noteq> generation then None
              else gp_owners p ! slot)"

definition owns_owner :: "obj \<Rightarrow> nat option \<Rightarrow> pool \<Rightarrow> bool \<times> pool" where
  "owns_owner owner token p =
     (case slot_for_owner p owner of
        (None, q) \<Rightarrow> (False, q)
      | (Some slot, q) \<Rightarrow>
          (case token of None \<Rightarrow> True | Some t \<Rightarrow> encode q slot (gp_generations q ! slot) = t, q))"

definition exact_active_count :: "pool \<Rightarrow> nat" where
  "exact_active_count p = length (filter (\<lambda>owner. owner \<noteq> None) (gp_owners p))"

definition pool_snapshot :: "pool \<Rightarrow> generation_snapshot \<times> pool" where
  "pool_snapshot p =
     (let q = ensure_derived p in
      (\<lparr>gs_capacity = gp_capacity q, gs_active = gp_active q, gs_available = gp_count q,
        gs_retired = gp_retired q, gs_corrupted = gp_corrupted q\<rparr>, q))"

section \<open>Reusable tokens\<close>

definition token_step :: "nat \<Rightarrow> nat" where
  "token_step candidate = (if candidate + 1 > MAX_TOKEN then 1 else candidate + 1)"

partial_function (option) scan_tokens :: "nat \<Rightarrow> nat set \<Rightarrow> nat \<Rightarrow> nat option option" where
  "scan_tokens start occupied candidate =
     (if candidate \<notin> occupied then Some (Some candidate)
      else let candidate' = token_step candidate in
           if candidate' = start then Some None
           else scan_tokens start occupied candidate')"

declare scan_tokens.simps [code]

definition next_reusable_token :: "int \<Rightarrow> nat set \<Rightarrow> nat option option" where
  "next_reusable_token current occupied =
     (let current' = (if current < 0 \<or> current > int MAX_TOKEN then 0 else nat current);
          start = token_step current'
      in scan_tokens start occupied start)"


section \<open>What the rebuild computes\<close>

definition slot_class :: "pool \<Rightarrow> nat \<Rightarrow> slot_state" where
  "slot_class p i =
     (case gp_owners p ! i of
        Some _ \<Rightarrow> ACTIVE
      | None \<Rightarrow> if gp_generations p ! i \<ge> gp_max_generation p \<or> gp_states p ! i = RETIRED
                then RETIRED else FREE)"

definition free_slots :: "pool \<Rightarrow> nat \<Rightarrow> nat list" where
  "free_slots p n = filter (\<lambda>i. slot_class p i = FREE) [0..<n]"

definition slot_index :: "pool \<Rightarrow> nat \<Rightarrow> nat \<rightharpoonup> nat" where
  "slot_index p n =
     fold (\<lambda>i m. case gp_owners p ! i of Some ow \<Rightarrow> m(address ow \<mapsto> i) | None \<Rightarrow> m) [0..<n] Map.empty"

definition class_count :: "pool \<Rightarrow> slot_state \<Rightarrow> nat \<Rightarrow> int" where
  "class_count p c n = int (length (filter (\<lambda>i. slot_class p i = c) [0..<n]))"

lemma length_free_slots_le: "length (free_slots p n) \<le> n"
  using length_filter_le [of _ "[0..<n]"] by (simp add: free_slots_def)

lemma append_replicate_update:
  "length xs < n \<Longrightarrow>
   (xs @ replicate (n - length xs) y)[length xs := z] = xs @ z # replicate (n - Suc (length xs)) y"
  by (cases "n - length xs") (auto simp: list_update_append)

lemma rebuild_slot_prefix:
  assumes "n < gp_capacity p"
  shows "rebuild_slot p n
     (map (slot_class p) [0..<n] @ replicate (gp_capacity p - n) FREE,
      free_slots p n @ replicate (gp_capacity p - length (free_slots p n)) 0,
      slot_index p n, length (free_slots p n), class_count p ACTIVE n, class_count p RETIRED n) =
     (map (slot_class p) [0..<Suc n] @ replicate (gp_capacity p - Suc n) FREE,
      free_slots p (Suc n) @ replicate (gp_capacity p - length (free_slots p (Suc n))) 0,
      slot_index p (Suc n), length (free_slots p (Suc n)), class_count p ACTIVE (Suc n),
      class_count p RETIRED (Suc n))"
proof -
  let ?m = "map (slot_class p) [0..<n]"
  have st: "(?m @ replicate (gp_capacity p - n) FREE)[n := z] =
      ?m @ z # replicate (gp_capacity p - Suc n) FREE" for z
    using append_replicate_update [of ?m "gp_capacity p" FREE z] assms by simp
  have fr: "(free_slots p n @ replicate (gp_capacity p - length (free_slots p n)) 0)[length (free_slots p n) := n]
      = free_slots p n @ n # replicate (gp_capacity p - Suc (length (free_slots p n))) 0"
    using length_free_slots_le [of p n] assms by (intro append_replicate_update) simp
  show ?thesis
  proof (cases "gp_owners p ! n")
    case (Some ow)
    then have "slot_class p n = ACTIVE" by (simp add: slot_class_def)
    with Some st show ?thesis
      by (simp add: free_slots_def slot_index_def class_count_def)
  next
    case None
    show ?thesis
    proof (cases "gp_generations p ! n \<ge> gp_max_generation p \<or> gp_states p ! n = RETIRED")
      case True
      with None have "slot_class p n = RETIRED" by (simp add: slot_class_def)
      with None True st show ?thesis
        by (simp add: free_slots_def slot_index_def class_count_def)
    next
      case False
      with None have c: "slot_class p n = FREE" by (simp add: slot_class_def)
      then have "free_slots p (Suc n) = free_slots p n @ [n]" by (simp add: free_slots_def)
      with None False st fr c show ?thesis
        by (simp add: slot_index_def class_count_def)
    qed
  qed
qed

lemma rebuild_scan_prefix:
  "n \<le> gp_capacity p \<Longrightarrow>
   fold (rebuild_slot p) [0..<n]
     (replicate (gp_capacity p) FREE, replicate (gp_capacity p) 0, Map.empty, 0, 0, 0) =
   (map (slot_class p) [0..<n] @ replicate (gp_capacity p - n) FREE,
    free_slots p n @ replicate (gp_capacity p - length (free_slots p n)) 0,
    slot_index p n, length (free_slots p n), class_count p ACTIVE n, class_count p RETIRED n)"
proof (induction n)
  case 0
  then show ?case by (simp add: free_slots_def slot_index_def class_count_def)
next
  case (Suc n)
  let ?s = "(replicate (gp_capacity p) FREE, replicate (gp_capacity p) 0, Map.empty, 0, 0, 0)"
  have "fold (rebuild_slot p) [0..<Suc n] ?s = rebuild_slot p n (fold (rebuild_slot p) [0..<n] ?s)"
    by simp
  also have "fold (rebuild_slot p) [0..<n] ?s =
     (map (slot_class p) [0..<n] @ replicate (gp_capacity p - n) FREE,
      free_slots p n @ replicate (gp_capacity p - length (free_slots p n)) 0,
      slot_index p n, length (free_slots p n), class_count p ACTIVE n, class_count p RETIRED n)"
    using Suc by simp
  also have "rebuild_slot p n \<dots> =
     (map (slot_class p) [0..<Suc n] @ replicate (gp_capacity p - Suc n) FREE,
      free_slots p (Suc n) @ replicate (gp_capacity p - length (free_slots p (Suc n))) 0,
      slot_index p (Suc n), length (free_slots p (Suc n)), class_count p ACTIVE (Suc n),
      class_count p RETIRED (Suc n))"
    using Suc.prems by (intro rebuild_slot_prefix) simp
  finally show ?case .
qed

lemma rebuild_scan_eq:
  "rebuild_scan p =
   (map (slot_class p) [0..<gp_capacity p],
    free_slots p (gp_capacity p) @ replicate (gp_capacity p - length (free_slots p (gp_capacity p))) 0,
    slot_index p (gp_capacity p), length (free_slots p (gp_capacity p)),
    class_count p ACTIVE (gp_capacity p), class_count p RETIRED (gp_capacity p))"
  by (simp add: rebuild_scan_def rebuild_scan_prefix)

lemma rebuild_derived_eq:
  "rebuild_derived p =
   p\<lparr>gp_states := map (slot_class p) [0..<gp_capacity p],
     gp_free_ring := free_slots p (gp_capacity p)
        @ replicate (gp_capacity p - length (free_slots p (gp_capacity p))) 0,
     gp_free_head := 0,
     gp_free_tail := (if length (free_slots p (gp_capacity p)) = gp_capacity p then 0
                      else length (free_slots p (gp_capacity p))),
     gp_owner_slots := slot_index p (gp_capacity p),
     gp_count := length (free_slots p (gp_capacity p)),
     gp_active := class_count p ACTIVE (gp_capacity p),
     gp_retired := class_count p RETIRED (gp_capacity p),
     gp_derived_dirty := False\<rparr>"
  by (simp add: rebuild_derived_def rebuild_steps_def rebuild_scan_eq)

section \<open>The pool invariant\<close>

definition addresses_apart :: "obj option list \<Rightarrow> bool" where
  "addresses_apart os \<longleftrightarrow>
     (\<forall>i<length os. \<forall>j<length os. \<forall>x y. os ! i = Some x \<longrightarrow> os ! j = Some y \<longrightarrow>
        address x = address y \<longrightarrow> i = j)"

definition pool_shape :: "pool \<Rightarrow> bool" where
  "pool_shape p \<longleftrightarrow>
     0 < gp_capacity p \<and> gp_capacity p \<le> 2 ^ gp_slot_bits p
     \<and> gp_slot_mask p = 2 ^ gp_slot_bits p - 1
     \<and> gp_max_generation p = MAX_TOKEN div 2 ^ gp_slot_bits p
     \<and> length (gp_generations p) = gp_capacity p \<and> length (gp_states p) = gp_capacity p
     \<and> length (gp_owners p) = gp_capacity p \<and> length (gp_free_ring p) = gp_capacity p
     \<and> gp_free_head p < gp_capacity p \<and> gp_free_tail p < gp_capacity p
     \<and> list_all (\<lambda>g. g \<le> gp_max_generation p) (gp_generations p)
     \<and> addresses_apart (gp_owners p)"

definition derived_ok :: "pool \<Rightarrow> bool" where
  "derived_ok p \<longleftrightarrow>
     (\<forall>i<gp_capacity p. gp_states p ! i \<noteq> RETIRING
        \<and> (gp_states p ! i = ACTIVE \<longleftrightarrow> gp_owners p ! i \<noteq> None))
     \<and> gp_count p \<le> gp_capacity p
     \<and> gp_free_tail p = (gp_free_head p + gp_count p) mod gp_capacity p
     \<and> distinct (ring_seg (gp_free_ring p) (gp_free_head p) (gp_count p))
     \<and> set (ring_seg (gp_free_ring p) (gp_free_head p) (gp_count p))
         = {i. i < gp_capacity p \<and> gp_states p ! i = FREE}
     \<and> gp_active p = int (card {i. i < gp_capacity p \<and> gp_states p ! i = ACTIVE})
     \<and> gp_retired p = int (card {i. i < gp_capacity p \<and> gp_states p ! i = RETIRED})
     \<and> (\<forall>a i. gp_owner_slots p a = Some i \<longleftrightarrow>
           i < gp_capacity p \<and> (\<exists>x. gp_owners p ! i = Some x \<and> address x = a))"

lemma derived_okI:
  assumes "\<And>i. i < gp_capacity p \<Longrightarrow> gp_states p ! i \<noteq> RETIRING"
    and "\<And>i. i < gp_capacity p \<Longrightarrow> gp_states p ! i = ACTIVE \<longleftrightarrow> gp_owners p ! i \<noteq> None"
    and "gp_count p \<le> gp_capacity p"
    and "gp_free_tail p = (gp_free_head p + gp_count p) mod gp_capacity p"
    and "distinct (ring_seg (gp_free_ring p) (gp_free_head p) (gp_count p))"
    and "set (ring_seg (gp_free_ring p) (gp_free_head p) (gp_count p))
           = {i. i < gp_capacity p \<and> gp_states p ! i = FREE}"
    and "gp_active p = int (card {i. i < gp_capacity p \<and> gp_states p ! i = ACTIVE})"
    and "gp_retired p = int (card {i. i < gp_capacity p \<and> gp_states p ! i = RETIRED})"
    and "\<And>a i. gp_owner_slots p a = Some i \<longleftrightarrow>
           i < gp_capacity p \<and> (\<exists>x. gp_owners p ! i = Some x \<and> address x = a)"
  shows "derived_ok p"
  unfolding derived_ok_def using assms by blast

lemma derived_okD:
  assumes "derived_ok p"
  shows "i < gp_capacity p \<Longrightarrow> gp_states p ! i \<noteq> RETIRING"
    and "i < gp_capacity p \<Longrightarrow> gp_states p ! i = ACTIVE \<longleftrightarrow> gp_owners p ! i \<noteq> None"
    and "gp_count p \<le> gp_capacity p"
    and "gp_free_tail p = (gp_free_head p + gp_count p) mod gp_capacity p"
    and "distinct (ring_seg (gp_free_ring p) (gp_free_head p) (gp_count p))"
    and "set (ring_seg (gp_free_ring p) (gp_free_head p) (gp_count p))
           = {i. i < gp_capacity p \<and> gp_states p ! i = FREE}"
    and "gp_active p = int (card {i. i < gp_capacity p \<and> gp_states p ! i = ACTIVE})"
    and "gp_retired p = int (card {i. i < gp_capacity p \<and> gp_states p ! i = RETIRED})"
    and "gp_owner_slots p a = Some i \<longleftrightarrow>
           i < gp_capacity p \<and> (\<exists>x. gp_owners p ! i = Some x \<and> address x = a)"
  using assms unfolding derived_ok_def by blast+

definition pool_inv :: "pool \<Rightarrow> bool" where
  "pool_inv p \<longleftrightarrow> pool_shape p \<and> (gp_derived_dirty p \<or> derived_ok p)"

definition live_owners :: "pool \<Rightarrow> obj list" where
  "live_owners p = List.map_filter id (gp_owners p)"

lemma slot_index_iff:
  assumes "addresses_apart (gp_owners p)" "n \<le> length (gp_owners p)"
  shows "slot_index p n a = Some i \<longleftrightarrow> i < n \<and> (\<exists>x. gp_owners p ! i = Some x \<and> address x = a)"
  using assms(2)
proof (induction n)
  case 0
  then show ?case by (simp add: slot_index_def)
next
  case (Suc n)
  then have IH: "slot_index p n a = Some i \<longleftrightarrow>
      i < n \<and> (\<exists>x. gp_owners p ! i = Some x \<and> address x = a)" by simp
  show ?case
  proof (cases "gp_owners p ! n")
    case None
    then have "slot_index p (Suc n) = slot_index p n" by (simp add: slot_index_def)
    then show ?thesis using IH None by (auto simp: less_Suc_eq)
  next
    case (Some ow)
    then have eq: "slot_index p (Suc n) = (slot_index p n)(address ow \<mapsto> n)"
      by (simp add: slot_index_def)
    show ?thesis
    proof (cases "address ow = a")
      case True
      have "j = n" if "j < n" "gp_owners p ! j = Some y" "address y = a" for j y
      proof -
        have "j < length (gp_owners p)" "n < length (gp_owners p)" using that Suc.prems by auto
        with assms(1) show ?thesis
          unfolding addresses_apart_def using that Some True by blast
      qed
      then show ?thesis using eq True Some by (auto simp: less_Suc_eq)
    next
      case False
      then show ?thesis using eq IH Some by (auto simp: less_Suc_eq)
    qed
  qed
qed

definition same_core :: "pool \<Rightarrow> pool \<Rightarrow> bool" where
  "same_core p q \<longleftrightarrow>
     gp_capacity q = gp_capacity p \<and> gp_slot_bits q = gp_slot_bits p
     \<and> gp_slot_mask q = gp_slot_mask p \<and> gp_max_generation q = gp_max_generation p
     \<and> gp_generations q = gp_generations p \<and> gp_owners q = gp_owners p
     \<and> gp_corrupted q = gp_corrupted p"

lemma same_core_refl [simp]: "same_core p p"
  by (simp add: same_core_def)

lemma same_core_trans: "same_core p q \<Longrightarrow> same_core q r \<Longrightarrow> same_core p r"
  by (simp add: same_core_def)

lemma same_core_dirty [simp]: "same_core p (q\<lparr>gp_derived_dirty := b\<rparr>) = same_core p q"
  by (simp add: same_core_def)

lemma same_core_rebuild [simp]: "same_core p (rebuild_derived p)"
  by (simp add: same_core_def rebuild_derived_eq)

lemma dirty_rebuild [simp]: "gp_derived_dirty (rebuild_derived p) = False"
  by (simp add: rebuild_derived_eq)

lemma pool_shape_dirty [simp]: "pool_shape (p\<lparr>gp_derived_dirty := b\<rparr>) = pool_shape p"
  by (simp add: pool_shape_def)

lemma class_count_card:
  "class_count p c (gp_capacity p) = int (card {i. i < gp_capacity p \<and> slot_class p i = c})"
  by (simp add: class_count_def filter_upt_card)

lemma card_class_map:
  "{i. i < n \<and> map f [0..<n] ! i = c} = {i. i < n \<and> f i = c}"
  by auto

lemma rebuild_shape: "pool_shape p \<Longrightarrow> pool_shape (rebuild_derived p)"
  using length_free_slots_le [of p "gp_capacity p"]
  by (auto simp: pool_shape_def rebuild_derived_eq)

lemma ring_seg_prefix: "ring_seg (xs @ ys) 0 (length xs) = xs"
  by (rule nth_equalityI) (auto simp: ring_seg_def nth_append)

lemma rebuild_ok:
  assumes "pool_shape p"
  shows "derived_ok (rebuild_derived p)"
proof -
  let ?c = "gp_capacity p" and ?f = "free_slots p (gp_capacity p)"
  have len: "length ?f \<le> ?c" by (rule length_free_slots_le)
  have idx: "slot_index p ?c a = Some i \<longleftrightarrow>
      i < ?c \<and> (\<exists>x. gp_owners p ! i = Some x \<and> address x = a)" for a i
    using assms by (intro slot_index_iff) (auto simp: pool_shape_def)
  have seg: "ring_seg (?f @ replicate (?c - length ?f) 0) 0 (length ?f) = ?f"
    by (rule ring_seg_prefix)
  have "distinct ?f" "set ?f = {i. i < ?c \<and> slot_class p i = FREE}"
    by (auto simp: free_slots_def)
  moreover have "slot_class p i \<noteq> RETIRING" "slot_class p i = ACTIVE \<longleftrightarrow> gp_owners p ! i \<noteq> None" for i
    by (auto simp: slot_class_def split: option.splits)
  ultimately show ?thesis
    using len seg idx unfolding derived_ok_def
    by (auto simp: rebuild_derived_eq class_count_card card_class_map)
qed

lemma rebuild_inv: "pool_shape p \<Longrightarrow> pool_inv (rebuild_derived p)"
  by (simp add: pool_inv_def rebuild_shape rebuild_ok)

lemma ensure_derived_props:
  assumes "pool_inv p"
  shows "pool_inv (ensure_derived p)" "\<not> gp_derived_dirty (ensure_derived p)"
    "same_core p (ensure_derived p)"
  using assms by (auto simp: ensure_derived_def pool_inv_def rebuild_shape rebuild_ok)

lemma derived_ok_if: "pool_inv p \<Longrightarrow> \<not> gp_derived_dirty p \<Longrightarrow> derived_ok p"
  by (simp add: pool_inv_def)

lemma verified_slot_iff:
  assumes "pool_shape p" "derived_ok p"
  shows "verified_slot p owner = Some i \<longleftrightarrow> i < gp_capacity p \<and> gp_owners p ! i = Some owner"
proof
  assume "verified_slot p owner = Some i"
  then show "i < gp_capacity p \<and> gp_owners p ! i = Some owner"
    by (auto simp: verified_slot_def split: option.splits if_splits)
next
  assume "i < gp_capacity p \<and> gp_owners p ! i = Some owner"
  moreover from this have "gp_owner_slots p (address owner) = Some i"
    using assms(2) by (auto simp: derived_ok_def)
  ultimately show "verified_slot p owner = Some i" by (simp add: verified_slot_def)
qed

lemma slot_for_owner_props:
  assumes inv: "pool_inv p" and eq: "slot_for_owner p owner = (r, q)"
  shows "pool_inv q" "\<not> gp_derived_dirty q" "same_core p q"
    "r = Some i \<longleftrightarrow> i < gp_capacity p \<and> gp_owners p ! i = Some owner"
proof -
  let ?p = "ensure_derived p" and ?q = "rebuild_derived ((ensure_derived p)\<lparr>gp_derived_dirty := True\<rparr>)"
  note ens = ensure_derived_props [OF inv]
  have shape: "pool_shape ?p" using ens(1) by (simp add: pool_inv_def)
  have "same_core p (?p\<lparr>gp_derived_dirty := True\<rparr>)" using ens(3) by simp
  then have core: "same_core p ?q" by (rule same_core_trans) (rule same_core_rebuild)
  have rq: "pool_inv ?q" "derived_ok ?q" "pool_shape ?q"
    using shape by (simp_all add: rebuild_inv rebuild_ok rebuild_shape)
  have cases: "q = ?p \<and> r = verified_slot ?p owner \<or> q = ?q \<and> r = verified_slot ?q owner"
    using eq by (auto simp: slot_for_owner_def Let_def verified_slot_def
        split: option.splits if_splits)
  then show "pool_inv q" "\<not> gp_derived_dirty q" "same_core p q"
    using ens rq core by auto
  have "pool_shape q" "derived_ok q"
    using cases ens rq by (auto simp: pool_inv_def)
  then have "r = Some i \<longleftrightarrow> i < gp_capacity q \<and> gp_owners q ! i = Some owner"
    using cases verified_slot_iff [of q owner i] by auto
  then show "r = Some i \<longleftrightarrow> i < gp_capacity p \<and> gp_owners p ! i = Some owner"
    using \<open>same_core p q\<close> by (simp add: same_core_def)
qed

section \<open>Choosing a free slot\<close>

lemma ring_head_free:
  assumes "pool_shape p" "derived_ok p" "0 < gp_count p"
  shows "gp_free_ring p ! gp_free_head p < gp_capacity p"
    and "gp_states p ! (gp_free_ring p ! gp_free_head p) = FREE"
proof -
  let ?seg = "ring_seg (gp_free_ring p) (gp_free_head p) (gp_count p)"
  have "?seg = gp_free_ring p ! gp_free_head p
      # ring_seg (gp_free_ring p) (ring_next (gp_capacity p) (gp_free_head p)) (gp_count p - 1)"
    using assms ring_seg_pop [of "gp_free_head p" "gp_free_ring p" "gp_count p"]
    by (simp add: pool_shape_def)
  then have "gp_free_ring p ! gp_free_head p \<in> set ?seg" by (metis list.set_intros(1))
  then show "gp_free_ring p ! gp_free_head p < gp_capacity p"
    and "gp_states p ! (gp_free_ring p ! gp_free_head p) = FREE"
    using assms(2) by (auto simp: derived_ok_def)
qed

definition poppable :: "pool \<Rightarrow> nat \<Rightarrow> nat \<Rightarrow> nat \<Rightarrow> bool" where
  "poppable q slot next_head next_count \<longleftrightarrow>
     0 < gp_count q \<and> slot = gp_free_ring q ! gp_free_head q
     \<and> next_head = ring_next (gp_capacity q) (gp_free_head q) \<and> next_count = gp_count q - 1
     \<and> slot < gp_capacity q \<and> gp_owners q ! slot = None \<and> gp_states q ! slot = FREE
     \<and> gp_generations q ! slot < gp_max_generation q"

lemma choose_free_props:
  assumes inv: "pool_inv p" "\<not> gp_derived_dirty p" and eq: "choose_free p = (r, q)"
  shows "pool_inv q" "\<not> gp_derived_dirty q" "same_core p q"
    "r = Some (slot, next_head, next_count) \<Longrightarrow> poppable q slot next_head next_count"
proof -
  let ?q = "rebuild_derived (p\<lparr>gp_derived_dirty := True\<rparr>)"
  have shape: "pool_shape p" using inv by (simp add: pool_inv_def)
  have core: "same_core p ?q"
    by (rule same_core_trans [of _ "p\<lparr>gp_derived_dirty := True\<rparr>"]) simp_all
  have rq: "pool_inv ?q" "pool_shape ?q" "derived_ok ?q"
    using shape by (simp_all add: rebuild_inv rebuild_ok rebuild_shape)
  have q: "q = p \<or> q = ?q"
    using eq by (auto simp: choose_free_def Let_def split: option.splits if_splits)
  then show "pool_inv q" "\<not> gp_derived_dirty q" "same_core p q"
    using inv rq core by auto
  assume r: "r = Some (slot, next_head, next_count)"
  show "poppable q slot next_head next_count"
  proof (cases "q = ?q \<and> prepare_free_pop ?q = r")
    case True
    then have pop: "0 < gp_count q" "slot = gp_free_ring q ! gp_free_head q"
      "next_head = ring_next (gp_capacity q) (gp_free_head q)" "next_count = gp_count q - 1"
      using r by (auto simp: prepare_free_pop_def split: if_splits)
    with True rq have free: "slot < gp_capacity q" "gp_states q ! slot = FREE"
      using ring_head_free [of q] by auto
    have "slot_class (p\<lparr>gp_derived_dirty := True\<rparr>) slot = FREE"
      using True free by (simp add: rebuild_derived_eq)
    then have "gp_owners p ! slot = None" "gp_generations p ! slot < gp_max_generation p"
      by (auto simp: slot_class_def split: option.splits if_splits)
    with pop free True core show ?thesis by (auto simp: poppable_def same_core_def)
  next
    case False
    then show ?thesis
      using eq r by (auto simp: choose_free_def prepare_free_pop_def poppable_def Let_def
          split: option.splits if_splits)
  qed
qed

section \<open>Admission keeps the invariant\<close>

lemma shape_update [simp]:
  "pool_shape (p\<lparr>gp_owner_slots := m\<rparr>) = pool_shape p"
  "pool_shape (p\<lparr>gp_count := c\<rparr>) = pool_shape p"
  "pool_shape (p\<lparr>gp_active := a\<rparr>) = pool_shape p"
  "pool_shape (p\<lparr>gp_retired := a\<rparr>) = pool_shape p"
  "pool_shape (p\<lparr>gp_corrupted := b\<rparr>) = pool_shape p"
  "pool_shape (p\<lparr>gp_states := (gp_states p)[i := s]\<rparr>) = pool_shape p"
  "pool_shape (p\<lparr>gp_free_ring := (gp_free_ring p)[i := k]\<rparr>) = pool_shape p"
  "h < gp_capacity p \<Longrightarrow> pool_shape p \<Longrightarrow> pool_shape (p\<lparr>gp_free_head := h\<rparr>)"
  "h < gp_capacity p \<Longrightarrow> pool_shape p \<Longrightarrow> pool_shape (p\<lparr>gp_free_tail := h\<rparr>)"
  by (auto simp: pool_shape_def)

lemma shape_generation:
  "pool_shape p \<Longrightarrow> g \<le> gp_max_generation p \<Longrightarrow>
   pool_shape (p\<lparr>gp_generations := (gp_generations p)[i := g]\<rparr>)"
  by (auto simp: pool_shape_def list_all_iff dest!: set_update_subset_insert [THEN subsetD])

lemma apart_None:
  assumes "addresses_apart os"
  shows "addresses_apart (os[i := None])"
proof (cases "i < length os")
  case True
  have keep: "os[i := None] ! j = Some x \<Longrightarrow> os ! j = Some x" for j x
    using True by (cases "i = j") auto
  show ?thesis
    using assms unfolding addresses_apart_def length_list_update by (blast dest: keep)
next
  case False
  then show ?thesis using assms by (simp add: list_update_beyond)
qed

lemma apart_Some:
  assumes "addresses_apart os" "\<And>y. Some y \<in> set os \<Longrightarrow> address y \<noteq> address x"
  shows "addresses_apart (os[i := Some x])"
proof (cases "i < length os")
  case True
  have other: "address y \<noteq> address x" if "j < length os" "os ! j = Some y" for j y
    using assms(2) [of y] that nth_mem by metis
  have keep: "os[i := Some x] ! j = Some y \<Longrightarrow> j = i \<and> y = x \<or> j \<noteq> i \<and> os ! j = Some y" for j y
    using True by (cases "i = j") auto
  show ?thesis
    unfolding addresses_apart_def length_list_update
  proof (intro allI impI)
    fix j k a b
    assume jk: "j < length os" "k < length os" "address a = address b"
      and j: "os[i := Some x] ! j = Some a" and k: "os[i := Some x] ! k = Some b"
    show "j = k"
      using keep [OF j] keep [OF k] other [of j a] other [of k b] jk assms(1)
      unfolding addresses_apart_def by auto
  qed
next
  case False
  then show ?thesis using assms by (simp add: list_update_beyond)
qed

lemma set_live_owners: "set (live_owners p) = {x. Some x \<in> set (gp_owners p)}"
proof -
  have "x \<in> set (List.map_filter id os) \<longleftrightarrow> Some x \<in> set os" for x and os :: "obj option list"
    by (induction os) (auto simp: List.map_filter_simps split: option.splits)
  then show ?thesis by (auto simp: live_owners_def)
qed

definition addr_free :: "pool \<Rightarrow> obj \<Rightarrow> bool" where
  "addr_free p owner \<longleftrightarrow> (\<forall>y. Some y \<in> set (gp_owners p) \<longrightarrow> address y \<noteq> address owner)"

lemma acquire_steps_eq:
  "apply_all (acquire_steps owner slot g nh nc) p =
   p\<lparr>gp_owners := (gp_owners p)[slot := Some owner],
     gp_owner_slots := (gp_owner_slots p)(address owner \<mapsto> slot),
     gp_generations := (gp_generations p)[slot := g],
     gp_states := (gp_states p)[slot := ACTIVE],
     gp_free_head := nh, gp_count := nc, gp_active := gp_active p + 1,
     gp_derived_dirty := False\<rparr>"
  by (simp add: acquire_steps_def commit_free_pop_def)

lemma card_insert_class:
  assumes "slot < n" "xs ! slot \<noteq> c" "length xs = n"
  shows "card {i. i < n \<and> xs[slot := c] ! i = c} = Suc (card {i. i < n \<and> xs ! i = c})"
proof -
  have "{i. i < n \<and> xs[slot := c] ! i = c} = insert slot {i. i < n \<and> xs ! i = c}"
    using assms by (auto simp: nth_list_update)
  then show ?thesis using assms by simp
qed

lemma card_remove_class:
  assumes "slot < n" "xs ! slot = c" "length xs = n" "c \<noteq> d"
  shows "card {i. i < n \<and> xs ! i = c} = Suc (card {i. i < n \<and> xs[slot := d] ! i = c})"
proof -
  have "{i. i < n \<and> xs ! i = c} = insert slot {i. i < n \<and> xs[slot := d] ! i = c}"
    using assms by (auto simp: nth_list_update)
  moreover have "slot \<notin> {i. i < n \<and> xs[slot := d] ! i = c}"
    using assms by auto
  ultimately show ?thesis by simp
qed

lemma card_other_class:
  assumes "slot < n" "xs ! slot \<noteq> c" "length xs = n" "c \<noteq> d"
  shows "{i. i < n \<and> xs[slot := d] ! i = c} = {i. i < n \<and> xs ! i = c}"
  using assms by (auto simp: nth_list_update)

lemma acquire_commit_shape:
  assumes "pool_shape p" "poppable p slot nh nc" "addr_free p owner"
  shows "pool_shape (apply_all (acquire_steps owner slot (gp_generations p ! slot + 1) nh nc) p)"
proof -
  have "addresses_apart ((gp_owners p)[slot := Some owner])"
    using assms by (intro apart_Some) (auto simp: pool_shape_def addr_free_def)
  moreover have "list_all (\<lambda>g. g \<le> gp_max_generation p)
      ((gp_generations p)[slot := gp_generations p ! slot + 1])"
    using assms shape_generation [of p "gp_generations p ! slot + 1" slot]
    by (auto simp: poppable_def pool_shape_def)
  ultimately show ?thesis
    using assms by (auto simp: acquire_steps_eq pool_shape_def poppable_def ring_next_less)
qed

lemma acquire_commit_ok:
  assumes sh: "pool_shape p" and ok: "derived_ok p" and pop: "poppable p slot nh nc"
    and fresh: "addr_free p owner"
  shows "derived_ok (apply_all (acquire_steps owner slot g nh nc) p)"
proof -
  let ?c = "gp_capacity p" and ?st = "(gp_states p)[slot := ACTIVE]"
  note D = derived_okD [OF ok]
  have len: "length (gp_states p) = ?c" "length (gp_owners p) = ?c" "length (gp_free_ring p) = ?c"
    "gp_free_head p < ?c" using sh by (auto simp: pool_shape_def)
  have slot: "slot < ?c" "gp_states p ! slot = FREE" "gp_owners p ! slot = None"
    and nh: "nh = ring_next ?c (gp_free_head p)" "nc = gp_count p - 1" "0 < gp_count p"
    and hd: "slot = gp_free_ring p ! gp_free_head p"
    using pop unfolding poppable_def by blast+
  have seg: "ring_seg (gp_free_ring p) (gp_free_head p) (gp_count p) =
      slot # ring_seg (gp_free_ring p) nh nc"
    unfolding hd nh(1,2) using ring_seg_pop [of "gp_free_head p" "gp_free_ring p" "gp_count p"] nh(3) len
    by simp
  have dis: "distinct (slot # ring_seg (gp_free_ring p) nh nc)"
    using D(5) unfolding seg .
  have st: "set (slot # ring_seg (gp_free_ring p) nh nc) = {i. i < ?c \<and> gp_states p ! i = FREE}"
    using D(6) unfolding seg .
  have free: "set (ring_seg (gp_free_ring p) nh nc) = {i. i < ?c \<and> ?st ! i = FREE}"
  proof -
    have "set (ring_seg (gp_free_ring p) nh nc) = {i. i < ?c \<and> gp_states p ! i = FREE} - {slot}"
      using dis st by auto
    also have "\<dots> = {i. i < ?c \<and> ?st ! i = FREE}"
      using slot(1) len(1) by (auto simp: nth_list_update)
    finally show ?thesis .
  qed
  have "(gp_free_head p + gp_count p) mod ?c = (Suc (gp_free_head p) + nc) mod ?c"
    using nh(2,3) by simp
  also have "\<dots> = (nh + nc) mod ?c"
    unfolding nh(1) using len(4) by (simp add: ring_next_mod mod_simps)
  finally have tail: "gp_free_tail p = (nh + nc) mod ?c"
    using D(4) by simp
  have idx: "((gp_owner_slots p)(address owner \<mapsto> slot)) a = Some i \<longleftrightarrow>
      i < ?c \<and> (\<exists>x. (gp_owners p)[slot := Some owner] ! i = Some x \<and> address x = a)" for a i
  proof -
    have "address x \<noteq> address owner" if "i < ?c" "gp_owners p ! i = Some x" for x
      using fresh that len(2) nth_mem [of i "gp_owners p"] unfolding addr_free_def by auto
    then show ?thesis using D(9) [of a i] slot len(2) by (auto simp: nth_list_update)
  qed
  have act: "gp_active p + 1 = int (card {i. i < ?c \<and> ?st ! i = ACTIVE})"
    using D(7) card_insert_class [of slot ?c "gp_states p" ACTIVE] slot(1,2) len(1) by simp
  have ret: "gp_retired p = int (card {i. i < ?c \<and> ?st ! i = RETIRED})"
    using D(8) card_other_class [of slot ?c "gp_states p" RETIRED ACTIVE] slot(1,2) len(1) by simp
  show ?thesis
    unfolding acquire_steps_eq
  proof (rule derived_okI, goal_cases)
    case (1 i) then show ?case using D(1) [of i] slot(1) len(1) by (simp add: nth_list_update)
  next
    case (2 i) then show ?case using D(2) [of i] slot(1) len(1,2) by (simp add: nth_list_update)
  next
    case 3 show ?case using D(3) nh(2) by simp
  next
    case 4 show ?case using tail by simp
  next
    case 5 show ?case using dis by simp
  next
    case 6 show ?case using free by simp
  next
    case 7 show ?case using act by simp
  next
    case 8 show ?case using ret by simp
  next
    case (9 a i) show ?case using idx [of a i] by simp
  qed
qed

section \<open>Retirement keeps the invariant\<close>

lemma release_retire_eq:
  "apply_all (release_steps owner slot None) p =
   p\<lparr>gp_states := (gp_states p)[slot := RETIRED],
     gp_owners := (gp_owners p)[slot := None],
     gp_owner_slots := (gp_owner_slots p)(address owner := None),
     gp_active := gp_active p - 1, gp_retired := gp_retired p + 1,
     gp_derived_dirty := False\<rparr>"
  by (simp add: release_steps_def)

lemma release_push_eq:
  "apply_all (release_steps owner slot (Some (tail, next_tail, next_count))) p =
   p\<lparr>gp_states := (gp_states p)[slot := FREE],
     gp_owners := (gp_owners p)[slot := None],
     gp_owner_slots := (gp_owner_slots p)(address owner := None),
     gp_active := gp_active p - 1,
     gp_free_ring := (gp_free_ring p)[tail := slot],
     gp_free_tail := next_tail, gp_count := next_count,
     gp_derived_dirty := False\<rparr>"
  by (simp add: release_steps_def commit_free_push_def)

definition pushable :: "pool \<Rightarrow> nat \<Rightarrow> (nat \<times> nat \<times> nat) option \<Rightarrow> bool" where
  "pushable p slot push \<longleftrightarrow>
     (if gp_generations p ! slot \<ge> gp_max_generation p then push = None
      else push = prepare_free_push p \<and> push \<noteq> None)"

lemma pushableE:
  assumes "pushable p slot push"
  obtains "push = None"
  | "push = Some (gp_free_tail p, ring_next (gp_capacity p) (gp_free_tail p), gp_count p + 1)"
    "gp_count p < gp_capacity p"
  using assms by (auto simp: pushable_def prepare_free_push_def split: if_splits)

lemma release_index:
  assumes "pool_shape p" "derived_ok p" "slot < gp_capacity p" "gp_owners p ! slot = Some owner"
  shows "((gp_owner_slots p)(address owner := None)) a = Some i \<longleftrightarrow>
    i < gp_capacity p \<and> (\<exists>x. (gp_owners p)[slot := None] ! i = Some x \<and> address x = a)"
proof -
  have len: "length (gp_owners p) = gp_capacity p" and apart: "addresses_apart (gp_owners p)"
    using assms(1) by (simp_all add: pool_shape_def)
  have "i = slot" if "i < gp_capacity p" "gp_owners p ! i = Some x" "address x = address owner" for x
    using apart that assms(3,4) len unfolding addresses_apart_def by metis
  then show ?thesis
    using derived_okD(9) [OF assms(2), of a i] assms(3,4) len
    by (auto simp: nth_list_update)
qed

lemma release_retire_ok:
  assumes sh: "pool_shape p" and ok: "derived_ok p"
    and slot: "slot < gp_capacity p" "gp_owners p ! slot = Some owner"
  shows "derived_ok (apply_all (release_steps owner slot None) p)"
proof -
  let ?c = "gp_capacity p"
  note D = derived_okD [OF ok]
  have len: "length (gp_states p) = ?c" "length (gp_owners p) = ?c"
    using sh by (simp_all add: pool_shape_def)
  have act: "gp_states p ! slot = ACTIVE" using D(2) [OF slot(1)] slot(2) by simp
  show ?thesis
    unfolding release_retire_eq
  proof (rule derived_okI, goal_cases)
    case (1 i) then show ?case using D(1) [of i] slot(1) len(1) by (simp add: nth_list_update)
  next
    case (2 i) then show ?case using D(2) [of i] slot(1) len by (simp add: nth_list_update)
  next
    case 3 show ?case using D(3) by simp
  next
    case 4 show ?case using D(4) by simp
  next
    case 5 show ?case using D(5) by simp
  next
    case 6 show ?case
      using D(6) card_other_class [of slot ?c "gp_states p" FREE RETIRED] slot(1) act len(1) by simp
  next
    case 7 show ?case
      using D(7) card_remove_class [of slot ?c "gp_states p" ACTIVE RETIRED] slot(1) act len(1) by simp
  next
    case 8 show ?case
      using D(8) card_insert_class [of slot ?c "gp_states p" RETIRED] slot(1) act len(1) by simp
  next
    case (9 a i) show ?case using release_index [OF sh ok slot] by simp
  qed
qed

lemma release_push_ok:
  assumes sh: "pool_shape p" and ok: "derived_ok p"
    and slot: "slot < gp_capacity p" "gp_owners p ! slot = Some owner"
    and room: "gp_count p < gp_capacity p"
  shows "derived_ok (apply_all (release_steps owner slot
    (Some (gp_free_tail p, ring_next (gp_capacity p) (gp_free_tail p), gp_count p + 1))) p)"
proof -
  let ?c = "gp_capacity p" and ?st = "(gp_states p)[slot := FREE]"
  let ?ring = "(gp_free_ring p)[gp_free_tail p := slot]"
  note D = derived_okD [OF ok]
  have len: "length (gp_states p) = ?c" "length (gp_owners p) = ?c" "length (gp_free_ring p) = ?c"
    and tl: "gp_free_tail p < ?c"
    using sh by (simp_all add: pool_shape_def)
  have act: "gp_states p ! slot = ACTIVE" using D(2) [OF slot(1)] slot(2) by simp
  have seg: "ring_seg ?ring (gp_free_head p) (Suc (gp_count p)) =
      ring_seg (gp_free_ring p) (gp_free_head p) (gp_count p) @ [slot]"
    using ring_seg_push [of "gp_count p" "gp_free_ring p" "gp_free_head p" slot] room len(3) D(4)
    by simp
  have free: "{i. i < ?c \<and> ?st ! i = FREE} = insert slot {i. i < ?c \<and> gp_states p ! i = FREE}"
    using slot(1) len(1) by (auto simp: nth_list_update)
  show ?thesis
    unfolding release_push_eq
  proof (rule derived_okI, goal_cases)
    case (1 i) then show ?case using D(1) [of i] slot(1) len(1) by (simp add: nth_list_update)
  next
    case (2 i) then show ?case using D(2) [of i] slot(1) len by (simp add: nth_list_update)
  next
    case 3 show ?case using room by simp
  next
    case 4 show ?case using D(4) tl by (simp add: ring_next_mod mod_simps)
  next
    case 5 show ?case using D(5) D(6) seg act by simp
  next
    case 6 show ?case using D(6) seg free by simp
  next
    case 7 show ?case
      using D(7) card_remove_class [of slot ?c "gp_states p" ACTIVE FREE] slot(1) act len(1) by simp
  next
    case 8 show ?case
      using D(8) card_other_class [of slot ?c "gp_states p" RETIRED FREE] slot(1) act len(1) by simp
  next
    case (9 a i) show ?case using release_index [OF sh ok slot] by simp
  qed
qed

lemma shape_owner_None [simp]:
  "pool_shape p \<Longrightarrow> pool_shape (p\<lparr>gp_owners := (gp_owners p)[slot := None]\<rparr>)"
  by (auto simp: pool_shape_def intro: apart_None)

lemma shape_owner_Some:
  "pool_shape p \<Longrightarrow> addr_free p owner \<Longrightarrow>
   pool_shape (p\<lparr>gp_owners := (gp_owners p)[slot := Some owner]\<rparr>)"
  by (auto simp: pool_shape_def addr_free_def intro: apart_Some)

lemma release_commit_shape:
  assumes "pool_shape p" "pushable p slot push"
  shows "pool_shape (apply_all (release_steps owner slot push) p)"
  using assms(2)
proof (cases rule: pushableE)
  case 1
  then show ?thesis using assms(1) by (auto simp: release_retire_eq pool_shape_def intro: apart_None)
next
  case 2
  then show ?thesis
    using assms(1) by (auto simp: release_push_eq pool_shape_def ring_next_less intro: apart_None)
qed

lemma release_commit_ok:
  assumes "pool_shape p" "derived_ok p" "slot < gp_capacity p" "gp_owners p ! slot = Some owner"
    and "pushable p slot push"
  shows "derived_ok (apply_all (release_steps owner slot push) p)"
  using assms(5)
proof (cases rule: pushableE)
  case 1
  then show ?thesis using release_retire_ok [OF assms(1-4)] by simp
next
  case 2
  then show ?thesis using release_push_ok [OF assms(1-4)] by simp
qed

section \<open>Interrupted calls\<close>

definition evolves :: "pool \<Rightarrow> pool \<Rightarrow> bool" where
  "evolves p q \<longleftrightarrow>
     gp_capacity q = gp_capacity p \<and> gp_slot_bits q = gp_slot_bits p
     \<and> gp_max_generation q = gp_max_generation p \<and> gp_corrupted q = gp_corrupted p
     \<and> list_all2 (\<le>) (gp_generations p) (gp_generations q)"

lemma evolves_refl [simp]: "evolves p p"
  by (simp add: evolves_def list_all2_refl)

lemma evolves_trans: "evolves p q \<Longrightarrow> evolves q r \<Longrightarrow> evolves p r"
  by (auto simp: evolves_def intro: list_all2_trans [of "(\<le>)" "(\<le>)" "(\<le>)"])

lemma evolves_core: "same_core p q \<Longrightarrow> evolves p q"
  by (simp add: evolves_def same_core_def list_all2_refl)

lemma evolves_update [simp]:
  "evolves p (q\<lparr>gp_owner_slots := m\<rparr>) = evolves p q"
  "evolves p (q\<lparr>gp_count := c\<rparr>) = evolves p q"
  "evolves p (q\<lparr>gp_active := a\<rparr>) = evolves p q"
  "evolves p (q\<lparr>gp_retired := a\<rparr>) = evolves p q"
  "evolves p (q\<lparr>gp_states := ss\<rparr>) = evolves p q"
  "evolves p (q\<lparr>gp_free_ring := fr\<rparr>) = evolves p q"
  "evolves p (q\<lparr>gp_free_head := h\<rparr>) = evolves p q"
  "evolves p (q\<lparr>gp_free_tail := h\<rparr>) = evolves p q"
  "evolves p (q\<lparr>gp_owners := os\<rparr>) = evolves p q"
  "evolves p (q\<lparr>gp_derived_dirty := d\<rparr>) = evolves p q"
  by (simp_all add: evolves_def)

lemma evolves_generation:
  assumes "evolves p q" "gp_generations p ! slot \<le> g"
  shows "evolves p (q\<lparr>gp_generations := (gp_generations q)[slot := g]\<rparr>)"
proof -
  have "gp_generations p ! i \<le> (gp_generations q)[slot := g] ! i"
    if "i < length (gp_generations q)" for i
    using assms that by (cases "i = slot") (auto simp: evolves_def list_all2_conv_all_nth)
  then show ?thesis using assms by (auto simp: evolves_def list_all2_conv_all_nth)
qed

definition within :: "pool \<Rightarrow> obj option list set \<Rightarrow> pool \<Rightarrow> bool" where
  "within p oss q \<longleftrightarrow> pool_inv q \<and> evolves p q \<and> gp_owners q \<in> oss"

definition torn :: "pool \<Rightarrow> obj option list set \<Rightarrow> pool \<Rightarrow> bool" where
  "torn p oss q \<longleftrightarrow> pool_shape q \<and> gp_derived_dirty q \<and> evolves p q \<and> gp_owners q \<in> oss"

lemma torn_within: "torn p oss q \<Longrightarrow> within p oss q"
  by (simp add: torn_def within_def pool_inv_def)

lemma torn_update [simp]:
  "torn p oss q \<Longrightarrow> torn p oss (q\<lparr>gp_owner_slots := m\<rparr>)"
  "torn p oss q \<Longrightarrow> torn p oss (q\<lparr>gp_count := c\<rparr>)"
  "torn p oss q \<Longrightarrow> torn p oss (q\<lparr>gp_active := a\<rparr>)"
  "torn p oss q \<Longrightarrow> torn p oss (q\<lparr>gp_retired := a\<rparr>)"
  "torn p oss q \<Longrightarrow> torn p oss (q\<lparr>gp_states := (gp_states q)[i := s]\<rparr>)"
  "torn p oss q \<Longrightarrow> torn p oss (q\<lparr>gp_free_ring := (gp_free_ring q)[i := k]\<rparr>)"
  "torn p oss q \<Longrightarrow> h < gp_capacity p \<Longrightarrow> torn p oss (q\<lparr>gp_free_head := h\<rparr>)"
  "torn p oss q \<Longrightarrow> h < gp_capacity p \<Longrightarrow> torn p oss (q\<lparr>gp_free_tail := h\<rparr>)"
  by (auto simp: torn_def evolves_def)

lemma acquire_cut:
  assumes sh: "pool_shape p" and ok: "derived_ok p" and pop: "poppable p slot nh nc"
    and fresh: "addr_free p owner"
  shows "within p {gp_owners p, (gp_owners p)[slot := Some owner]}
    (apply_all (cut k (acquire_steps owner slot (gp_generations p ! slot + 1) nh nc)) p)"
proof -
  let ?oss = "{gp_owners p, (gp_owners p)[slot := Some owner]}" and ?g = "gp_generations p ! slot + 1"
  have g: "?g \<le> gp_max_generation p"
    using pop unfolding poppable_def by linarith
  have nh: "nh < gp_capacity p"
    using pop sh by (auto simp: poppable_def pool_shape_def ring_next_less)
  have apart: "addresses_apart ((gp_owners p)[slot := Some owner])"
    using sh fresh by (intro apart_Some) (auto simp: pool_shape_def addr_free_def)
  have own: "torn p ?oss (q\<lparr>gp_owners := (gp_owners q)[slot := Some owner]\<rparr>)" if "torn p ?oss q" for q
    using that apart by (auto simp: torn_def pool_shape_def)
  have gen: "torn p ?oss (q\<lparr>gp_generations := (gp_generations q)[slot := ?g]\<rparr>)" if "torn p ?oss q" for q
    using that g evolves_generation [of p q slot ?g] shape_generation [of q ?g slot]
    by (auto simp: torn_def evolves_def)
  let ?gs = "[\<lambda>q. q\<lparr>gp_owners := (gp_owners q)[slot := Some owner]\<rparr>,
      \<lambda>q. q\<lparr>gp_owner_slots := (gp_owner_slots q)(address owner \<mapsto> slot)\<rparr>,
      \<lambda>q. q\<lparr>gp_generations := (gp_generations q)[slot := ?g]\<rparr>,
      \<lambda>q. q\<lparr>gp_states := (gp_states q)[slot := ACTIVE]\<rparr>,
      \<lambda>q. q\<lparr>gp_free_head := nh\<rparr>, \<lambda>q. q\<lparr>gp_count := nc\<rparr>,
      \<lambda>q. q\<lparr>gp_active := gp_active q + 1\<rparr>]"
  have steps: "acquire_steps owner slot ?g nh nc =
      (\<lambda>q. q\<lparr>gp_derived_dirty := True\<rparr>) # ?gs @ [\<lambda>q. q\<lparr>gp_derived_dirty := False\<rparr>]"
    by (simp add: acquire_steps_def commit_free_pop_def)
  have ev: "evolves p (apply_all (acquire_steps owner slot ?g nh nc) p)"
    using evolves_generation [of p p slot ?g] by (simp add: acquire_steps_eq evolves_def)
  show ?thesis
    unfolding steps
  proof (rule cut_bracket [where D = "torn p ?oss" and P = "within p ?oss"])
    show "within p ?oss p" using sh ok by (simp add: within_def pool_inv_def)
    show "torn p ?oss (p\<lparr>gp_derived_dirty := True\<rparr>)" using sh by (simp add: torn_def)
    show "torn p ?oss (f q)" if f: "f \<in> set ?gs" and q: "torn p ?oss q" for f q
      using f own [OF q] gen [OF q] q nh by auto
    show "within p ?oss q" if "torn p ?oss q" for q using that by (rule torn_within)
    show "within p ?oss (apply_all
        ((\<lambda>q. q\<lparr>gp_derived_dirty := True\<rparr>) # ?gs @ [\<lambda>q. q\<lparr>gp_derived_dirty := False\<rparr>]) p)"
      unfolding steps [symmetric] within_def pool_inv_def
      using acquire_commit_shape [OF sh pop fresh] acquire_commit_ok [OF sh ok pop fresh] ev
      by (simp add: acquire_steps_eq)
  qed
qed

lemma rebuild_cut:
  assumes "pool_inv p"
  shows "within p {gp_owners p} (apply_all (cut k (rebuild_steps p)) p)"
proof -
  obtain states ring index available active retired
    where scan: "rebuild_scan p = (states, ring, index, available, active, retired)"
    by (cases "rebuild_scan p") auto
  have sh: "pool_shape p" using assms by (simp add: pool_inv_def)
  have len: "length states = gp_capacity p" "length ring = gp_capacity p" "available \<le> gp_capacity p"
    using scan length_free_slots_le [of p "gp_capacity p"] by (auto simp: rebuild_scan_eq)
  let ?gs = "[\<lambda>q. q\<lparr>gp_states := states\<rparr>, \<lambda>q. q\<lparr>gp_free_ring := ring\<rparr>, \<lambda>q. q\<lparr>gp_free_head := 0\<rparr>,
        \<lambda>q. q\<lparr>gp_free_tail := (if available = gp_capacity p then 0 else available)\<rparr>,
        \<lambda>q. q\<lparr>gp_owner_slots := index\<rparr>, \<lambda>q. q\<lparr>gp_count := available\<rparr>,
        \<lambda>q. q\<lparr>gp_active := active\<rparr>, \<lambda>q. q\<lparr>gp_retired := retired\<rparr>]"
  have steps: "rebuild_steps p =
      (\<lambda>q. q\<lparr>gp_derived_dirty := True\<rparr>) # ?gs @ [\<lambda>q. q\<lparr>gp_derived_dirty := False\<rparr>]"
    by (simp add: rebuild_steps_def scan)
  have upd: "torn p {gp_owners p} (q\<lparr>gp_states := states\<rparr>)"
    "torn p {gp_owners p} (q\<lparr>gp_free_ring := ring\<rparr>)" if "torn p {gp_owners p} q" for q
    using that len by (auto simp: torn_def pool_shape_def evolves_def)
  have tl: "(if available = gp_capacity p then 0 else available) < gp_capacity p" "0 < gp_capacity p"
    using len sh by (auto simp: pool_shape_def)
  show ?thesis
    unfolding steps
  proof (rule cut_bracket [where D = "torn p {gp_owners p}" and P = "within p {gp_owners p}"])
    show "within p {gp_owners p} p" using assms by (simp add: within_def)
    show "torn p {gp_owners p} (p\<lparr>gp_derived_dirty := True\<rparr>)" using sh by (simp add: torn_def)
    show "torn p {gp_owners p} (f q)" if f: "f \<in> set ?gs" and q: "torn p {gp_owners p} q" for f q
      using f upd [OF q] q tl by (auto simp del: if_split)
    show "within p {gp_owners p} q" if "torn p {gp_owners p} q" for q using that by (rule torn_within)
    show "within p {gp_owners p} (apply_all
        ((\<lambda>q. q\<lparr>gp_derived_dirty := True\<rparr>) # ?gs @ [\<lambda>q. q\<lparr>gp_derived_dirty := False\<rparr>]) p)"
      unfolding steps [symmetric] rebuild_derived_def [symmetric]
      using rebuild_inv [OF sh] same_core_rebuild [of p]
      by (simp add: within_def evolves_core same_core_def)
  qed
qed

lemma within_step:
  "within p oss q \<Longrightarrow> within q {gp_owners q} r \<Longrightarrow> within p oss r"
  by (auto simp: within_def intro: evolves_trans)

lemma rollback_within:
  assumes slot: "gp_owners p ! slot = None" "slot < length (gp_owners p)"
    and q: "within p {gp_owners p, (gp_owners p)[slot := Some owner]} q"
    and one: "gp_derived_dirty q \<or> again = None"
  shows "within p {gp_owners p, (gp_owners p)[slot := Some owner]} (acquire_rollback again owner slot q)"
    and "again = None \<Longrightarrow> gp_owners (acquire_rollback again owner slot q) = gp_owners p"
proof -
  let ?oss = "{gp_owners p, (gp_owners p)[slot := Some owner]}"
  define u1 where "u1 = (\<lambda>q :: pool. q\<lparr>gp_owners := (gp_owners q)[slot := None]\<rparr>)"
  define u2 where "u2 = (\<lambda>q. if gp_generations q ! slot < gp_max_generation q
                   then q\<lparr>gp_states := (gp_states q)[slot := FREE]\<rparr> else (q :: pool))"
  have same: "(gp_owners p)[slot := None] = gp_owners p" using slot by (metis list_update_id)
  have "gp_owners q \<in> ?oss" using q by (simp add: within_def)
  then have own: "(gp_owners q)[slot := None] = gp_owners p" using same by auto
  have sh: "pool_shape q" "evolves p q" using q by (simp_all add: within_def pool_inv_def)
  have u: "pool_shape (u1 q)" "evolves p (u1 q)" "gp_owners (u1 q) = gp_owners p"
    "gp_derived_dirty (u1 q) = gp_derived_dirty q"
    using sh own shape_owner_None [OF sh(1), of slot] by (simp_all add: u1_def)
  have v: "pool_shape (u2 (u1 q))" "evolves p (u2 (u1 q))" "gp_owners (u2 (u1 q)) = gp_owners p"
    "gp_derived_dirty (u2 (u1 q)) = gp_derived_dirty q"
    using u by (simp_all add: u2_def)
  have rb: "acquire_rollback again owner slot q =
      (if gp_owners q ! slot = Some owner
       then apply_all (cut again (u1 # u2 # rebuild_steps (u2 (u1 q)))) q else q)"
    by (simp add: acquire_rollback_def u1_def u2_def)
  have full: "within p {gp_owners p} (rebuild_derived (u2 (u1 q)))"
    using rebuild_inv [OF v(1)] evolves_trans [OF v(2) evolves_core [OF same_core_rebuild]] v(3)
      same_core_rebuild [of "u2 (u1 q)"]
    by (simp add: within_def same_core_def)
  show "gp_owners (acquire_rollback again owner slot q) = gp_owners p" if "again = None"
  proof (cases "gp_owners q ! slot = Some owner")
    case True
    then show ?thesis using that full rb by (simp add: within_def rebuild_derived_def)
  next
    case False
    then have "gp_owners q = gp_owners p" using q slot by (auto simp: within_def)
    then show ?thesis using False rb by simp
  qed
  show "within p ?oss (acquire_rollback again owner slot q)"
  proof (cases "gp_owners q ! slot = Some owner \<and> again \<noteq> None")
    case False
    then show ?thesis using q full rb by (auto simp: within_def rebuild_derived_def)
  next
    case True
    then obtain k where k: "again = Some k" by auto
    with one have d: "gp_derived_dirty q" by simp
    have uv: "within p ?oss (u1 q)" "within p ?oss (u2 (u1 q))"
      using u v d by (simp_all add: within_def pool_inv_def)
    then have "within p ?oss (apply_all (cut (Some (k - 2)) (rebuild_steps (u2 (u1 q)))) (u2 (u1 q)))"
      using within_step rebuild_cut by (metis within_def)
    then show ?thesis
      using True k q uv rb by (cases k; cases "k - 1") (simp_all)
  qed
qed

lemma release_cut:
  assumes sh: "pool_shape p" and ok: "derived_ok p"
    and slot: "slot < gp_capacity p" "gp_owners p ! slot = Some owner"
    and push: "pushable p slot push"
  shows "within p {gp_owners p, (gp_owners p)[slot := None]}
    (apply_all (cut k (release_steps owner slot push)) p)"
proof -
  let ?oss = "{gp_owners p, (gp_owners p)[slot := None]}"
  define mid where "mid = (case push of
          None \<Rightarrow> [\<lambda>q. q\<lparr>gp_states := (gp_states q)[slot := RETIRED]\<rparr>,
                   \<lambda>q. q\<lparr>gp_retired := gp_retired q + 1\<rparr>]
        | Some (tail, next_tail, next_count) \<Rightarrow>
            commit_free_push slot tail next_tail next_count
            @ [\<lambda>q. q\<lparr>gp_states := (gp_states q)[slot := FREE]\<rparr>])"
  let ?gs = "[\<lambda>q. q\<lparr>gp_states := (gp_states q)[slot := RETIRING]\<rparr>,
      \<lambda>q. q\<lparr>gp_owners := (gp_owners q)[slot := None]\<rparr>,
      \<lambda>q. q,
      \<lambda>q. q\<lparr>gp_owner_slots := (gp_owner_slots q)(address owner := None)\<rparr>,
      \<lambda>q. q\<lparr>gp_active := gp_active q - 1\<rparr>] @ mid"
  have steps: "release_steps owner slot push =
      (\<lambda>q. q\<lparr>gp_derived_dirty := True\<rparr>) # ?gs @ [\<lambda>q. q\<lparr>gp_derived_dirty := False\<rparr>]"
    by (simp add: release_steps_def mid_def)
  have tl: "ring_next (gp_capacity p) (gp_free_tail p) < gp_capacity p"
    using sh by (simp add: pool_shape_def ring_next_less)
  have own: "torn p ?oss (q\<lparr>gp_owners := (gp_owners q)[slot := None]\<rparr>)" if "torn p ?oss q" for q
    using that by (auto simp: torn_def)
  have midD: "torn p ?oss (f q)" if f: "f \<in> set mid" and q: "torn p ?oss q" for f q
    using push
  proof (cases rule: pushableE)
    case 1
    then show ?thesis using f q by (auto simp: mid_def)
  next
    case 2
    then show ?thesis using f q tl by (auto simp: mid_def commit_free_push_def)
  qed
  have fin: "gp_owners (apply_all (release_steps owner slot push) p) = (gp_owners p)[slot := None]"
    "evolves p (apply_all (release_steps owner slot push) p)"
    using push by (auto elim!: pushableE simp: release_retire_eq release_push_eq)
  show ?thesis
    unfolding steps
  proof (rule cut_bracket [where D = "torn p ?oss" and P = "within p ?oss"])
    show "within p ?oss p" using sh ok by (simp add: within_def pool_inv_def)
    show "torn p ?oss (p\<lparr>gp_derived_dirty := True\<rparr>)" using sh by (simp add: torn_def)
    show "torn p ?oss (f q)" if f: "f \<in> set ?gs" and q: "torn p ?oss q" for f q
      using f own [OF q] midD [OF _ q] q by auto
    show "within p ?oss q" if "torn p ?oss q" for q using that by (rule torn_within)
    show "within p ?oss (apply_all
        ((\<lambda>q. q\<lparr>gp_derived_dirty := True\<rparr>) # ?gs @ [\<lambda>q. q\<lparr>gp_derived_dirty := False\<rparr>]) p)"
      unfolding steps [symmetric] within_def pool_inv_def
      using release_commit_shape [OF sh push] release_commit_ok [OF sh ok slot push] fin
      by simp
  qed
qed

section \<open>Whole calls\<close>

definition recoverable :: "nat option \<Rightarrow> nat option \<Rightarrow> bool" where
  "recoverable intr again \<longleftrightarrow> again = None \<or> (\<exists>k. intr = Some k \<and> k < 9)"

lemma coexist_addr_free:
  assumes co: "may_coexist owner (live_owners p)"
    and no: "\<And>i. \<not> (i < gp_capacity p \<and> gp_owners p ! i = Some owner)"
    and len: "length (gp_owners p) = gp_capacity p"
  shows "addr_free p owner"
  unfolding addr_free_def
proof (intro allI impI notI)
  fix y
  assume y: "Some y \<in> set (gp_owners p)" "address y = address owner"
  then have "y = owner"
    using co by (auto simp: may_coexist_def list_all_iff set_live_owners)
  with y obtain i where "i < length (gp_owners p)" "gp_owners p ! i = Some owner"
    by (auto simp: in_set_conv_nth)
  with no len show False by auto
qed

lemma acquire_cut_dirty:
  assumes "k < 9" "k \<noteq> 0"
  shows "gp_derived_dirty (apply_all (cut (Some k) (acquire_steps owner slot g nh nc)) p)"
proof -
  have "k \<in> {1, 2, 3, 4, 5, 6, 7, 8}" using assms by auto
  then show ?thesis by (auto simp: acquire_steps_def commit_free_pop_def numeral_eq_Suc)
qed

lemma same_core_owned: "same_core p q \<Longrightarrow> gp_owners q = gp_owners p \<and> gp_capacity q = gp_capacity p
    \<and> gp_generations q = gp_generations p \<and> gp_slot_bits q = gp_slot_bits p \<and> gp_corrupted q = gp_corrupted p"
  by (simp add: same_core_def)

lemma addr_free_core: "same_core p q \<Longrightarrow> addr_free q owner = addr_free p owner"
  by (simp add: addr_free_def same_core_def)

lemma acquire_for_cases:
  assumes inv: "pool_inv p" and co: "may_coexist owner (live_owners p)"
    and eq: "acquire_for intr again (Some owner) p = (r, q)"
  obtains (refused) "r = Returned None" "pool_inv q" "same_core p q"
  | (duplicate) "r = Raised (RuntimeError ''bounded generation owner already has a live slot'')"
      "pool_inv q" "same_core p q" "\<exists>i<gp_capacity p. gp_owners p ! i = Some owner"
  | (admitted) b slot nh nc where "pool_shape b" "derived_ok b" "same_core p b"
      "poppable b slot nh nc" "addr_free b owner" "\<not> gp_corrupted p"
      "r = (case intr of None \<Rightarrow> Returned (Some (encode b slot (gp_generations b ! slot + 1))) | Some _ \<Rightarrow> Interrupted)"
      "q = (let c = apply_all (cut intr (acquire_steps owner slot (gp_generations b ! slot + 1) nh nc)) b
            in case intr of None \<Rightarrow> c | Some _ \<Rightarrow> acquire_rollback again owner slot c)"
proof (cases "gp_corrupted p")
  case True
  then show ?thesis using eq inv by (auto simp: acquire_for_def intro: refused)
next
  case False
  note ens = ensure_derived_props [OF inv]
  obtain s p1 where s: "slot_for_owner (ensure_derived p) owner = (s, p1)" by fastforce
  note sf = slot_for_owner_props [OF ens(1) s]
  have core1: "same_core p p1" by (rule same_core_trans [OF ens(3) sf(3)])
  have own: "s = Some i \<longleftrightarrow> i < gp_capacity p \<and> gp_owners p ! i = Some owner" for i
    using sf(4) [of i] ens(3) by (simp add: same_core_def)
  show ?thesis
  proof (cases s)
    case (Some i)
    then show ?thesis
      using eq False s core1 sf(1) own [of i] by (intro duplicate) (auto simp: acquire_for_def)
  next
    case None
    obtain c p2 where c: "choose_free p1 = (c, p2)" by fastforce
    note cf = choose_free_props [OF sf(1,2) c]
    have core2: "same_core p p2" by (rule same_core_trans [OF core1 cf(3)])
    show ?thesis
    proof (cases c)
      case None
      then show ?thesis
        using eq False s \<open>s = None\<close> c cf(1) core2 by (intro refused) (auto simp: acquire_for_def)
    next
      case (Some t)
      obtain slot nh nc where t: "t = (slot, nh, nc)" by (cases t) auto
      have sh2: "pool_shape p2" "derived_ok p2" using cf(1,2) by (auto simp: pool_inv_def)
      have free: "addr_free p owner"
        using co own None inv by (intro coexist_addr_free) (auto simp: pool_inv_def pool_shape_def)
      show ?thesis
      proof (rule admitted [of p2 slot nh nc])
        show "poppable p2 slot nh nc" using cf(4) Some t by simp
        show "addr_free p2 owner" using free core2 by (simp add: addr_free_core)
      qed (use eq False s None c Some t sh2 core2 in
          \<open>auto simp: acquire_for_def Let_def split: option.splits\<close>)
    qed
  qed
qed

lemma acquire_for_inv:
  assumes inv: "pool_inv p" and co: "may_coexist owner (live_owners p)"
    and rec: "recoverable intr again"
    and eq: "acquire_for intr again (Some owner) p = (r, q)"
  shows "pool_inv q \<and> evolves p q"
  using inv co eq
proof (cases rule: acquire_for_cases)
  case refused
  then show ?thesis by (simp add: evolves_core)
next
  case duplicate
  then show ?thesis by (simp add: evolves_core)
next
  case (admitted b slot nh nc)
  let ?c = "apply_all (cut intr (acquire_steps owner slot (gp_generations b ! slot + 1) nh nc)) b"
  have c: "within b {gp_owners b, (gp_owners b)[slot := Some owner]} ?c"
    by (rule acquire_cut [OF admitted(1,2,4,5)])
  have slot: "gp_owners b ! slot = None" "slot < length (gp_owners b)"
    using admitted(1,4) by (auto simp: poppable_def pool_shape_def)
  have "pool_inv q \<and> evolves b q"
  proof (cases intr)
    case None
    then show ?thesis using c admitted(8) by (simp add: within_def)
  next
    case (Some k)
    show ?thesis
    proof (cases "gp_derived_dirty ?c \<or> again = None")
      case True
      then show ?thesis
        using rollback_within(1) [OF slot c] admitted(8) Some by (simp add: within_def)
    next
      case False
      then have "k = 0"
        using rec Some acquire_cut_dirty [of k owner slot "gp_generations b ! slot + 1" nh nc b]
        by (auto simp: recoverable_def)
      then have "?c = b" using Some by simp
      then show ?thesis
        using admitted(8) Some slot c by (auto simp: within_def acquire_rollback_def Let_def)
    qed
  qed
  then show ?thesis using evolves_trans [OF evolves_core [OF admitted(3)]] by blast
qed

lemma count_room:
  assumes "pool_shape p" "derived_ok p" "slot < gp_capacity p" "gp_owners p ! slot = Some owner"
  shows "gp_count p < gp_capacity p"
proof -
  note D = derived_okD [OF assms(2)]
  have "gp_states p ! slot = ACTIVE" using D(2) [OF assms(3)] assms(4) by simp
  then have "slot \<notin> {i. i < gp_capacity p \<and> gp_states p ! i = FREE}" by simp
  then have "{i. i < gp_capacity p \<and> gp_states p ! i = FREE} \<subset> {i. i < gp_capacity p}"
    using assms(3) by blast
  then have "card {i. i < gp_capacity p \<and> gp_states p ! i = FREE} < card {i. i < gp_capacity p}"
    by (intro psubset_card_mono) auto
  moreover have "gp_count p = card {i. i < gp_capacity p \<and> gp_states p ! i = FREE}"
    using distinct_card [OF D(5)] unfolding D(6) length_ring_seg by (rule sym)
  ultimately show ?thesis by simp
qed

lemma release_for_cases:
  assumes inv: "pool_inv p" and eq: "release_for intr again owner p = (r, q)"
  obtains (absent) "r = Returned True" "pool_inv q" "\<not> gp_derived_dirty q" "same_core p q"
      "\<And>i. i < gp_capacity p \<Longrightarrow> gp_owners p ! i \<noteq> Some owner"
  | (held) b slot push where "pool_shape b" "derived_ok b" "same_core p b" "slot < gp_capacity p"
      "gp_owners p ! slot = Some owner" "pushable b slot push"
      "(r, q) = release_commit intr again owner slot push b"
proof -
  note ens = ensure_derived_props [OF inv]
  obtain s b where s: "slot_for_owner (ensure_derived p) owner = (s, b)" by fastforce
  note sf = slot_for_owner_props [OF ens(1) s]
  have core: "same_core p b" by (rule same_core_trans [OF ens(3) sf(3)])
  have own: "s = Some i \<longleftrightarrow> i < gp_capacity p \<and> gp_owners p ! i = Some owner" for i
    using sf(4) [of i] ens(3) by (simp add: same_core_def)
  show ?thesis
  proof (cases s)
    case None
    show ?thesis
    proof (rule absent)
      show "r = Returned True" "pool_inv q" "\<not> gp_derived_dirty q" "same_core p q"
        using eq s None core sf(1,2) by (auto simp: release_for_def)
      show "gp_owners p ! i \<noteq> Some owner" if "i < gp_capacity p" for i
        using own [of i] that None by auto
    qed
  next
    case (Some slot)
    let ?push = "if gp_generations b ! slot \<ge> gp_max_generation b then None else prepare_free_push b"
    have b: "pool_shape b" "derived_ok b" using sf(1,2) by (auto simp: pool_inv_def)
    have slot: "slot < gp_capacity p" "gp_owners p ! slot = Some owner" using own Some by auto
    then have "gp_count b < gp_capacity b"
      using core by (intro count_room [OF b]) (auto simp: same_core_def)
    then have room: "prepare_free_push b \<noteq> None" by (simp add: prepare_free_push_def)
    show ?thesis
    proof (rule held [OF b core slot, of ?push])
      show "pushable b slot ?push" using room by (simp add: pushable_def)
      show "(r, q) = release_commit intr again owner slot ?push b"
        using eq s Some room by (auto simp: release_for_def Let_def)
    qed
  qed
qed

lemma release_handler_within:
  assumes slot: "slot < gp_capacity p" "gp_owners p ! slot = Some owner"
    and sh: "pool_shape p" and ok: "derived_ok p" and push: "pushable p slot push"
  shows "within p {gp_owners p, (gp_owners p)[slot := None]}
    (release_handler at again owner slot (apply_all (cut (Some at) (release_steps owner slot push)) p))"
proof -
  let ?oss = "{gp_owners p, (gp_owners p)[slot := None]}"
  let ?q = "apply_all (cut (Some at) (release_steps owner slot push)) p"
  have w: "within p ?oss ?q" by (rule release_cut [OF sh ok slot push])
  show ?thesis
  proof (cases "at < 4")
    case False
    have "within ?q {gp_owners ?q} (apply_all (cut again (rebuild_steps ?q)) ?q)"
      using w by (intro rebuild_cut) (simp add: within_def)
    then show ?thesis using within_step [OF w] False by (simp add: release_handler_def)
  next
    case True
    show ?thesis
    proof (cases "at = 0")
      case True
      have "(gp_states p)[slot := ACTIVE] = gp_states p"
        using derived_okD(2) [OF ok slot(1)] slot(2) list_update_id [of "gp_states p" slot] by simp
      then have "release_handler at again owner slot ?q = p"
        using True slot by (simp add: release_handler_def)
      then show ?thesis using sh ok by (simp add: within_def pool_inv_def)
    next
      case False
      with True have "at \<in> {1, 2, 3}" by auto
      then have "gp_derived_dirty ?q" by (auto simp: release_steps_def numeral_eq_Suc)
      then have "torn p ?oss ?q" using w by (simp add: torn_def within_def pool_inv_def)
      then show ?thesis using True by (auto simp: release_handler_def intro!: torn_within)
    qed
  qed
qed

lemma release_for_within:
  assumes inv: "pool_inv p" and eq: "release_for intr again owner p = (r, q)"
  shows "pool_inv q" "evolves p q"
    "gp_owners q \<in> {gp_owners p, map (\<lambda>x. if x = Some owner then None else x) (gp_owners p)}"
    "intr = None \<Longrightarrow> r = Returned True \<and> \<not> gp_derived_dirty q
       \<and> gp_owners q = map (\<lambda>x. if x = Some owner then None else x) (gp_owners p)"
proof -
  let ?del = "map (\<lambda>x. if x = Some owner then None else x) (gp_owners p)"
  have len: "length (gp_owners p) = gp_capacity p" and apart: "addresses_apart (gp_owners p)"
    using inv by (auto simp: pool_inv_def pool_shape_def)
  have "pool_inv q \<and> evolves p q \<and> gp_owners q \<in> {gp_owners p, ?del}
    \<and> (intr = None \<longrightarrow> r = Returned True \<and> \<not> gp_derived_dirty q \<and> gp_owners q = ?del)"
    using inv eq
  proof (cases rule: release_for_cases)
    case absent
    have "?del = gp_owners p"
      using absent(5) len by (intro nth_equalityI) auto
    then show ?thesis using absent by (simp add: evolves_core same_core_def)
  next
    case (held b slot push)
    have bs: "slot < gp_capacity b" "gp_owners b ! slot = Some owner"
      using held(3-5) by (simp_all add: same_core_def)
    have del: "(gp_owners b)[slot := None] = ?del"
    proof (rule nth_equalityI)
      show "length ((gp_owners b)[slot := None]) = length ?del" using held(3) by (simp add: same_core_def)
      fix i assume "i < length ((gp_owners b)[slot := None])"
      then have i: "i < length (gp_owners p)" using held(3) by (simp add: same_core_def)
      have "gp_owners p ! i = Some owner \<Longrightarrow> i = slot"
        using apart i held(4,5) len unfolding addresses_apart_def by metis
      then show "(gp_owners b)[slot := None] ! i = ?del ! i"
        using i held(3,5) by (cases "i = slot") (auto simp: same_core_def)
    qed
    have ev: "evolves p b" by (rule evolves_core [OF held(3)])
    have own: "gp_owners b = gp_owners p" using held(3) by (simp add: same_core_def)
    show ?thesis
    proof (cases intr)
      case None
      have "within b {gp_owners b, ?del} q"
        using release_cut [OF held(1,2) bs held(6), of None] held(7) None del
        by (simp add: release_commit_def)
      moreover have "gp_owners q = ?del \<and> \<not> gp_derived_dirty q \<and> r = Returned True"
        using held(6,7) None del
        by (auto elim!: pushableE simp: release_commit_def release_retire_eq release_push_eq)
      ultimately show ?thesis using evolves_trans [OF ev] by (auto simp: within_def)
    next
      case (Some at)
      have "within b {gp_owners b, ?del} q"
        using release_handler_within [OF bs held(1,2,6)] held(7) Some del
        by (simp add: release_commit_def)
      then show ?thesis using evolves_trans [OF ev] own Some by (auto simp: within_def)
    qed
  qed
  then show "pool_inv q" "evolves p q"
    "gp_owners q \<in> {gp_owners p, ?del}"
    "intr = None \<Longrightarrow> r = Returned True \<and> \<not> gp_derived_dirty q \<and> gp_owners q = ?del"
    by blast+
qed

section \<open>Tokens\<close>

lemma init_pool_inv:
  assumes "init_pool n = Inr p"
  shows "pool_inv p" "\<not> gp_derived_dirty p" "gp_owners p = replicate (nat n) None" "gp_capacity p = nat n"
proof -
  have n: "n > 0" using assms by (auto simp: init_pool_def split: if_splits)
  let ?b = "max 1 (bit_length (nat n - 1))"
  have "nat n - 1 < 2 ^ bit_length (nat n - 1)" by (rule less_two_power_bit_length)
  also have "\<dots> \<le> 2 ^ ?b" by (intro power_increasing) auto
  finally have cap: "nat n \<le> 2 ^ ?b" by linarith
  have p: "p = \<lparr>gp_capacity = nat n, gp_slot_bits = ?b, gp_slot_mask = push_bit ?b 1 - 1,
       gp_max_generation = drop_bit ?b MAX_TOKEN, gp_count = nat n, gp_generations = replicate (nat n) 0,
       gp_states = replicate (nat n) FREE, gp_owners = replicate (nat n) None,
       gp_owner_slots = Map.empty, gp_free_ring = [0..<nat n], gp_free_head = 0, gp_free_tail = 0,
       gp_active = 0, gp_retired = 0, gp_corrupted = False, gp_derived_dirty = False\<rparr>"
    using assms n by (simp add: init_pool_def Let_def)
  have seg: "ring_seg [0..<nat n] 0 (nat n) = [0..<nat n]"
    using ring_seg_prefix [of "[0..<nat n]" "[]"] by simp
  have "pool_shape p"
    using n cap by (simp add: p pool_shape_def addresses_apart_def list_all_iff
        push_bit_eq_mult drop_bit_eq_div)
  moreover have "derived_ok p"
    using n seg by (intro derived_okI) (auto simp: p)
  ultimately show "pool_inv p" by (simp add: pool_inv_def)
  show "\<not> gp_derived_dirty p" "gp_owners p = replicate (nat n) None" "gp_capacity p = nat n"
    by (simp_all add: p)
qed

definition token_slot :: "pool \<Rightarrow> nat \<Rightarrow> nat" where
  "token_slot p t = t mod 2 ^ gp_slot_bits p"

definition token_generation :: "pool \<Rightarrow> nat \<Rightarrow> nat" where
  "token_generation p t = t div 2 ^ gp_slot_bits p"

lemma encode_decode:
  assumes "pool_shape p" "slot < gp_capacity p"
  shows "token_slot p (encode p slot g) = slot" "token_generation p (encode p slot g) = g"
  using assms by (simp_all add: pool_shape_def encode_def token_slot_def token_generation_def
      pack_low pack_high)

lemma token_recover: "t = token_generation p t * 2 ^ gp_slot_bits p + token_slot p t"
  unfolding token_slot_def token_generation_def by (rule div_mult_mod_eq [symmetric])

lemma MAX_TOKEN_eq: "MAX_TOKEN = 2 ^ 63 - 1"
  by (simp add: MAX_TOKEN_def push_bit_eq_mult)

lemma encode_bounds:
  assumes "pool_shape p" "slot < gp_capacity p" "0 < g" "g \<le> gp_max_generation p"
  shows "0 < encode p slot g" "encode p slot g \<le> MAX_TOKEN"
proof -
  let ?b = "gp_slot_bits p"
  have s: "slot < 2 ^ ?b" and g: "g \<le> MAX_TOKEN div 2 ^ ?b"
    using assms by (auto simp: pool_shape_def)
  have e: "encode p slot g = g * 2 ^ ?b + slot" using s by (simp add: encode_def pack_eq)
  then show "0 < encode p slot g" using assms(3) by simp
  have b: "?b \<le> 63"
  proof (rule ccontr)
    assume "\<not> ?b \<le> 63"
    then have "(2::nat) ^ 63 \<le> 2 ^ ?b" by (intro power_increasing) auto
    then have "MAX_TOKEN div 2 ^ ?b = 0" by (simp add: MAX_TOKEN_eq)
    with g assms(3) show False by simp
  qed
  have split: "(2::nat) ^ 63 = 2 ^ (63 - ?b) * 2 ^ ?b" using b by (simp flip: power_add)
  have "g * 2 ^ ?b \<le> MAX_TOKEN"
    using g by (metis less_eq_div_iff_mult_less_eq zero_less_numeral zero_less_power)
  then have "g * 2 ^ ?b < 2 ^ (63 - ?b) * 2 ^ ?b" using split by (simp add: MAX_TOKEN_eq)
  then have "g + 1 \<le> 2 ^ (63 - ?b)" by simp
  then have "(g + 1) * 2 ^ ?b \<le> 2 ^ 63" unfolding split by (intro mult_right_mono) auto
  then show "encode p slot g \<le> MAX_TOKEN" using e s by (simp add: MAX_TOKEN_eq)
qed

lemma owner_for_eq:
  assumes "pool_shape p" "0 < t"
  shows "owner_for (int t) p =
    (if token_slot p t < gp_capacity p \<and> gp_generations p ! token_slot p t = token_generation p t
     then gp_owners p ! token_slot p t else None)"
proof -
  have "t AND gp_slot_mask p = token_slot p t"
    using assms(1) mask_and [of t "gp_slot_bits p"] by (simp add: pool_shape_def token_slot_def)
  then show ?thesis
    using assms(2) by (auto simp: owner_for_def token_generation_def drop_bit_eq_div Let_def)
qed

section \<open>Histories\<close>

text \<open>
  A history lists the tokens admission returned, with the owner each was
  returned to.  Owners are live objects: a caller that passes a new object
  while an older one is still rooted passes one with another address
  (\<open>may_coexist\<close>).  With \<open>double\<close> set, a second asynchronous exception may
  also cut the rollback of an interrupted admission short.
\<close>

inductive pool_reach :: "bool \<Rightarrow> int \<Rightarrow> pool \<Rightarrow> (nat \<times> obj) list \<Rightarrow> bool" for double n where
  start: "init_pool n = Inr p \<Longrightarrow> pool_reach double n p []"
| admit: "\<lbrakk>pool_reach double n p h; may_coexist owner (live_owners p);
    again = None \<or> double \<and> recoverable intr again;
    acquire_for intr again (Some owner) p = (r, q)\<rbrakk> \<Longrightarrow>
    pool_reach double n q (case r of Returned (Some t) \<Rightarrow> (t, owner) # h | _ \<Rightarrow> h)"
| retire: "\<lbrakk>pool_reach double n p h; release_for intr again owner p = (r, q)\<rbrakk> \<Longrightarrow>
    pool_reach double n q h"
| lookup: "\<lbrakk>pool_reach double n p h; slot_for_owner p owner = (r, q)\<rbrakk> \<Longrightarrow> pool_reach double n q h"
| snapshot: "pool_reach double n p h \<Longrightarrow> pool_reach double n (ensure_derived p) h"
| torn_rebuild: "pool_reach double n p h \<Longrightarrow>
    pool_reach double n (apply_all (cut k (rebuild_steps p)) p) h"

lemma pool_reach_inv: "pool_reach double n p h \<Longrightarrow> pool_inv p"
proof (induction rule: pool_reach.induct)
  case (start p)
  then show ?case by (rule init_pool_inv(1))
next
  case (admit p h owner again intr r q)
  then show ?case using acquire_for_inv [of p owner intr again r q] by (auto simp: recoverable_def)
next
  case (retire p h intr again owner r q)
  then show ?case using release_for_within(1) by blast
next
  case (lookup p h owner r q)
  then show ?case using slot_for_owner_props(1) by blast
next
  case (snapshot p h)
  then show ?case using ensure_derived_props(1) by blast
next
  case (torn_rebuild p h k)
  then show ?case using rebuild_cut by (simp add: within_def)
qed

lemma acquire_issued:
  assumes "pool_inv p" "may_coexist owner (live_owners p)"
    and "acquire_for intr again (Some owner) p = (Returned (Some t), q)"
  obtains slot where "slot < gp_capacity p" "gp_owners p ! slot = None"
    "gp_generations p ! slot < gp_max_generation p"
    "t = encode p slot (gp_generations p ! slot + 1)"
    "gp_owners q = (gp_owners p)[slot := Some owner]"
    "gp_generations q = (gp_generations p)[slot := gp_generations p ! slot + 1]"
    "\<not> gp_derived_dirty q" "Some owner \<notin> set (gp_owners p)"
  using assms
proof (cases rule: acquire_for_cases)
  case (admitted b slot nh nc)
  have none: "intr = None" using admitted(7) by (cases intr) auto
  then have q: "q = apply_all (acquire_steps owner slot (gp_generations b ! slot + 1) nh nc) b"
    and t: "t = encode b slot (gp_generations b ! slot + 1)"
    using admitted(7,8) by auto
  show ?thesis
    using admitted(3,4) q t
      addr_free_core [OF admitted(3), of owner] admitted(5)
    by (intro that [of slot])
      (auto simp: acquire_steps_eq same_core_def poppable_def encode_def addr_free_def)
qed auto

lemma delete_restores:
  assumes "Some owner \<notin> set os" "os ! slot = None" "slot < length os"
  shows "map (\<lambda>x. if x = Some owner then None else x) os = os"
    "map (\<lambda>x. if x = Some owner then None else x) (os[slot := Some owner]) = os"
proof -
  show "map (\<lambda>x. if x = Some owner then None else x) os = os"
    using assms(1) by (intro map_idI) auto
  then have "map (\<lambda>x. if x = Some owner then None else x) (os[slot := Some owner]) = os[slot := None]"
    by (simp add: map_update)
  then show "map (\<lambda>x. if x = Some owner then None else x) (os[slot := Some owner]) = os"
    using assms(2,3) list_update_id [of os slot] by simp
qed

lemma acquire_interrupted_owners:
  assumes "pool_inv p" "may_coexist owner (live_owners p)"
    and "acquire_for intr None (Some owner) p = (r, q)" "\<And>t. r \<noteq> Returned (Some t)"
  shows "gp_owners q = gp_owners p"
  using assms(1-3)
proof (cases rule: acquire_for_cases)
  case (admitted b slot nh nc)
  then obtain k where k: "intr = Some k" using assms(4) by (cases intr) auto
  let ?c = "apply_all (cut intr (acquire_steps owner slot (gp_generations b ! slot + 1) nh nc)) b"
  have "gp_owners (acquire_rollback None owner slot ?c) = gp_owners b"
    using acquire_cut [OF admitted(1,2,4,5), of intr] admitted(1,4)
    by (intro rollback_within(2)) (auto simp: poppable_def pool_shape_def)
  then show ?thesis using admitted(3,8) k by (simp add: same_core_def)
qed (auto simp: same_core_def)

definition issued_ok :: "pool \<Rightarrow> (nat \<times> obj) list \<Rightarrow> bool" where
  "issued_ok p h \<longleftrightarrow> distinct (map fst h) \<and>
     (\<forall>(t, x) \<in> set h. 0 < t \<and> t \<le> MAX_TOKEN \<and> token_slot p t < gp_capacity p
        \<and> token_generation p t \<le> gp_generations p ! token_slot p t)"

definition owners_ok :: "pool \<Rightarrow> (nat \<times> obj) list \<Rightarrow> bool" where
  "owners_ok p h \<longleftrightarrow>
     (\<forall>(t, x) \<in> set h. gp_generations p ! token_slot p t = token_generation p t \<longrightarrow>
        gp_owners p ! token_slot p t \<in> {None, Some x})"

lemma evolves_token:
  assumes "evolves p q"
  shows "token_slot q t = token_slot p t" "token_generation q t = token_generation p t"
    "encode q = encode p"
  using assms by (simp_all add: evolves_def token_slot_def token_generation_def encode_def fun_eq_iff)

lemma evolves_nth:
  "evolves p q \<Longrightarrow> i < length (gp_generations p) \<Longrightarrow> gp_generations p ! i \<le> gp_generations q ! i"
  by (simp add: evolves_def list_all2_conv_all_nth)

lemma issued_evolves:
  assumes "pool_inv p" "evolves p q" "issued_ok p h"
  shows "issued_ok q h"
proof -
  have "length (gp_generations p) = gp_capacity p"
    using assms(1) by (simp add: pool_inv_def pool_shape_def)
  then show ?thesis
    using assms(2,3) evolves_nth [OF assms(2)]
    by (fastforce simp: issued_ok_def evolves_token [OF assms(2)] evolves_def intro: order_trans)
qed

lemma owners_quiet:
  assumes "pool_inv p" "evolves p q" "issued_ok p h" "owners_ok p h"
    and "\<And>i. i < gp_capacity p \<Longrightarrow> gp_owners q ! i \<in> {None, gp_owners p ! i}"
  shows "owners_ok q h"
proof -
  have len: "length (gp_generations p) = gp_capacity p"
    using assms(1) by (simp add: pool_inv_def pool_shape_def)
  have "gp_owners q ! token_slot q t \<in> {None, Some x}"
    if h: "(t, x) \<in> set h" and eq: "gp_generations q ! token_slot q t = token_generation q t" for t x
  proof -
    let ?s = "token_slot p t"
    have s: "?s < gp_capacity p" "token_generation p t \<le> gp_generations p ! ?s"
      using assms(3) h by (auto simp: issued_ok_def)
    then have "gp_generations p ! ?s = token_generation p t"
      using evolves_nth [OF assms(2), of ?s] eq len by (simp add: evolves_token [OF assms(2)])
    then have "gp_owners p ! ?s \<in> {None, Some x}"
      using assms(4) h by (auto simp: owners_ok_def)
    then show ?thesis
      using assms(5) [OF s(1)] by (auto simp: evolves_token [OF assms(2)])
  qed
  then show ?thesis by (auto simp: owners_ok_def)
qed

lemma acquire_new_token:
  assumes inv: "pool_inv p" and ok: "issued_ok p h"
    and co: "may_coexist owner (live_owners p)"
    and acq: "acquire_for intr again (Some owner) p = (Returned (Some t), q)"
    and ev: "evolves p q"
  shows "issued_ok q ((t, owner) # h)" "owners_ok p h \<Longrightarrow> owners_ok q ((t, owner) # h)"
proof -
  obtain slot where slot: "slot < gp_capacity p" "gp_owners p ! slot = None"
    "gp_generations p ! slot < gp_max_generation p" "t = encode p slot (gp_generations p ! slot + 1)"
    and q: "gp_owners q = (gp_owners p)[slot := Some owner]"
    "gp_generations q = (gp_generations p)[slot := gp_generations p ! slot + 1]"
    using inv co acq by (rule acquire_issued)
  have sh: "pool_shape p" using inv by (simp add: pool_inv_def)
  then have len: "length (gp_generations p) = gp_capacity p" "length (gp_owners p) = gp_capacity p"
    by (simp_all add: pool_shape_def)
  have dec: "token_slot p t = slot" "token_generation p t = gp_generations p ! slot + 1"
    using encode_decode [OF sh slot(1)] slot(4) by simp_all
  have pos: "0 < t" "t \<le> MAX_TOKEN"
    unfolding slot(4) using encode_bounds [OF sh slot(1)] slot(3) by auto
  have older: "token_generation p u \<le> gp_generations p ! slot"
    if "(u, x) \<in> set h" "token_slot p u = slot" for u x
    using ok that by (auto simp: issued_ok_def)
  have "t \<notin> fst ` set h"
    using older dec by fastforce
  moreover have "issued_ok q h" by (rule issued_evolves [OF inv ev ok])
  moreover have "token_slot q t < gp_capacity q"
    "token_generation q t \<le> gp_generations q ! token_slot q t"
    using dec slot(1) q(2) len ev by (simp_all add: evolves_token [OF ev] evolves_def)
  ultimately show "issued_ok q ((t, owner) # h)"
    using pos by (simp add: issued_ok_def)
  assume o: "owners_ok p h"
  have "gp_owners q ! token_slot q u \<in> {None, Some x}"
    if h: "(u, x) \<in> set h" and g: "gp_generations q ! token_slot q u = token_generation q u" for u x
  proof (cases "token_slot p u = slot")
    case True
    then show ?thesis using g older [OF h True] q(2) slot(1) len by (simp add: evolves_token [OF ev])
  next
    case False
    then show ?thesis using o h g q by (auto simp: owners_ok_def evolves_token [OF ev])
  qed
  moreover have "gp_owners q ! token_slot q t = Some owner"
    using dec q slot(1) len by (simp add: evolves_token [OF ev])
  ultimately show "owners_ok q ((t, owner) # h)"
    by (auto simp: owners_ok_def)
qed

lemma pool_reach_issued: "pool_reach double n p h \<Longrightarrow> issued_ok p h"
proof (induction rule: pool_reach.induct)
  case (start p)
  then show ?case by (simp add: issued_ok_def)
next
  case (admit p h owner again intr r q)
  have inv: "pool_inv p" by (rule pool_reach_inv [OF admit(1)])
  have ev: "evolves p q"
    using acquire_for_inv [OF inv admit(2) _ admit(4)] admit(3) by (auto simp: recoverable_def)
  show ?case
    using acquire_new_token(1) [OF inv admit.IH admit(2) _ ev] issued_evolves [OF inv ev admit.IH] admit(4)
    by (auto split: outcome.split option.split)
next
  case (retire p h intr again owner r q)
  then show ?case
    using issued_evolves [OF pool_reach_inv] release_for_within(2) pool_reach_inv by blast
next
  case (lookup p h owner r q)
  then show ?case
    using issued_evolves [OF pool_reach_inv evolves_core] slot_for_owner_props(3) pool_reach_inv by blast
next
  case (snapshot p h)
  then show ?case
    using issued_evolves [OF pool_reach_inv evolves_core] ensure_derived_props(3) pool_reach_inv by blast
next
  case (torn_rebuild p h k)
  then have "evolves p (apply_all (cut k (rebuild_steps p)) p)"
    using rebuild_cut [OF pool_reach_inv] by (simp add: within_def)
  then show ?case using issued_evolves [OF pool_reach_inv] torn_rebuild by blast
qed

lemma quiet_owners:
  assumes "gp_owners q \<in> {gp_owners p, map (\<lambda>x. if x = Some owner then None else x) (gp_owners p)}"
    and "pool_inv p" "i < gp_capacity p"
  shows "gp_owners q ! i \<in> {None, gp_owners p ! i}"
  using assms by (auto simp: pool_inv_def pool_shape_def)

lemma pool_reach_owners: "pool_reach False n p h \<Longrightarrow> owners_ok p h"
proof (induction rule: pool_reach.induct)
  case (start p)
  then show ?case by (simp add: owners_ok_def)
next
  case (admit p h owner again intr r q)
  have inv: "pool_inv p" by (rule pool_reach_inv [OF admit(1)])
  have none: "again = None" using admit(3) by simp
  have ev: "evolves p q"
    using acquire_for_inv [OF inv admit(2) _ admit(4)] none by (auto simp: recoverable_def)
  note iss = pool_reach_issued [OF admit(1)]
  show ?case
  proof (cases "\<exists>t. r = Returned (Some t)")
    case True
    then show ?thesis
      using acquire_new_token(2) [OF inv iss admit(2) _ ev admit.IH] admit(4) by auto
  next
    case False
    then have "gp_owners q = gp_owners p"
      using acquire_interrupted_owners [OF inv admit(2)] admit(4) none by blast
    then have "owners_ok q h" by (intro owners_quiet [OF inv ev iss admit.IH]) simp
    then show ?thesis using False by (auto split: outcome.split option.split)
  qed
next
  case (retire p h intr again owner r q)
  note inv = pool_reach_inv [OF retire(1)]
  note rel = release_for_within [OF inv retire(2)]
  show ?case
    by (rule owners_quiet [OF inv rel(2) pool_reach_issued [OF retire(1)] retire.IH])
      (rule quiet_owners [OF rel(3) inv])
next
  case (lookup p h owner r q)
  note inv = pool_reach_inv [OF lookup(1)]
  have "same_core p q" by (rule slot_for_owner_props(3) [OF inv lookup(2)])
  then show ?case
    using owners_quiet [OF inv evolves_core pool_reach_issued [OF lookup(1)] lookup.IH]
    by (simp add: same_core_def)
next
  case (snapshot p h)
  note inv = pool_reach_inv [OF snapshot(1)]
  have "same_core p (ensure_derived p)" by (rule ensure_derived_props(3) [OF inv])
  then show ?case
    using owners_quiet [OF inv evolves_core pool_reach_issued [OF snapshot(1)] snapshot.IH]
    by (simp add: same_core_def)
next
  case (torn_rebuild p h k)
  note inv = pool_reach_inv [OF torn_rebuild(1)]
  show ?case
    using rebuild_cut [OF inv, of k] owners_quiet [OF inv _ pool_reach_issued [OF torn_rebuild(1)] torn_rebuild.IH]
    by (simp add: within_def)
qed

section \<open>Reusable tokens are found\<close>

definition candidate :: "nat \<Rightarrow> nat \<Rightarrow> nat" where
  "candidate start k = Suc ((start - 1 + k) mod MAX_TOKEN)"

lemma MAX_TOKEN_pos: "0 < MAX_TOKEN"
  by (simp add: MAX_TOKEN_eq)

lemma token_step_Suc: "x < MAX_TOKEN \<Longrightarrow> token_step (Suc x) = Suc (Suc x mod MAX_TOKEN)"
  by (auto simp: token_step_def mod_Suc)

lemma candidate_step: "token_step (candidate start k) = candidate start (Suc k)"
  using token_step_Suc [of "(start - 1 + k) mod MAX_TOKEN"] MAX_TOKEN_pos
  by (simp add: candidate_def mod_Suc_eq)

lemma candidate_0: "0 < start \<Longrightarrow> start \<le> MAX_TOKEN \<Longrightarrow> candidate start 0 = start"
  by (simp add: candidate_def)

lemma candidate_wrap:
  assumes "0 < t" "t \<le> MAX_TOKEN" "start - 1 + k = MAX_TOKEN + (t - 1)"
  shows "candidate start k = t"
  unfolding candidate_def assms(3) using assms(1,2) by (simp only: mod_add_self1) simp

lemma candidate_return:
  assumes "0 < start" "start \<le> MAX_TOKEN" "k \<le> MAX_TOKEN"
  shows "candidate start k = start \<longleftrightarrow> k = 0 \<or> k = MAX_TOKEN"
proof
  assume "candidate start k = start"
  then have eq: "(start - 1 + k) mod MAX_TOKEN = (start - 1 + 0) mod MAX_TOKEN"
    using assms by (simp add: candidate_def)
  show "k = 0 \<or> k = MAX_TOKEN"
    using ring_offset_inj [OF eq] assms(3) MAX_TOKEN_pos by (cases "k = MAX_TOKEN") auto
next
  assume "k = 0 \<or> k = MAX_TOKEN"
  then show "candidate start k = start"
    using assms candidate_0 candidate_wrap [OF assms(1,2), of start k] by auto
qed

lemma candidate_range: "0 < candidate start k" "candidate start k \<le> MAX_TOKEN"
  using MAX_TOKEN_pos by (simp_all add: candidate_def Suc_leI)

lemma candidate_onto:
  assumes "0 < start" "start \<le> MAX_TOKEN" "0 < t" "t \<le> MAX_TOKEN"
  obtains k where "k < MAX_TOKEN" "candidate start k = t"
proof (cases "start \<le> t")
  case True
  then show ?thesis using assms by (intro that [of "t - start"]) (auto simp: candidate_def)
next
  case False
  have "start - 1 + (MAX_TOKEN - start + t) = MAX_TOKEN + (t - 1)"
    using assms False by simp
  then have "candidate start (MAX_TOKEN - start + t) = t"
    by (rule candidate_wrap [OF assms(3,4)])
  then show ?thesis using False assms by (intro that [of "MAX_TOKEN - start + t"]) auto
qed

lemma scan_tokens_returns:
  assumes start: "0 < start" "start \<le> MAX_TOKEN" and k: "k < MAX_TOKEN"
    and before: "\<forall>i<k. candidate start i \<in> occupied"
  shows "\<exists>r. scan_tokens start occupied (candidate start k) = Some r \<and>
    (case r of None \<Rightarrow> \<forall>i<MAX_TOKEN. candidate start i \<in> occupied
     | Some t \<Rightarrow> \<exists>j<MAX_TOKEN. t = candidate start j \<and> t \<notin> occupied
         \<and> (\<forall>i<j. candidate start i \<in> occupied))"
  using k before
proof (induction "MAX_TOKEN - k" arbitrary: k)
  case 0
  then show ?case by simp
next
  case (Suc d)
  show ?case
  proof (cases "candidate start k \<in> occupied")
    case False
    then show ?thesis
      using Suc.prems by (subst scan_tokens.simps) auto
  next
    case True
    then have upto: "\<forall>i<Suc k. candidate start i \<in> occupied" using Suc.prems by (auto simp: less_Suc_eq)
    show ?thesis
    proof (cases "Suc k = MAX_TOKEN")
      case last: True
      then have "candidate start (Suc k) = start" using candidate_return [OF start, of "Suc k"] by simp
      then show ?thesis
        using True upto last by (subst scan_tokens.simps) (simp add: candidate_step Let_def)
    next
      case False
      then have "candidate start (Suc k) \<noteq> start"
        using candidate_return [OF start, of "Suc k"] Suc.prems by simp
      moreover have "d = MAX_TOKEN - Suc k" "Suc k < MAX_TOKEN" using Suc False by simp_all
      ultimately show ?thesis
        using Suc.hyps(1) [OF _ _ upto] True by (subst scan_tokens.simps) (simp add: candidate_step Let_def)
    qed
  qed
qed

lemma token_step_range: "0 < token_step c" "c \<le> MAX_TOKEN \<Longrightarrow> token_step c \<le> MAX_TOKEN"
  using MAX_TOKEN_pos by (auto simp: token_step_def)

lemma next_reusable_token_spec:
  "\<exists>r. next_reusable_token current occupied = Some r \<and>
     (case r of None \<Rightarrow> {1..MAX_TOKEN} \<subseteq> occupied
      | Some t \<Rightarrow> 1 \<le> t \<and> t \<le> MAX_TOKEN \<and> t \<notin> occupied \<and>
          (\<exists>start j. start = token_step (if current < 0 \<or> current > int MAX_TOKEN then 0 else nat current)
             \<and> t = (token_step ^^ j) start \<and> (\<forall>i<j. (token_step ^^ i) start \<in> occupied)))"
proof -
  define c where "c = (if current < 0 \<or> current > int MAX_TOKEN then 0 else nat current)"
  define start where "start = token_step c"
  have c: "c \<le> MAX_TOKEN" by (simp add: c_def nat_le_iff not_less)
  have start: "0 < start" "start \<le> MAX_TOKEN" using c by (simp_all add: start_def token_step_range)
  have it: "(token_step ^^ j) start = candidate start j" for j
    by (induction j) (simp_all add: candidate_0 start candidate_step)
  have nr: "next_reusable_token current occupied = scan_tokens start occupied start"
    by (simp add: next_reusable_token_def Let_def start_def c_def)
  obtain r where r: "scan_tokens start occupied start = Some r"
    and cs: "case r of None \<Rightarrow> \<forall>i<MAX_TOKEN. candidate start i \<in> occupied
     | Some t \<Rightarrow> \<exists>j<MAX_TOKEN. t = candidate start j \<and> t \<notin> occupied
         \<and> (\<forall>i<j. candidate start i \<in> occupied)"
    using scan_tokens_returns [OF start MAX_TOKEN_pos, of occupied] candidate_0 [OF start] by auto
  have "{1..MAX_TOKEN} \<subseteq> occupied" if "r = None"
  proof
    fix t assume "t \<in> {1..MAX_TOKEN}"
    then have "0 < t" "t \<le> MAX_TOKEN" by simp_all
    then obtain k where "k < MAX_TOKEN" "candidate start k = t" by (rule candidate_onto [OF start])
    then show "t \<in> occupied" using cs that by auto
  qed
  moreover have "1 \<le> t \<and> t \<le> MAX_TOKEN \<and> t \<notin> occupied \<and>
      (\<exists>j. t = candidate start j \<and> (\<forall>i<j. candidate start i \<in> occupied))" if "r = Some t" for t
  proof -
    from cs that obtain j where "t = candidate start j" "t \<notin> occupied" "\<forall>i<j. candidate start i \<in> occupied"
      by auto
    then show ?thesis using candidate_range [of start j] by auto
  qed
  ultimately have "case r of None \<Rightarrow> {1..MAX_TOKEN} \<subseteq> occupied
      | Some t \<Rightarrow> 1 \<le> t \<and> t \<le> MAX_TOKEN \<and> t \<notin> occupied \<and>
          (\<exists>start' j. start' = start \<and> t = (token_step ^^ j) start' \<and> (\<forall>i<j. (token_step ^^ i) start' \<in> occupied))"
    by (auto simp: it split: option.split)
  then show ?thesis
    using nr r unfolding start_def c_def by (intro exI [of _ r] conjI) simp_all
qed

section \<open>Token namespaces\<close>

text \<open>
  What the users of a reusable token counter rely on: the search returns, and
  a token it returns is positive, bounded and not in use.
\<close>

locale token_namespace =
  fixes next_token :: "int \<Rightarrow> nat set \<Rightarrow> nat option option" and limit :: nat
  assumes search_returns: "next_token current occupied \<noteq> None"
    and token_fresh: "next_token current occupied = Some (Some t) \<Longrightarrow> t \<notin> occupied"
    and token_bounded: "next_token current occupied = Some (Some t) \<Longrightarrow> 1 \<le> t \<and> t \<le> limit"
    and exhausted: "next_token current occupied = Some None \<Longrightarrow> {1..limit} \<subseteq> occupied"
begin

lemma issues_below_limit:
  assumes "finite occupied" "card occupied < limit"
  shows "\<exists>t. next_token current occupied = Some (Some t) \<and> t \<notin> occupied"
proof -
  obtain r where r: "next_token current occupied = Some r" using search_returns by blast
  have "r \<noteq> None"
  proof
    assume "r = None"
    then have "{1..limit} \<subseteq> occupied" using exhausted r by simp
    then have "card {1..limit} \<le> card occupied" by (rule card_mono [OF assms(1)])
    then show False using assms(2) by simp
  qed
  then show ?thesis using r token_fresh by auto
qed

end

interpretation tn: token_namespace next_reusable_token MAX_TOKEN
proof (standard, goal_cases)
  case (1 current occupied)
  then show ?case using next_reusable_token_spec [of current occupied] by auto
next
  case (2 current occupied t)
  then show ?case using next_reusable_token_spec [of current occupied] by auto
next
  case (3 current occupied t)
  then show ?case using next_reusable_token_spec [of current occupied] by auto
next
  case (4 current occupied)
  then show ?case using next_reusable_token_spec [of current occupied] by auto
qed

section \<open>Counters\<close>

lemma exact_active_card:
  assumes "pool_shape p" "derived_ok p"
  shows "int (exact_active_count p) = gp_active p"
proof -
  have "length (filter (\<lambda>x. x \<noteq> None) (gp_owners p)) =
      card {i. i < length (gp_owners p) \<and> gp_owners p ! i \<noteq> None}"
    by (rule length_filter_conv_card)
  also have "{i. i < length (gp_owners p) \<and> gp_owners p ! i \<noteq> None} =
      {i. i < gp_capacity p \<and> gp_states p ! i = ACTIVE}"
    using derived_okD(2) [OF assms(2)] assms(1) by (auto simp: pool_shape_def)
  finally show ?thesis using derived_okD(7) [OF assms(2)] by (simp add: exact_active_count_def)
qed

lemma slot_classes_sum:
  assumes "derived_ok p"
  shows "gp_active p + int (gp_count p) + gp_retired p = int (gp_capacity p)"
proof -
  let ?S = "\<lambda>c. {i. i < gp_capacity p \<and> gp_states p ! i = c}"
  note D = derived_okD [OF assms]
  have cnt: "gp_count p = card (?S FREE)"
    using distinct_card [OF D(5)] unfolding D(6) length_ring_seg by (rule sym)
  have "gp_states p ! i \<in> {ACTIVE, FREE, RETIRED}" if "i < gp_capacity p" for i
    using D(1) [OF that] by (cases "gp_states p ! i") auto
  then have "{..<gp_capacity p} = ?S ACTIVE \<union> (?S FREE \<union> ?S RETIRED)" by auto
  then have "gp_capacity p = card (?S ACTIVE \<union> (?S FREE \<union> ?S RETIRED))"
    by (metis card_lessThan)
  also have "\<dots> = card (?S ACTIVE) + (card (?S FREE) + card (?S RETIRED))"
    by (subst card_Un_disjoint, auto)+
  finally show ?thesis using cnt D(7,8) by simp
qed

lemma pool_reach_fixed:
  "pool_reach double n p h \<Longrightarrow> gp_capacity p = nat n \<and> \<not> gp_corrupted p"
proof (induction rule: pool_reach.induct)
  case (start p)
  then show ?case by (auto simp: init_pool_def Let_def split: if_splits)
next
  case (admit p h owner again intr r q)
  have "evolves p q"
    using acquire_for_inv [OF pool_reach_inv [OF admit(1)] admit(2) _ admit(4)] admit(3)
    by (auto simp: recoverable_def)
  then show ?case using admit.IH by (simp add: evolves_def)
next
  case (retire p h intr again owner r q)
  then show ?case
    using release_for_within(2) [OF pool_reach_inv] by (metis evolves_def)
next
  case (lookup p h owner r q)
  then show ?case using slot_for_owner_props(3) [OF pool_reach_inv] by (metis same_core_def)
next
  case (snapshot p h)
  then show ?case using ensure_derived_props(3) [OF pool_reach_inv] by (metis same_core_def)
next
  case (torn_rebuild p h k)
  then show ?case using rebuild_cut [OF pool_reach_inv] by (auto simp: within_def evolves_def)
qed

section \<open>Properties\<close>

text \<open>
  A sample run for the witnesses: two slots, one owner admitted.
\<close>

definition sample_owner :: obj where
  "sample_owner = Obj 8 1"

definition sample_pool :: pool where
  "sample_pool = snd (acquire_for None None (Some sample_owner) (projr (init_pool 2)))"

lemma sample_start: "pool_reach double 2 (projr (init_pool 2)) []"
  by (rule pool_reach.start) (simp add: init_pool_def Let_def)

lemma sample_token:
  "acquire_for None None (Some sample_owner) (projr (init_pool 2)) = (Returned (Some 2), sample_pool)"
proof (rule prod_eqI)
  show "fst (acquire_for None None (Some sample_owner) (projr (init_pool 2)))
    = fst (Returned (Some 2) :: nat option outcome, sample_pool)" by code_simp
qed (simp add: sample_pool_def)

lemma sample_live: "live_owners (projr (init_pool 2)) = []"
  by code_simp

lemma sample_reach: "pool_reach double 2 sample_pool [(2, sample_owner)]"
  using pool_reach.admit [OF sample_start _ _ sample_token, of double] sample_live
  by (simp add: may_coexist_def)



text \<open>
  C2: no two admissions of a pool ever return the same token, and every
  returned token is a positive 63-bit integer, whatever owners come and go in
  between and wherever calls are interrupted.
\<close>

theorem tokens_never_repeat:
  assumes "pool_reach True n p h"
  shows "distinct (map fst h) \<and> (\<forall>(t, x) \<in> set h. 0 < t \<and> t \<le> MAX_TOKEN)"
  using pool_reach_issued [OF assms] by (auto simp: issued_ok_def)

theorem tokens_never_repeat_witness:
  "distinct (map fst [(2::nat, sample_owner)]) \<and> (2::nat) \<le> MAX_TOKEN"
  using tokens_never_repeat [OF sample_reach] by simp



text \<open>
  C22: an undisturbed admission can be looked up by owner and by token, and
  after the owner is retired the token resolves to nobody.
\<close>

theorem admission_round_trip:
  assumes "pool_reach double n p h" and "may_coexist owner (live_owners p)"
    and "acquire_for None None (Some owner) p = (Returned (Some t), q)"
    and "release_for None None owner q = (r, q')"
  shows "token_for owner q = (Some t, q) \<and> owner_for (int t) q = Some owner
    \<and> owns_owner owner (Some t) q = (True, q) \<and> r = Returned True
    \<and> gp_owners q' = gp_owners p \<and> owner_for (int t) q' = None"
proof -
  note inv = pool_reach_inv [OF assms(1)]
  have sh: "pool_shape p" using inv by (simp add: pool_inv_def)
  have q: "pool_inv q" "evolves p q"
    using acquire_for_inv [OF inv assms(2) _ assms(3)] by (auto simp: recoverable_def)
  obtain slot where slot: "slot < gp_capacity p" "gp_owners p ! slot = None"
    "gp_generations p ! slot < gp_max_generation p" "t = encode p slot (gp_generations p ! slot + 1)"
    and upd: "gp_owners q = (gp_owners p)[slot := Some owner]"
    "gp_generations q = (gp_generations p)[slot := gp_generations p ! slot + 1]" "\<not> gp_derived_dirty q"
    "Some owner \<notin> set (gp_owners p)"
    using inv assms(2,3) by (rule acquire_issued)
  have shq: "pool_shape q" "derived_ok q" using q(1) upd(3) by (auto simp: pool_inv_def)
  have len: "length (gp_owners p) = gp_capacity p" "length (gp_generations p) = gp_capacity p"
    using sh by (simp_all add: pool_shape_def)
  have cap: "gp_capacity q = gp_capacity p" using q(2) by (simp add: evolves_def)
  have own: "gp_owners q ! slot = Some owner" "gp_generations q ! slot = gp_generations p ! slot + 1"
    using upd slot(1) len by simp_all
  have ver: "verified_slot q owner = Some slot"
    using verified_slot_iff [OF shq] own slot(1) cap by simp
  have look: "slot_for_owner q owner = (Some slot, q)"
    using ver upd(3) by (simp add: slot_for_owner_def ensure_derived_def Let_def)
  have dec: "token_slot q t = slot" "token_generation q t = gp_generations p ! slot + 1" "0 < t"
    using encode_decode [OF sh slot(1)] encode_bounds(1) [OF sh slot(1)] slot(3,4)
    by (simp_all add: evolves_token [OF q(2)])
  have tok: "encode q slot (gp_generations q ! slot) = t"
    using slot(4) own by (simp add: evolves_token [OF q(2)])
  note rel = release_for_within [OF q(1) assms(4)]
  have restored: "map (\<lambda>x. if x = Some owner then None else x) (gp_owners q) = gp_owners p"
    unfolding upd(1) by (rule delete_restores(2) [OF upd(4) slot(2)]) (simp add: len slot(1))
  have r: "r = Returned True" "gp_owners q' = gp_owners p" using rel(4) restored by simp_all
  have ev': "evolves q q'" and shq': "pool_shape q'" using rel(1,2) by (auto simp: pool_inv_def)
  have "owner_for (int t) q' = None"
    using owner_for_eq [OF shq' dec(3)] r(2) slot(2) dec(1) by (simp add: evolves_token [OF ev'])
  then show ?thesis
    using look tok r own dec cap slot(1) owner_for_eq [OF shq(1) dec(3)]
    by (simp add: token_for_def owns_owner_def)
qed

theorem admission_round_trip_witness:
  "owner_for 2 sample_pool = Some sample_owner
   \<and> owner_for 2 (snd (release_for None None sample_owner sample_pool)) = None"
  using admission_round_trip [OF sample_start [of False] _ sample_token prod.collapse [symmetric]]
    sample_live by (simp add: may_coexist_def)

text \<open>
  An admission interrupted twice may leave the pool with mirrors that disagree
  with the owner list and are not marked dirty; the identity index then still
  names the slot, which is what makes the retry below reach the rebuild.
\<close>

lemma rebuild_scan_dirty: "rebuild_scan (p\<lparr>gp_derived_dirty := b\<rparr>) = rebuild_scan p"
  by (simp add: rebuild_scan_eq slot_class_def free_slots_def slot_index_def class_count_def)

lemma release_rebuilds:
  assumes "pool_shape q" "\<not> gp_derived_dirty q" "gp_owner_slots q (address owner) \<noteq> None"
    and "\<And>i. i < gp_capacity q \<Longrightarrow> gp_owners q ! i \<noteq> Some owner"
  shows "release_for None None owner q = (Returned True, rebuild_derived (q\<lparr>gp_derived_dirty := True\<rparr>))"
proof -
  let ?r = "rebuild_derived (q\<lparr>gp_derived_dirty := True\<rparr>)"
  have "verified_slot q owner = None"
    using assms(4) by (auto simp: verified_slot_def split: option.splits)
  moreover have "verified_slot ?r owner = None"
  proof -
    have r: "pool_shape ?r" "derived_ok ?r" using assms(1) by (simp_all add: rebuild_shape rebuild_ok)
    have "gp_owners ?r = gp_owners q" "gp_capacity ?r = gp_capacity q" by (simp_all add: rebuild_derived_eq)
    then have "verified_slot ?r owner \<noteq> Some i" for i
      using verified_slot_iff [OF r, of owner i] assms(4) [of i] by auto
    then show ?thesis by (cases "verified_slot ?r owner") auto
  qed
  ultimately have "slot_for_owner q owner = (None, ?r)"
    using assms(2,3) by (auto simp: slot_for_owner_def ensure_derived_def Let_def)
  then show ?thesis using assms(2) by (simp add: release_for_def ensure_derived_def)
qed

lemma shape_states:
  "pool_shape p \<Longrightarrow> length ss = gp_capacity p \<Longrightarrow> pool_shape (p\<lparr>gp_states := ss\<rparr>)"
  by (auto simp: pool_shape_def)

lemma acquire_double_fault:
  assumes sh: "pool_shape b" and ok: "derived_ok b" and pop: "poppable b slot nh nc"
    and fresh: "addr_free b owner"
    and c: "c = apply_all (cut (Some k) (acquire_steps owner slot (gp_generations b ! slot + 1) nh nc)) b"
    and q: "q = acquire_rollback again owner slot c"
  shows "within b {gp_owners b, (gp_owners b)[slot := Some owner]} q
    \<or> pool_shape q \<and> \<not> gp_derived_dirty q \<and> gp_owner_slots q (address owner) \<noteq> None \<and> gp_owners q = gp_owners b"
proof -
  let ?oss = "{gp_owners b, (gp_owners b)[slot := Some owner]}"
  have w: "within b ?oss c" unfolding c by (rule acquire_cut [OF sh ok pop fresh])
  have slot: "gp_owners b ! slot = None" "slot < length (gp_owners b)"
    using pop sh by (auto simp: poppable_def pool_shape_def)
  show ?thesis
  proof (cases "gp_derived_dirty c \<or> again = None \<or> gp_owners c ! slot \<noteq> Some owner \<or> again = Some 0")
    case True
    then consider "gp_derived_dirty c \<or> again = None" | "q = c"
      using q by (auto simp: acquire_rollback_def)
    then show ?thesis
    proof cases
      case 1
      then show ?thesis using rollback_within(1) [OF slot w] q by simp
    next
      case 2
      then show ?thesis using w by simp
    qed
  next
    case False
    then obtain m where m: "again = Some (Suc m)" by (cases again) (auto simp: gr0_conv_Suc)
    have "k \<noteq> 0" using False c slot(1) by auto
    then have "9 \<le> k" using acquire_cut_dirty [of k owner slot _ nh nc b] False c by force
    then have cc: "c = apply_all (acquire_steps owner slot (gp_generations b ! slot + 1) nh nc) b"
      using c by (simp add: acquire_steps_def commit_free_pop_def)
    let ?u = "[\<lambda>q. q\<lparr>gp_owners := (gp_owners q)[slot := None]\<rparr>,
              \<lambda>q. if gp_generations q ! slot < gp_max_generation q
                   then q\<lparr>gp_states := (gp_states q)[slot := FREE]\<rparr> else q]"
    define v where "v = apply_all ?u c"
    have restore: "(gp_owners c)[slot := None] = gp_owners b"
      using slot list_update_id [of "gp_owners b" slot] by (simp add: cc acquire_steps_eq)
    have length_states: "length (gp_states c) = gp_capacity c"
      using w by (simp add: within_def pool_inv_def pool_shape_def)
    have v: "pool_shape v" "gp_owners v = gp_owners b" "evolves b v"
      "gp_owner_slots v = gp_owner_slots c" "gp_derived_dirty v = gp_derived_dirty c"
      using w restore shape_owner_None [of c slot] length_states
      by (simp_all add: v_def within_def pool_inv_def shape_states)
    have rb: "q = apply_all (cut again (?u @ rebuild_steps v)) c"
      using q False by (simp add: acquire_rollback_def v_def)
    show ?thesis
    proof (cases "m \<le> 1")
      case True
      then have "q = apply_all (take (Suc m) ?u) c" using rb m by (auto simp: le_Suc_eq)
      moreover have "m = 0 \<or> m = 1" using True by auto
      ultimately have "q = c\<lparr>gp_owners := gp_owners b\<rparr> \<or> q = v"
        using restore by (auto simp: v_def)
      moreover have "gp_owner_slots c (address owner) \<noteq> None" "\<not> gp_derived_dirty c" "pool_shape c"
        using w by (auto simp: cc acquire_steps_eq within_def pool_inv_def)
      moreover have "pool_shape (c\<lparr>gp_owners := gp_owners b\<rparr>)"
        using shape_owner_None [of c slot] \<open>pool_shape c\<close> restore by simp
      ultimately show ?thesis using v by auto
    next
      case False
      then obtain j where j: "m = Suc (Suc j)" by (metis One_nat_def Suc_le_mono le_0_eq not0_implies_Suc not_less_eq_eq)
      define d where "d = v\<lparr>gp_derived_dirty := True\<rparr>"
      have d: "pool_inv d" "evolves b d" "gp_owners d = gp_owners b"
        using v unfolding d_def by (simp_all add: pool_inv_def)
      have "q = apply_all (cut (Some (Suc j)) (rebuild_steps v)) v"
        using rb m j by (simp add: v_def)
      also have "\<dots> = apply_all (cut (Some (Suc j)) (rebuild_steps d)) d"
        by (simp add: d_def rebuild_steps_def rebuild_scan_dirty split: prod.split)
      finally have "within d {gp_owners d} q" using rebuild_cut [OF d(1), of "Some (Suc j)"] by simp
      then show ?thesis using d(2,3) by (auto simp: within_def intro: evolves_trans)
    qed
  qed
qed

text \<open>
  C10: whatever asynchronous exception interrupts an admission, and wherever a
  second one interrupts its rollback, retrying the release for the same owner
  returns and gives back exactly the owners from before the admission, with
  consistent mirrors.
\<close>

theorem interrupted_admission_recovers:
  assumes inv: "pool_inv p" and co: "may_coexist owner (live_owners p)"
    and acq: "acquire_for intr again (Some owner) p = (Interrupted, q)"
    and rel: "release_for None None owner q = (r, q')"
  shows "r = Returned True \<and> pool_inv q' \<and> \<not> gp_derived_dirty q' \<and> gp_owners q' = gp_owners p"
  using inv co acq
proof (cases rule: acquire_for_cases)
  case (admitted b slot nh nc)
  then obtain k where k: "intr = Some k" by (cases intr) auto
  let ?c = "apply_all (cut (Some k) (acquire_steps owner slot (gp_generations b ! slot + 1) nh nc)) b"
  have own: "gp_owners b = gp_owners p" using admitted(3) by (simp add: same_core_def)
  have slot: "gp_owners b ! slot = None" "slot < length (gp_owners b)"
    using admitted(1,4) by (auto simp: poppable_def pool_shape_def)
  have no: "Some owner \<notin> set (gp_owners b)" using admitted(5) by (auto simp: addr_free_def)
  have "q = acquire_rollback again owner slot ?c" using admitted(8) k by (simp add: Let_def)
  then consider "within b {gp_owners b, (gp_owners b)[slot := Some owner]} q"
    | "pool_shape q" "\<not> gp_derived_dirty q" "gp_owner_slots q (address owner) \<noteq> None" "gp_owners q = gp_owners b"
    using acquire_double_fault [OF admitted(1,2,4,5) refl] by blast
  then show ?thesis
  proof cases
    case 1
    then have "pool_inv q" by (simp add: within_def)
    note R = release_for_within [OF this rel]
    have "gp_owners q' = gp_owners b"
      using 1 R(4) delete_restores [OF no slot] by (auto simp: within_def)
    then show ?thesis using R own by simp
  next
    case 2
    have "release_for None None owner q = (Returned True, rebuild_derived (q\<lparr>gp_derived_dirty := True\<rparr>))"
    proof (rule release_rebuilds [OF 2(1-3)])
      show "gp_owners q ! i \<noteq> Some owner" if "i < gp_capacity q" for i
      proof
        assume "gp_owners q ! i = Some owner"
        moreover have "i < length (gp_owners q)" using that 2(1) by (simp add: pool_shape_def)
        ultimately have "Some owner \<in> set (gp_owners q)" by (metis nth_mem)
        with no 2(4) show False by simp
      qed
    qed
    then have rq: "r = Returned True" "q' = rebuild_derived (q\<lparr>gp_derived_dirty := True\<rparr>)"
      using rel by simp_all
    moreover have "pool_inv q'" unfolding rq(2) using 2(1) by (simp add: rebuild_inv)
    ultimately show ?thesis using own 2(4) by (simp add: rebuild_derived_eq)
  qed
qed simp_all

theorem interrupted_admission_recovers_witness:
  "\<exists>q r q'. acquire_for (Some 9) (Some 1) (Some sample_owner) (projr (init_pool 2)) = (Interrupted, q)
     \<and> release_for None None sample_owner q = (r, q') \<and> r = Returned True \<and> pool_inv q'
     \<and> gp_owners q' = [None, None]"
proof -
  let ?a = "acquire_for (Some 9) (Some 1) (Some sample_owner) (projr (init_pool 2))"
  let ?r = "release_for None None sample_owner (snd ?a)"
  have a: "?a = (Interrupted, snd ?a)" by (rule prod_eqI) (code_simp, simp)
  have r: "?r = (fst ?r, snd ?r)" by simp
  have co: "may_coexist sample_owner (live_owners (projr (init_pool 2)))"
    using sample_live by (simp add: may_coexist_def)
  have own: "gp_owners (projr (init_pool 2)) = [None, None]" by code_simp
  from interrupted_admission_recovers [OF pool_reach_inv [OF sample_start] co a r] show ?thesis
    using a r own by metis
qed

text \<open>
  A retirement returns true, takes exactly the given owner out, keeps
  every other owner in its slot, and repeating it changes nothing.
\<close>

theorem release_is_exact_and_idempotent:
  assumes "pool_inv p" and "release_for None None owner p = (r, q)"
  shows "r = Returned True \<and> pool_inv q
    \<and> gp_owners q = map (\<lambda>x. if x = Some owner then None else x) (gp_owners p)
    \<and> (\<exists>q'. release_for None None owner q = (Returned True, q') \<and> gp_owners q' = gp_owners q)"
proof -
  note R = release_for_within [OF assms]
  obtain r' q' where rel: "release_for None None owner q = (r', q')" by fastforce
  note R' = release_for_within [OF R(1) rel]
  have "map (\<lambda>x. if x = Some owner then None else x) (gp_owners q) = gp_owners q"
    using R(4) by simp
  then show ?thesis using R R' rel by simp
qed

theorem release_is_exact_and_idempotent_witness:
  "gp_owners (snd (release_for None None sample_owner sample_pool)) = [None, None]"
proof -
  have own: "gp_owners sample_pool = [Some sample_owner, None]" by code_simp
  show ?thesis
    using release_is_exact_and_idempotent [OF pool_reach_inv [OF sample_reach] prod.collapse [symmetric]] own
    by simp
qed

text \<open>
  The search for a reusable token always returns; what it returns is the
  first free token after the current one in cyclic order within 1 .. 2^63 - 1,
  and it gives up only when every token of that range is occupied.
\<close>

theorem next_reusable_token_finds:
  "\<exists>r. next_reusable_token current occupied = Some r \<and>
     (case r of None \<Rightarrow> {1..MAX_TOKEN} \<subseteq> occupied
      | Some t \<Rightarrow> 1 \<le> t \<and> t \<le> MAX_TOKEN \<and> t \<notin> occupied \<and>
          (\<exists>start j. start = token_step (if current < 0 \<or> current > int MAX_TOKEN then 0 else nat current)
             \<and> t = (token_step ^^ j) start \<and> (\<forall>i<j. (token_step ^^ i) start \<in> occupied)))"
  by (rule next_reusable_token_spec)

theorem next_reusable_token_finds_witness:
  "\<exists>r. next_reusable_token 4 {5, 6} = Some r \<and> r \<noteq> None"
proof -
  have "\<not> {1..MAX_TOKEN} \<subseteq> {5, 6}" using MAX_TOKEN_eq by (auto simp: subset_iff)
  then show ?thesis using next_reusable_token_finds [of 4 "{5, 6}"] by (auto split: option.splits)
qed



end
