(* ===== verification/Expiry_Heap.thy ===== *)
theory Expiry_Heap
  imports Prelude
begin

text \<open>
  Model of the indexed binary heap \<^verbatim>\<open>_ExpiryHeap\<close> of
  \<^verbatim>\<open>remote_impl/provider_throttle.py\<close>.  A node is a key with its expiry, the
  position table gives the index of a key.  The heap keeps its nodes in a list;
  \<open>sift_up\<close> and \<open>sift_down\<close> are the loops of the code.  The interface
  \<open>expiry_index\<close> states what the governor relies on (a finite map from keys
  to expiries with access to the earliest one), and the heap interprets it.
\<close>

section \<open>Operations\<close>

record 'e heap =
  eh_nodes :: "(string \<times> 'e) list"
  eh_positions :: "string \<rightharpoonup> nat"
  eh_peak_entries :: nat

definition empty_heap :: "'e heap" where
  "empty_heap = \<lparr>eh_nodes = [], eh_positions = Map.empty, eh_peak_entries = 0\<rparr>"

definition swap_nodes :: "nat \<Rightarrow> nat \<Rightarrow> 'e heap \<Rightarrow> 'e heap" where
  "swap_nodes left right h =
     (let nodes = (eh_nodes h)[left := eh_nodes h ! right, right := eh_nodes h ! left] in
      h\<lparr>eh_nodes := nodes,
        eh_positions := (eh_positions h)(fst (nodes ! left) \<mapsto> left, fst (nodes ! right) \<mapsto> right)\<rparr>)"

definition expiry_at :: "'e heap \<Rightarrow> nat \<Rightarrow> 'e" where
  "expiry_at h i = snd (eh_nodes h ! i)"

fun sift_up :: "nat \<Rightarrow> ('e::linorder) heap \<Rightarrow> 'e heap" where
  "sift_up index h =
     (if index = 0 then h
      else let parent = (index - 1) div 2 in
        if expiry_at h parent \<le> expiry_at h index then h
        else sift_up parent (swap_nodes parent index h))"

declare sift_up.simps [simp del]

lemma length_swap [simp]: "length (eh_nodes (swap_nodes l r h)) = length (eh_nodes h)"
  by (simp add: swap_nodes_def Let_def)

function sift_down :: "nat \<Rightarrow> ('e::linorder) heap \<Rightarrow> 'e heap" where
  "sift_down index h =
     (let left = index * 2 + 1; right = left + 1 in
      if left \<ge> length (eh_nodes h) then h
      else let child = (if right < length (eh_nodes h) \<and> expiry_at h right < expiry_at h left
                        then right else left)
           in if expiry_at h index \<le> expiry_at h child then h
              else sift_down child (swap_nodes index child h))"
  by pat_completeness auto
termination
  by (relation "measure (\<lambda>(index, h). length (eh_nodes h) - index)") (auto simp: Let_def)

declare sift_down.simps [simp del]

definition add_node :: "string \<Rightarrow> 'e \<Rightarrow> ('e::linorder) heap \<Rightarrow> 'e heap" where
  "add_node key expiry h =
     (let index = length (eh_nodes h); nodes = eh_nodes h @ [(key, expiry)] in
      sift_up index
        (h\<lparr>eh_nodes := nodes, eh_positions := (eh_positions h)(key \<mapsto> index),
           eh_peak_entries := max (eh_peak_entries h) (length nodes)\<rparr>))"

definition update_node :: "string \<Rightarrow> 'e \<Rightarrow> ('e::linorder) heap \<Rightarrow> 'e heap" where
  "update_node key expiry h =
     (case eh_positions h key of
        None \<Rightarrow> h
      | Some index \<Rightarrow>
          let old = expiry_at h index; h' = h\<lparr>eh_nodes := (eh_nodes h)[index := (key, expiry)]\<rparr> in
          if expiry < old then sift_up index h'
          else if expiry > old then sift_down index h' else h')"

definition remove_node :: "string \<Rightarrow> ('e::linorder) heap \<Rightarrow> 'e heap" where
  "remove_node key h =
     (case eh_positions h key of
        None \<Rightarrow> h
      | Some index \<Rightarrow>
          let last_node = last (eh_nodes h); nodes = butlast (eh_nodes h);
              positions = (eh_positions h)(key := None) in
          if index = length nodes then h\<lparr>eh_nodes := nodes, eh_positions := positions\<rparr>
          else let h' = sift_up index
                 (h\<lparr>eh_nodes := nodes[index := last_node],
                    eh_positions := positions(fst last_node \<mapsto> index)\<rparr>)
               in sift_down (the (eh_positions h' (fst last_node))) h')"

definition first_expired :: "'e \<Rightarrow> ('e::linorder) heap \<Rightarrow> string option" where
  "first_expired now h =
     (if eh_nodes h = [] \<or> expiry_at h 0 > now then None else Some (fst (eh_nodes h ! 0)))"

section \<open>Invariant\<close>

definition positions_ok :: "'e heap \<Rightarrow> bool" where
  "positions_ok h \<longleftrightarrow>
     (\<forall>k i. eh_positions h k = Some i \<longleftrightarrow> i < length (eh_nodes h) \<and> fst (eh_nodes h ! i) = k)"

definition parent :: "nat \<Rightarrow> nat" where
  "parent j = (j - 1) div 2"

definition ordered_except :: "nat set \<Rightarrow> nat set \<Rightarrow> ('e::linorder) heap \<Rightarrow> bool" where
  "ordered_except js ps h \<longleftrightarrow>
     (\<forall>j. 0 < j \<longrightarrow> j < length (eh_nodes h) \<longrightarrow> j \<notin> js \<longrightarrow> parent j \<notin> ps \<longrightarrow>
        expiry_at h (parent j) \<le> expiry_at h j)"

definition grandparent_ok :: "nat \<Rightarrow> ('e::linorder) heap \<Rightarrow> bool" where
  "grandparent_ok i h \<longleftrightarrow>
     (\<forall>j. 0 < i \<longrightarrow> j < length (eh_nodes h) \<longrightarrow> 0 < j \<longrightarrow> parent j = i \<longrightarrow>
        expiry_at h (parent i) \<le> expiry_at h j)"

definition heap_ok :: "('e::linorder) heap \<Rightarrow> bool" where
  "heap_ok h \<longleftrightarrow> positions_ok h \<and> ordered_except {} {} h \<and> length (eh_nodes h) \<le> eh_peak_entries h"

definition entries :: "'e heap \<Rightarrow> string \<rightharpoonup> 'e" where
  "entries h k = map_option (expiry_at h) (eh_positions h k)"

lemma parent_less: "0 < j \<Longrightarrow> parent j < j"
  by (auto simp: parent_def)

lemma parent_child: "0 < j \<Longrightarrow> parent j = i \<longleftrightarrow> j = 2 * i + 1 \<or> j = 2 * i + 2"
  by (auto simp: parent_def)

lemma positions_okD:
  assumes "positions_ok h"
  shows "eh_positions h k = Some i \<longleftrightarrow> i < length (eh_nodes h) \<and> fst (eh_nodes h ! i) = k"
  using assms by (simp add: positions_ok_def)

lemma positions_inj:
  assumes "positions_ok h" "i < length (eh_nodes h)" "j < length (eh_nodes h)"
    and "fst (eh_nodes h ! i) = fst (eh_nodes h ! j)"
  shows "i = j"
  using assms positions_okD [OF assms(1)] by (metis option.inject)

lemma positions_distinct: "positions_ok h \<Longrightarrow> distinct (map fst (eh_nodes h))"
  by (auto simp: distinct_conv_nth dest: positions_inj)

lemma swap_at:
  assumes "l < length (eh_nodes h)" "r < length (eh_nodes h)"
  shows "eh_nodes (swap_nodes l r h) ! i =
    (if i = l then eh_nodes h ! r else if i = r then eh_nodes h ! l else eh_nodes h ! i)"
  using assms by (auto simp: swap_nodes_def Let_def nth_list_update)

lemma swap_expiry:
  assumes "l < length (eh_nodes h)" "r < length (eh_nodes h)"
  shows "expiry_at (swap_nodes l r h) i =
    (if i = l then expiry_at h r else if i = r then expiry_at h l else expiry_at h i)"
  using assms by (simp add: expiry_at_def swap_at)

lemma swap_positions:
  assumes ok: "positions_ok h" and lr: "l < length (eh_nodes h)" "r < length (eh_nodes h)"
  shows "positions_ok (swap_nodes l r h)"
  unfolding positions_ok_def
proof (intro allI)
  fix k i
  let ?kl = "fst (eh_nodes h ! l)" and ?kr = "fst (eh_nodes h ! r)"
  have pos: "eh_positions (swap_nodes l r h) = (eh_positions h)(?kr \<mapsto> l, ?kl \<mapsto> r)"
    using lr by (auto simp: swap_nodes_def Let_def nth_list_update)
  have old: "eh_positions h k = Some i \<longleftrightarrow> i < length (eh_nodes h) \<and> fst (eh_nodes h ! i) = k"
    by (rule positions_okD [OF ok])
  show "eh_positions (swap_nodes l r h) k = Some i \<longleftrightarrow>
      i < length (eh_nodes (swap_nodes l r h)) \<and> fst (eh_nodes (swap_nodes l r h) ! i) = k"
    unfolding pos length_swap swap_at [OF lr]
    using old lr positions_inj [OF ok lr] positions_inj [OF ok _ lr(1), of i] positions_inj [OF ok _ lr(2), of i]
    by auto
qed

lemma swap_entries:
  assumes ok: "positions_ok h" and lr: "l < length (eh_nodes h)" "r < length (eh_nodes h)"
  shows "entries (swap_nodes l r h) = entries h"
proof
  fix k
  let ?s = "swap_nodes l r h"
  have pos: "eh_positions ?s = (eh_positions h)(fst (eh_nodes h ! r) \<mapsto> l, fst (eh_nodes h ! l) \<mapsto> r)"
    using lr by (auto simp: swap_nodes_def Let_def nth_list_update)
  have "eh_positions h (fst (eh_nodes h ! l)) = Some l" "eh_positions h (fst (eh_nodes h ! r)) = Some r"
    using positions_okD [OF ok] lr by auto
  moreover have "i \<noteq> l \<and> i \<noteq> r" if "eh_positions h k = Some i" "k \<noteq> fst (eh_nodes h ! l)" "k \<noteq> fst (eh_nodes h ! r)" for i
    using that positions_okD [OF ok] by auto
  ultimately show "entries ?s k = entries h k"
    unfolding entries_def pos
    by (cases "eh_positions h k") (auto simp: swap_expiry [OF lr])
qed

lemma swap_peak [simp]: "eh_peak_entries (swap_nodes l r h) = eh_peak_entries h"
  by (simp add: swap_nodes_def Let_def)

section \<open>Sifting\<close>

definition same_content :: "'e heap \<Rightarrow> 'e heap \<Rightarrow> bool" where
  "same_content h h' \<longleftrightarrow> positions_ok h' \<and> entries h' = entries h
     \<and> length (eh_nodes h') = length (eh_nodes h) \<and> eh_peak_entries h' = eh_peak_entries h"

lemma same_content_refl: "positions_ok h \<Longrightarrow> same_content h h"
  by (simp add: same_content_def)

lemma swap_content:
  "positions_ok h \<Longrightarrow> l < length (eh_nodes h) \<Longrightarrow> r < length (eh_nodes h) \<Longrightarrow>
   same_content h (swap_nodes l r h)"
  by (simp add: same_content_def swap_positions swap_entries)

lemma same_content_trans: "same_content a b \<Longrightarrow> same_content b c \<Longrightarrow> same_content a c"
  by (simp add: same_content_def)

lemma sift_up_content:
  "positions_ok h \<Longrightarrow> index < length (eh_nodes h) \<Longrightarrow> same_content h (sift_up index h)"
proof (induction index h rule: sift_up.induct)
  case (1 index h)
  let ?p = "(index - 1) div 2"
  have p: "?p < length (eh_nodes h)" using 1(3) by linarith
  note s = swap_content [OF 1(2) p 1(3)]
  show ?case
  proof (cases "index = 0 \<or> expiry_at h ?p \<le> expiry_at h index")
    case True
    then show ?thesis using 1(2) by (subst sift_up.simps) (auto simp: Let_def intro: same_content_refl)
  next
    case False
    then have "same_content (swap_nodes ?p index h) (sift_up ?p (swap_nodes ?p index h))"
      using 1(1) [OF _ refl] s p by (simp add: same_content_def)
    then show ?thesis
      using s False by (subst sift_up.simps) (auto simp: Let_def intro: same_content_trans)
  qed
qed

lemma sift_down_content:
  "positions_ok h \<Longrightarrow> index < length (eh_nodes h) \<Longrightarrow> same_content h (sift_down index h)"
proof (induction index h rule: sift_down.induct)
  case (1 index h)
  let ?l = "index * 2 + 1" and ?n = "length (eh_nodes h)"
  let ?c = "if ?l + 1 < ?n \<and> expiry_at h (?l + 1) < expiry_at h ?l then ?l + 1 else ?l"
  show ?case
  proof (cases "?n \<le> ?l \<or> expiry_at h index \<le> expiry_at h ?c")
    case True
    then show ?thesis using 1(2) by (subst sift_down.simps) (auto simp: Let_def intro: same_content_refl)
  next
    case False
    then have c: "?c < ?n" by auto
    note s = swap_content [OF 1(2,3) c]
    have "same_content (swap_nodes index ?c h) (sift_down ?c (swap_nodes index ?c h))"
      using 1(1) [OF refl refl _ refl] False s c by (simp add: same_content_def)
    then show ?thesis
      using s False by (subst sift_down.simps) (auto simp: Let_def intro: same_content_trans)
  qed
qed

lemma ordered_exceptD:
  "ordered_except js ps h \<Longrightarrow> 0 < j \<Longrightarrow> j < length (eh_nodes h) \<Longrightarrow> j \<notin> js \<Longrightarrow> parent j \<notin> ps \<Longrightarrow>
   expiry_at h (parent j) \<le> expiry_at h j"
  by (simp add: ordered_except_def)

lemma swap_up_order:
  assumes i: "0 < i" "i < length (eh_nodes h)"
    and ord: "ordered_except {i} {i} h" and gp: "grandparent_ok i h"
    and less: "\<not> expiry_at h (parent i) \<le> expiry_at h i"
  shows "ordered_except {parent i} {} (swap_nodes (parent i) i h)"
    and "grandparent_ok (parent i) (swap_nodes (parent i) i h)"
proof -
  let ?p = "parent i" and ?s = "swap_nodes (parent i) i h"
  have p: "?p < i" "?p < length (eh_nodes h)" using parent_less [OF i(1)] i(2) by simp_all
  note e = swap_expiry [OF p(2) i(2)]
  have kid: "expiry_at h ?p \<le> expiry_at h j" if "0 < j" "j < length (eh_nodes h)" "parent j = ?p" "j \<noteq> i" for j
    using ordered_exceptD [OF ord that(1,2)] that(3,4) p(1) by simp
  have nephew: "expiry_at h ?p \<le> expiry_at h j" if "0 < j" "j < length (eh_nodes h)" "parent j = i" for j
    using gp that i(1) by (simp add: grandparent_ok_def)
  have other: "expiry_at h (parent j) \<le> expiry_at h j" if "0 < j" "j < length (eh_nodes h)" "j \<noteq> i" "parent j \<noteq> i" for j
    using ordered_exceptD [OF ord that(1,2)] that(3,4) by simp
  show "ordered_except {?p} {} ?s"
    unfolding ordered_except_def
  proof (intro allI impI)
    fix j
    assume j: "0 < j" "j < length (eh_nodes ?s)" "j \<notin> {?p}"
    consider "j = i" | "j \<noteq> i" "parent j = ?p" | "j \<noteq> i" "parent j = i" | "j \<noteq> i" "parent j \<noteq> ?p" "parent j \<noteq> i"
      by blast
    then show "expiry_at ?s (parent j) \<le> expiry_at ?s j"
    proof cases
      case 1
      then show ?thesis using less p by (simp add: e)
    next
      case 2
      then show ?thesis using kid [of j] j less by (simp add: e)
    next
      case 3
      then show ?thesis using nephew [of j] j p by (simp add: e)
    next
      case 4
      then show ?thesis using other [of j] j by (simp add: e)
    qed
  qed
  show "grandparent_ok ?p ?s"
    unfolding grandparent_ok_def
  proof (intro allI impI)
    fix j
    assume gj: "0 < ?p" "j < length (eh_nodes ?s)" "0 < j" "parent j = ?p"
    have pp: "parent ?p \<noteq> ?p" "parent ?p \<noteq> i" "j \<noteq> ?p"
      using parent_less [OF gj(1)] p parent_less [OF gj(3)] gj(4) by auto
    have "expiry_at h (parent ?p) \<le> expiry_at h ?p" using other [of ?p] gj(1) p pp(2) by simp
    then show "expiry_at ?s (parent ?p) \<le> expiry_at ?s j"
      using pp kid [of j] gj by (auto simp: e)
  qed
qed

lemma sift_up_order:
  "index < length (eh_nodes h) \<Longrightarrow> ordered_except {index} {} h \<Longrightarrow> grandparent_ok index h \<Longrightarrow>
   ordered_except {} {} (sift_up index h)"
proof (induction index h rule: sift_up.induct)
  case (1 index h)
  have par: "(index - 1) div 2 = parent index" by (simp add: parent_def)
  show ?case
  proof (cases "index = 0 \<or> expiry_at h (parent index) \<le> expiry_at h index")
    case True
    then have "ordered_except {} {} h"
      using 1(3) unfolding ordered_except_def by (metis empty_iff insert_iff less_irrefl)
    then show ?thesis using True par by (subst sift_up.simps) (auto simp: Let_def)
  next
    case False
    then have idx: "0 < index" and n: "\<not> expiry_at h (parent index) \<le> expiry_at h index" by auto
    have "ordered_except {index} {index} h" using 1(3) by (simp add: ordered_except_def)
    note s = swap_up_order [OF idx 1(2) this 1(4) n]
    have "parent index < length (eh_nodes h)" using parent_less [OF idx] 1(2) by simp
    then have "ordered_except {} {} (sift_up (parent index) (swap_nodes (parent index) index h))"
      using 1(1) [OF _ par [symmetric]] idx n s by simp
    then show ?thesis using idx n par by (subst sift_up.simps) (auto simp: Let_def)
  qed
qed

lemma swap_down_order:
  assumes i: "i < length (eh_nodes h)" and c: "0 < c" "c < length (eh_nodes h)" "parent c = i"
    and least: "\<And>j. 0 < j \<Longrightarrow> j < length (eh_nodes h) \<Longrightarrow> parent j = i \<Longrightarrow> expiry_at h c \<le> expiry_at h j"
    and ord: "ordered_except {} {i} h" and gp: "grandparent_ok i h"
    and less: "\<not> expiry_at h i \<le> expiry_at h c"
  shows "ordered_except {} {c} (swap_nodes i c h)" and "grandparent_ok c (swap_nodes i c h)"
proof -
  let ?s = "swap_nodes i c h"
  note e = swap_expiry [OF i c(2)]
  have ic: "i < c" using parent_less [OF c(1)] c(3) by simp
  have other: "expiry_at h (parent j) \<le> expiry_at h j" if "0 < j" "j < length (eh_nodes h)" "parent j \<noteq> i" for j
    using ordered_exceptD [OF ord that(1,2)] that(3) by simp
  show "ordered_except {} {c} ?s"
    unfolding ordered_except_def
  proof (intro allI impI)
    fix j
    assume j: "0 < j" "j < length (eh_nodes ?s)" "parent j \<notin> {c}"
    have pj: "parent j < j" by (rule parent_less [OF j(1)])
    consider "j = c" | "j \<noteq> c" "parent j = i" | "j = i" | "j \<noteq> i" "j \<noteq> c" "parent j \<noteq> i"
      by blast
    then show "expiry_at ?s (parent j) \<le> expiry_at ?s j"
    proof cases
      case 1
      then show ?thesis using less c ic by (simp add: e)
    next
      case 2
      then show ?thesis using least [of j] j pj by (auto simp: e)
    next
      case 3
      then have "expiry_at h (parent i) \<le> expiry_at h c" using gp c j by (simp add: grandparent_ok_def)
      then show ?thesis using 3 ic pj j by (simp add: e)
    next
      case 4
      then show ?thesis using other [of j] j by (simp add: e)
    qed
  qed
  show "grandparent_ok c ?s"
    unfolding grandparent_ok_def
  proof (intro allI impI)
    fix j
    assume j: "j < length (eh_nodes ?s)" "0 < j" "parent j = c"
    then have "expiry_at h c \<le> expiry_at h j" using other [of j] ic by simp
    then show "expiry_at ?s (parent c) \<le> expiry_at ?s j"
      using j c ic parent_less [OF j(2)] by (simp add: e)
  qed
qed

definition least_child :: "nat \<Rightarrow> ('e::linorder) heap \<Rightarrow> nat" where
  "least_child index h =
     (if index * 2 + 1 + 1 < length (eh_nodes h)
         \<and> expiry_at h (index * 2 + 1 + 1) < expiry_at h (index * 2 + 1)
      then index * 2 + 1 + 1 else index * 2 + 1)"

lemma least_child:
  assumes "\<not> length (eh_nodes h) \<le> index * 2 + 1"
  shows "0 < least_child index h" "least_child index h < length (eh_nodes h)"
    "parent (least_child index h) = index"
    "0 < j \<Longrightarrow> j < length (eh_nodes h) \<Longrightarrow> parent j = index \<Longrightarrow>
       expiry_at h (least_child index h) \<le> expiry_at h j"
proof -
  show "0 < least_child index h" "least_child index h < length (eh_nodes h)"
    "parent (least_child index h) = index"
    using assms by (auto simp: least_child_def parent_def)
  assume j: "0 < j" "j < length (eh_nodes h)" "parent j = index"
  then have "j = 2 * index + 1 \<or> j = 2 * index + 2" using parent_child [OF j(1)] by blast
  then consider "j = index * 2 + 1" | "j = index * 2 + 1 + 1" by linarith
  then show "expiry_at h (least_child index h) \<le> expiry_at h j"
  proof cases
    case 1
    show ?thesis unfolding 1 least_child_def by auto
  next
    case 2
    then have "index * 2 + 1 + 1 < length (eh_nodes h)" using j(2) by simp
    then show ?thesis unfolding 2 least_child_def by auto
  qed
qed

lemma sift_down_unfold:
  "sift_down index h =
     (if length (eh_nodes h) \<le> index * 2 + 1 \<or> expiry_at h index \<le> expiry_at h (least_child index h)
      then h else sift_down (least_child index h) (swap_nodes index (least_child index h) h))"
  unfolding least_child_def by (subst sift_down.simps) (simp add: Let_def)

lemma sift_down_order:
  "index < length (eh_nodes h) \<Longrightarrow> ordered_except {} {index} h \<Longrightarrow> grandparent_ok index h \<Longrightarrow>
   ordered_except {} {} (sift_down index h)"
proof (induction index h rule: sift_down.induct)
  case (1 index h)
  let ?n = "length (eh_nodes h)" and ?c = "least_child index h"
  note IH = 1(1) [OF refl refl _ refl, folded least_child_def]
  show ?case
  proof (cases "?n \<le> index * 2 + 1 \<or> expiry_at h index \<le> expiry_at h ?c")
    case True
    have "expiry_at h (parent j) \<le> expiry_at h j" if j: "0 < j" "j < ?n" for j
    proof (cases "parent j = index")
      case p: True
      then have "j = 2 * index + 1 \<or> j = 2 * index + 2" using parent_child [OF j(1)] by blast
      then have n: "\<not> ?n \<le> index * 2 + 1" using j(2) by linarith
      then have "expiry_at h index \<le> expiry_at h ?c" using True by blast
      also have "\<dots> \<le> expiry_at h j" by (rule least_child(4) [OF n j p])
      finally show ?thesis unfolding p .
    next
      case False
      then show ?thesis using ordered_exceptD [OF 1(3) j] by simp
    qed
    then have "ordered_except {} {} h" by (simp add: ordered_except_def)
    then show ?thesis using True by (simp add: sift_down_unfold [of index h])
  next
    case False
    then have n: "\<not> ?n \<le> index * 2 + 1" and less: "\<not> expiry_at h index \<le> expiry_at h ?c" by blast+
    note c = least_child(1-3) [OF n]
    have least: "expiry_at h ?c \<le> expiry_at h j" if "0 < j" "j < ?n" "parent j = index" for j
      by (rule least_child(4) [OF n that])
    have s: "ordered_except {} {?c} (swap_nodes index ?c h)" "grandparent_ok ?c (swap_nodes index ?c h)"
      by (rule swap_down_order [where i = index and c = ?c]; fact 1(2) c least 1(3,4) less)+
    have "ordered_except {} {} (sift_down ?c (swap_nodes index ?c h))"
      by (rule IH [OF n less]) (use s least_child(2) [OF n] in simp_all)
    then show ?thesis using n less by (simp add: sift_down_unfold [of index h])
  qed
qed

section \<open>Every operation keeps the heap\<close>

lemma entries_positions:
  assumes "positions_ok h"
  shows "entries h = map_of (eh_nodes h)"
proof
  fix k
  show "entries h k = map_of (eh_nodes h) k"
  proof (cases "eh_positions h k")
    case None
    then have "k \<notin> fst ` set (eh_nodes h)"
      using positions_okD [OF assms, of k] by (force simp: in_set_conv_nth)
    then have "map_of (eh_nodes h) k = None" by (simp add: map_of_eq_None_iff)
    then show ?thesis using None by (simp add: entries_def)
  next
    case (Some i)
    then have i: "i < length (eh_nodes h)" "fst (eh_nodes h ! i) = k"
      using positions_okD [OF assms] by auto
    then have "(k, expiry_at h i) \<in> set (eh_nodes h)"
      by (metis expiry_at_def nth_mem prod.collapse)
    then have "map_of (eh_nodes h) k = Some (expiry_at h i)"
      using positions_distinct [OF assms] by simp
    then show ?thesis using Some by (simp add: entries_def)
  qed
qed

lemma add_node_ok:
  assumes ok: "heap_ok h" and new: "entries h k = None"
  shows "heap_ok (add_node k e h)" "entries (add_node k e h) = (entries h)(k \<mapsto> e)"
    "eh_peak_entries (add_node k e h) = max (eh_peak_entries h) (Suc (length (eh_nodes h)))"
proof -
  let ?n = "length (eh_nodes h)"
  define g where "g = h\<lparr>eh_nodes := eh_nodes h @ [(k, e)], eh_positions := (eh_positions h)(k \<mapsto> ?n),
           eh_peak_entries := max (eh_peak_entries h) (length (eh_nodes h @ [(k, e)]))\<rparr>"
  have pos: "positions_ok h" and ord: "ordered_except {} {} h" and peak: "?n \<le> eh_peak_entries h"
    using ok by (simp_all add: heap_ok_def)
  have none: "eh_positions h k = None" using new by (simp add: entries_def)
  have at: "expiry_at g i = expiry_at h i" if "i < ?n" for i
    using that by (simp add: g_def expiry_at_def nth_append)
  have fresh: "fst (eh_nodes h ! i) \<noteq> k" if "i < ?n" for i
    using none positions_okD [OF pos, of k i] that by auto
  have gpos: "positions_ok g"
    unfolding positions_ok_def
  proof (intro allI)
    fix x i
    show "eh_positions g x = Some i \<longleftrightarrow> i < length (eh_nodes g) \<and> fst (eh_nodes g ! i) = x"
      using fresh [of i] positions_okD [OF pos, of x i]
      by (cases "i < ?n") (auto simp: g_def nth_append)
  qed
  have gord: "ordered_except {?n} {} g"
    unfolding ordered_except_def
  proof (intro allI impI)
    fix j assume j: "0 < j" "j < length (eh_nodes g)" "j \<notin> {?n}"
    then have "j < ?n" by (simp add: g_def)
    then show "expiry_at g (parent j) \<le> expiry_at g j"
      using ordered_exceptD [OF ord j(1)] at [of j] at [of "parent j"] parent_less [OF j(1)] by simp
  qed
  have ggp: "grandparent_ok ?n g"
    unfolding grandparent_ok_def
  proof (intro allI impI)
    fix j assume j: "j < length (eh_nodes g)" "0 < j" "parent j = ?n"
    then have False using parent_less [OF j(2)] by (simp add: g_def)
    then show "expiry_at g (parent ?n) \<le> expiry_at g j" ..
  qed
  have add: "add_node k e h = sift_up ?n g" by (simp add: add_node_def g_def Let_def)
  have len: "?n < length (eh_nodes g)" by (simp add: g_def)
  note c = sift_up_content [OF gpos len]
  have gent: "entries g = (entries h)(k \<mapsto> e)"
  proof
    fix x
    show "entries g x = ((entries h)(k \<mapsto> e)) x"
    proof (cases "x = k")
      case True
      then show ?thesis by (simp add: entries_def g_def expiry_at_def)
    next
      case False
      then have gx: "eh_positions g x = eh_positions h x" by (simp add: g_def)
      show ?thesis
      proof (cases "eh_positions h x")
        case None
        then show ?thesis using False gx by (simp add: entries_def)
      next
        case (Some i)
        then have "i < ?n" using positions_okD [OF pos] by auto
        then show ?thesis using False gx at [of i] Some by (simp add: entries_def)
      qed
    qed
  qed
  show "heap_ok (add_node k e h)"
    using sift_up_order [OF len gord ggp] c peak unfolding add heap_ok_def same_content_def
    by (simp add: g_def)
  show "entries (add_node k e h) = (entries h)(k \<mapsto> e)"
    using c gent unfolding add same_content_def by simp
  show "eh_peak_entries (add_node k e h) = max (eh_peak_entries h) (Suc ?n)"
    using c unfolding add same_content_def by (simp add: g_def)
qed

lemma set_node:
  assumes ok: "positions_ok h" and i: "i < length (eh_nodes h)" "fst (eh_nodes h ! i) = k"
    and g: "g = h\<lparr>eh_nodes := (eh_nodes h)[i := (k, e)]\<rparr>"
  shows "positions_ok g" "entries g = (entries h)(k \<mapsto> e)"
    "expiry_at g j = (if j = i then e else expiry_at h j)"
proof -
  have f: "fst ((eh_nodes h)[i := (k, e)] ! j) = fst (eh_nodes h ! j)" for j
    using i by (cases "j = i") auto
  show "positions_ok g"
    using positions_okD [OF ok] by (simp add: g positions_ok_def f)
  show ex: "expiry_at g j = (if j = i then e else expiry_at h j)" for j
    using i(1) by (simp add: g expiry_at_def)
  have pos: "eh_positions g = eh_positions h" by (simp add: g)
  show "entries g = (entries h)(k \<mapsto> e)"
  proof
    fix x
    show "entries g x = ((entries h)(k \<mapsto> e)) x"
      using positions_okD [OF ok, of x] positions_okD [OF ok, of k i] i
      by (cases "eh_positions h x") (auto simp: entries_def pos ex)
  qed
qed

lemma update_node_ok:
  assumes ok: "heap_ok h" and old: "entries h k \<noteq> None"
  shows "heap_ok (update_node k e h)" "entries (update_node k e h) = (entries h)(k \<mapsto> e)"
    "eh_peak_entries (update_node k e h) = eh_peak_entries h"
proof -
  have pos: "positions_ok h" and ord: "ordered_except {} {} h"
    and peak: "length (eh_nodes h) \<le> eh_peak_entries h"
    using ok by (simp_all add: heap_ok_def)
  obtain i where i: "eh_positions h k = Some i" using old by (auto simp: entries_def)
  then have il: "i < length (eh_nodes h)" "fst (eh_nodes h ! i) = k"
    using positions_okD [OF pos] by auto
  define g where "g = h\<lparr>eh_nodes := (eh_nodes h)[i := (k, e)]\<rparr>"
  note s = set_node [OF pos il g_def]
  have gi: "i < length (eh_nodes g)" and glen: "length (eh_nodes g) = length (eh_nodes h)"
    and gp: "eh_peak_entries g = eh_peak_entries h" using il by (simp_all add: g_def)
  have o: "expiry_at h (parent j) \<le> expiry_at h j" if "0 < j" "j < length (eh_nodes h)" for j
    using ordered_exceptD [OF ord that] by simp
  have grand: "grandparent_ok i g"
    unfolding grandparent_ok_def
  proof (intro allI impI)
    fix j assume j: "0 < i" "j < length (eh_nodes g)" "0 < j" "parent j = i"
    have "expiry_at h (parent i) \<le> expiry_at h i" "expiry_at h i \<le> expiry_at h j"
      using o [OF j(1) il(1)] o [OF j(3)] j(2,4) glen by auto
    then show "expiry_at g (parent i) \<le> expiry_at g j"
      using parent_less [OF j(1)] parent_less [OF j(3)] j(4) by (simp add: s(3))
  qed
  have up: "ordered_except {i} {} g" if "e \<le> expiry_at h i"
    unfolding ordered_except_def
  proof (intro allI impI)
    fix j assume j: "0 < j" "j < length (eh_nodes g)" "j \<notin> {i}"
    then show "expiry_at g (parent j) \<le> expiry_at g j"
      using o [of j] that glen by (auto simp: s(3))
  qed
  have down: "ordered_except {} {i} g" if "expiry_at h i \<le> e"
    unfolding ordered_except_def
  proof (intro allI impI)
    fix j assume j: "0 < j" "j < length (eh_nodes g)" "parent j \<notin> {i}"
    then show "expiry_at g (parent j) \<le> expiry_at g j"
      using o [of j] that glen by (auto simp: s(3))
  qed
  have upd: "update_node k e h = (if e < expiry_at h i then sift_up i g
      else if e > expiry_at h i then sift_down i g else g)"
    by (simp add: update_node_def i g_def Let_def)
  have same: "ordered_except {} {} g" if "e = expiry_at h i"
    using o that glen by (auto simp: ordered_except_def s(3))
  have "ordered_except {} {} (update_node k e h)"
    using sift_up_order [OF gi up grand] sift_down_order [OF gi down grand] same
    unfolding upd by (auto simp: not_less)
  moreover have "same_content g (update_node k e h)"
    using sift_up_content [OF s(1) gi] sift_down_content [OF s(1) gi] same_content_refl [OF s(1)]
    unfolding upd by auto
  ultimately show "heap_ok (update_node k e h)" "entries (update_node k e h) = (entries h)(k \<mapsto> e)"
    "eh_peak_entries (update_node k e h) = eh_peak_entries h"
    using peak s(2) glen gp by (simp_all add: heap_ok_def same_content_def)
qed

lemma ordered_all: "ordered_except {} {} h \<Longrightarrow> ordered_except js ps h"
  by (simp add: ordered_except_def)

lemma ordered_grandparent:
  assumes "ordered_except {} {} h" "i < length (eh_nodes h)"
  shows "grandparent_ok i h"
  unfolding grandparent_ok_def
proof (intro allI impI)
  fix j assume j: "0 < i" "j < length (eh_nodes h)" "0 < j" "parent j = i"
  have "expiry_at h (parent i) \<le> expiry_at h i" using ordered_exceptD [OF assms(1) j(1) assms(2)] by simp
  also have "\<dots> \<le> expiry_at h j" using ordered_exceptD [OF assms(1) j(3,2)] j(4) by simp
  finally show "expiry_at h (parent i) \<le> expiry_at h j" .
qed

lemma sift_up_hole:
  assumes i: "i < length (eh_nodes g)" and ord: "ordered_except {i} {i} g" and gp: "grandparent_ok i g"
  shows "ordered_except {} {} (sift_up i g) \<or> sift_up i g = g \<and> ordered_except {} {i} g"
proof (cases "i = 0 \<or> expiry_at g (parent i) \<le> expiry_at g i")
  case True
  then have "sift_up i g = g" by (subst sift_up.simps) (auto simp: Let_def parent_def)
  moreover have "ordered_except {} {i} g"
    using ord True unfolding ordered_except_def by (metis empty_iff insert_iff less_irrefl)
  ultimately show ?thesis by simp
next
  case False
  then have i0: "0 < i" and n: "\<not> expiry_at g (parent i) \<le> expiry_at g i" by simp_all
  note s = swap_up_order [OF i0 i ord gp n]
  have "sift_up i g = sift_up (parent i) (swap_nodes (parent i) i g)"
    using i0 n by (subst sift_up.simps) (simp add: Let_def parent_def)
  moreover have "parent i < length (eh_nodes (swap_nodes (parent i) i g))"
    using parent_less [OF i0] i by simp
  ultimately show ?thesis using sift_up_order [OF _ s] by simp
qed

lemma replace_node_positions:
  assumes pos: "positions_ok h" and i: "i < n" "fst (eh_nodes h ! i) = k" and n: "length (eh_nodes h) = Suc n"
    and g: "g = h\<lparr>eh_nodes := (butlast (eh_nodes h))[i := last (eh_nodes h)],
              eh_positions := (eh_positions h)(k := None, fst (last (eh_nodes h)) \<mapsto> i)\<rparr>"
  shows "positions_ok g" "length (eh_nodes g) = n" "entries g = (entries h)(k := None)"
    "j < n \<Longrightarrow> expiry_at g j = (if j = i then expiry_at h n else expiry_at h j)"
proof -
  let ?kl = "fst (eh_nodes h ! n)"
  have last: "last (eh_nodes h) = eh_nodes h ! n"
    using n by (metis diff_Suc_1 last_conv_nth length_0_conv nat.distinct(1))
  have nth: "eh_nodes g ! j = (if j = i then eh_nodes h ! n else eh_nodes h ! j)" if "j < n" for j
    using that n i by (auto simp: g last nth_butlast nth_list_update)
  show len: "length (eh_nodes g) = n" using n by (simp add: g)
  show ex: "expiry_at g j = (if j = i then expiry_at h n else expiry_at h j)" if "j < n" for j
    using nth [OF that] by (simp add: expiry_at_def)
  have inj: "fst (eh_nodes h ! a) = fst (eh_nodes h ! b) \<longleftrightarrow> a = b" if "a \<le> n" "b \<le> n" for a b
    using positions_inj [OF pos, of a b] that n by auto
  have gpos: "eh_positions g x = (if x = ?kl then Some i else if x = k then None else eh_positions h x)" for x
    by (simp add: g last)
  have "eh_positions g x = Some j \<longleftrightarrow> j < n \<and> fst (eh_nodes g ! j) = x" for x j
  proof (cases "j < n")
    case True
    then have "fst (eh_nodes h ! j) = ?kl \<longleftrightarrow> False" "fst (eh_nodes h ! j) = k \<longleftrightarrow> j = i"
      using inj [of j n] inj [of j i] i by auto
    then show ?thesis
      using True positions_okD [OF pos, of x j] n inj [of i n] i by (auto simp: gpos nth)
  next
    case False
    then show ?thesis
      using positions_okD [OF pos, of x j] n i by (auto simp: gpos less_Suc_eq)
  qed
  then show "positions_ok g" by (simp add: positions_ok_def len)
  show "entries g = (entries h)(k := None)"
  proof
    fix x
    consider "x = ?kl" | "x \<noteq> ?kl" "x = k" | "x \<noteq> ?kl" "x \<noteq> k" "eh_positions h x = None"
      | j where "x \<noteq> ?kl" "x \<noteq> k" "eh_positions h x = Some j" by (cases "eh_positions h x") auto
    then show "entries g x = ((entries h)(k := None)) x"
    proof cases
      case 1
      have "eh_positions h ?kl = Some n" using positions_okD [OF pos] n by simp
      moreover have "?kl \<noteq> k" using inj [of n i] i by auto
      ultimately show ?thesis using 1 ex [of i] i by (simp add: entries_def gpos)
    next
      case 2
      then show ?thesis by (simp add: entries_def gpos)
    next
      case 3
      then show ?thesis by (simp add: entries_def gpos)
    next
      case (4 j)
      then have "j < Suc n" "fst (eh_nodes h ! j) = x" using positions_okD [OF pos, of x j] n by auto
      then have "j < n" "j \<noteq> i" using 4 i by (auto simp: less_Suc_eq)
      then show ?thesis using 4 ex [of j] by (simp add: entries_def gpos)
    qed
  qed
qed

lemma remove_last_ok:
  assumes ok: "heap_ok h" and i: "length (eh_nodes h) = Suc n" "fst (eh_nodes h ! n) = k"
    and g: "g = h\<lparr>eh_nodes := butlast (eh_nodes h), eh_positions := (eh_positions h)(k := None)\<rparr>"
  shows "heap_ok g" "entries g = (entries h)(k := None)"
proof -
  have pos: "positions_ok h" and ord: "ordered_except {} {} h" and peak: "Suc n \<le> eh_peak_entries h"
    using ok i by (simp_all add: heap_ok_def)
  have nth: "eh_nodes g ! j = eh_nodes h ! j" if "j < n" for j
    using that i by (simp add: g nth_butlast)
  have len: "length (eh_nodes g) = n" using i by (simp add: g)
  have inj: "fst (eh_nodes h ! j) \<noteq> k" if "j < n" for j
    using positions_inj [OF pos, of j n] that i by auto
  have "eh_positions g x = Some j \<longleftrightarrow> j < n \<and> fst (eh_nodes g ! j) = x" for x j
    using positions_okD [OF pos, of x j] i inj [of j] nth [of j] by (auto simp: g less_Suc_eq)
  then have "positions_ok g" by (simp add: positions_ok_def len)
  moreover have "ordered_except {} {} g"
    unfolding ordered_except_def
  proof (intro allI impI)
    fix j assume j: "0 < j" "j < length (eh_nodes g)"
    then show "expiry_at g (parent j) \<le> expiry_at g j"
      using ordered_exceptD [OF ord j(1)] len i parent_less [OF j(1)] nth [of j] nth [of "parent j"]
      by (simp add: expiry_at_def)
  qed
  ultimately show "heap_ok g" using peak len by (simp add: heap_ok_def g)
  show "entries g = (entries h)(k := None)"
  proof
    fix x
    show "entries g x = ((entries h)(k := None)) x"
    proof (cases "x = k \<or> eh_positions h x = None")
      case True
      then show ?thesis by (auto simp: entries_def g)
    next
      case False
      then obtain j where j: "eh_positions h x = Some j" "x \<noteq> k" by auto
      then have "j < n" using positions_okD [OF pos, of x j] i by (auto simp: less_Suc_eq)
      then show ?thesis using j nth [of j] by (simp add: entries_def expiry_at_def g)
    qed
  qed
qed

lemma remove_node_absent: "entries h k = None \<Longrightarrow> remove_node k h = h"
  by (simp add: entries_def remove_node_def)

lemma remove_node_ok:
  assumes ok: "heap_ok h"
  shows "heap_ok (remove_node k h)" "entries (remove_node k h) = (entries h)(k := None)"
proof -
  have "heap_ok (remove_node k h) \<and> entries (remove_node k h) = (entries h)(k := None)"
  proof (cases "eh_positions h k")
    case None
    then have "entries h k = None" by (simp add: entries_def)
    then show ?thesis using ok by (simp add: remove_node_absent fun_upd_idem)
  next
    case (Some i)
    have pos: "positions_ok h" and ord: "ordered_except {} {} h"
      and peak: "length (eh_nodes h) \<le> eh_peak_entries h"
      using ok by (simp_all add: heap_ok_def)
    have i: "i < length (eh_nodes h)" "fst (eh_nodes h ! i) = k" using positions_okD [OF pos] Some by auto
    then obtain n where n: "length (eh_nodes h) = Suc n" by (cases "length (eh_nodes h)") auto
    show ?thesis
    proof (cases "i = n")
      case True
      then show ?thesis
        using remove_last_ok [OF ok n _ refl] i Some n by (simp add: remove_node_def Let_def)
    next
      case False
      with i n have il: "i < n" by simp
      define g where "g = h\<lparr>eh_nodes := (butlast (eh_nodes h))[i := last (eh_nodes h)],
              eh_positions := (eh_positions h)(k := None, fst (last (eh_nodes h)) \<mapsto> i)\<rparr>"
      note r = replace_node_positions [OF pos il i(2) n g_def]
      have gi: "i < length (eh_nodes g)" using il r(2) by simp
      have o: "expiry_at h (parent j) \<le> expiry_at h j" if "0 < j" "j < n" for j
        using ordered_exceptD [OF ord that(1)] that n by simp
      have hole: "ordered_except {i} {i} g"
        unfolding ordered_except_def
      proof (intro allI impI)
        fix j assume j: "0 < j" "j < length (eh_nodes g)" "j \<notin> {i}" "parent j \<notin> {i}"
        then show "expiry_at g (parent j) \<le> expiry_at g j"
          using o [of j] r(2) r(4) [of j] r(4) [of "parent j"] parent_less [OF j(1)] by simp
      qed
      have grand: "grandparent_ok i g"
        unfolding grandparent_ok_def
      proof (intro allI impI)
        fix j assume j: "0 < i" "j < length (eh_nodes g)" "0 < j" "parent j = i"
        have jn: "j < n" using j(2) r(2) by simp
        have "expiry_at h (parent i) \<le> expiry_at h j"
          using o [OF j(1) il] o [OF j(3) jn] j(4) by simp
        then show "expiry_at g (parent i) \<le> expiry_at g j"
          using r(4) [of j] r(4) [of "parent i"] parent_less [OF j(1)] parent_less [OF j(3)] j(4) jn il by simp
      qed
      let ?u = "sift_up i g" and ?kl = "fst (last (eh_nodes h))"
      note c = sift_up_content [OF r(1) gi]
      have upos: "positions_ok ?u" and ulen: "length (eh_nodes ?u) = n"
        and uent: "entries ?u = (entries h)(k := None)" and upeak: "eh_peak_entries ?u = eh_peak_entries h"
        using c r by (simp_all add: same_content_def g_def)
      have "eh_positions g ?kl = Some i" by (simp add: g_def)
      then have "entries g ?kl \<noteq> None" by (simp add: entries_def)
      then have "entries ?u ?kl \<noteq> None" using c by (simp add: same_content_def)
      then obtain q where q: "eh_positions ?u ?kl = Some q" by (auto simp: entries_def)
      then have ql: "q < length (eh_nodes ?u)" using positions_okD [OF upos] by auto
      have "ordered_except {} {q} ?u \<and> grandparent_ok q ?u"
        using sift_up_hole [OF gi hole grand]
      proof
        assume a: "ordered_except {} {} ?u"
        then show ?thesis using ordered_all ordered_grandparent [OF a ql] by blast
      next
        assume a: "?u = g \<and> ordered_except {} {i} g"
        then have "q = i" using q by (simp add: g_def)
        then show ?thesis using a grand by simp
      qed
      then have "ordered_except {} {} (sift_down q ?u)" using sift_down_order [OF ql] by blast
      moreover have "same_content ?u (sift_down q ?u)" by (rule sift_down_content [OF upos ql])
      moreover have "remove_node k h = sift_down q ?u"
        using Some False n q by (simp add: remove_node_def Let_def g_def)
      ultimately show ?thesis
        using uent ulen upeak peak n by (simp add: heap_ok_def same_content_def)
    qed
  qed
  then show "heap_ok (remove_node k h)" "entries (remove_node k h) = (entries h)(k := None)" by blast+
qed

lemma root_least:
  assumes "ordered_except {} {} h" "i < length (eh_nodes h)"
  shows "expiry_at h 0 \<le> expiry_at h i"
  using assms(2)
proof (induction i rule: less_induct)
  case (less i)
  show ?case
  proof (cases "i = 0")
    case False
    then have "expiry_at h 0 \<le> expiry_at h (parent i)"
      using less parent_less [of i] by simp
    also have "\<dots> \<le> expiry_at h i" using ordered_exceptD [OF assms(1)] False less.prems by simp
    finally show ?thesis .
  qed simp
qed

lemma first_expired_ok:
  assumes ok: "heap_ok h"
  shows "first_expired now h = None \<longleftrightarrow> (\<forall>k e. entries h k = Some e \<longrightarrow> now < e)"
    and "first_expired now h = Some k \<Longrightarrow>
      \<exists>e. entries h k = Some e \<and> e \<le> now \<and> (\<forall>k' e'. entries h k' = Some e' \<longrightarrow> e \<le> e')"
proof -
  have pos: "positions_ok h" and ord: "ordered_except {} {} h" using ok by (simp_all add: heap_ok_def)
  have ent: "entries h x = Some e \<longleftrightarrow> (\<exists>i<length (eh_nodes h). fst (eh_nodes h ! i) = x \<and> expiry_at h i = e)" for x e
    using positions_okD [OF pos, of x] by (auto simp: entries_def)
  have least: "expiry_at h 0 \<le> e" if "entries h x = Some e" for x e
    using that root_least [OF ord] by (auto simp: ent)
  have root: "entries h (fst (eh_nodes h ! 0)) = Some (expiry_at h 0)" if "eh_nodes h \<noteq> []"
    using that by (auto simp: ent)
  have empty: "entries h x = None" if "eh_nodes h = []" for x
    using that ent [of x] by (cases "entries h x") auto
  show "first_expired now h = None \<longleftrightarrow> (\<forall>k e. entries h k = Some e \<longrightarrow> now < e)"
  proof (cases "eh_nodes h = []")
    case True
    then show ?thesis using empty by (simp add: first_expired_def)
  next
    case False
    then show ?thesis
      using root [OF False] least by (auto simp: first_expired_def intro: less_le_trans)
  qed
  assume "first_expired now h = Some k"
  then have "eh_nodes h \<noteq> []" "expiry_at h 0 \<le> now" "k = fst (eh_nodes h ! 0)"
    by (auto simp: first_expired_def split: if_splits)
  then show "\<exists>e. entries h k = Some e \<and> e \<le> now \<and> (\<forall>k' e'. entries h k' = Some e' \<longrightarrow> e \<le> e')"
    using root least by blast
qed

lemma finite_entries: "heap_ok h \<Longrightarrow> finite (dom (entries h))"
  by (simp add: heap_ok_def entries_positions finite_dom_map_of)

lemma empty_heap_ok: "heap_ok empty_heap" "entries empty_heap = Map.empty"
  by (simp_all add: heap_ok_def empty_heap_def positions_ok_def ordered_except_def entries_def fun_eq_iff)

section \<open>The interface the governor relies on\<close>

locale expiry_index =
  fixes valid :: "'h \<Rightarrow> bool"
    and content :: "'h \<Rightarrow> string \<rightharpoonup> ('e::linorder)"
    and insert_entry :: "string \<Rightarrow> 'e \<Rightarrow> 'h \<Rightarrow> 'h"
    and set_entry :: "string \<Rightarrow> 'e \<Rightarrow> 'h \<Rightarrow> 'h"
    and drop_entry :: "string \<Rightarrow> 'h \<Rightarrow> 'h"
    and earliest :: "'e \<Rightarrow> 'h \<Rightarrow> string option"
  assumes insert_valid: "valid h \<Longrightarrow> content h k = None \<Longrightarrow> valid (insert_entry k e h)"
    and insert_content: "valid h \<Longrightarrow> content h k = None \<Longrightarrow> content (insert_entry k e h) = (content h)(k \<mapsto> e)"
    and set_valid: "valid h \<Longrightarrow> content h k \<noteq> None \<Longrightarrow> valid (set_entry k e h)"
    and set_content: "valid h \<Longrightarrow> content h k \<noteq> None \<Longrightarrow> content (set_entry k e h) = (content h)(k \<mapsto> e)"
    and drop_valid: "valid h \<Longrightarrow> valid (drop_entry k h)"
    and drop_content: "valid h \<Longrightarrow> content (drop_entry k h) = (content h)(k := None)"
    and earliest_None: "valid h \<Longrightarrow> earliest now h = None \<longleftrightarrow> (\<forall>k e. content h k = Some e \<longrightarrow> now < e)"
    and earliest_Some: "valid h \<Longrightarrow> earliest now h = Some k \<Longrightarrow>
      \<exists>e. content h k = Some e \<and> e \<le> now \<and> (\<forall>k' e'. content h k' = Some e' \<longrightarrow> e \<le> e')"
    and finite_content: "valid h \<Longrightarrow> finite (dom (content h))"
begin

definition due_keys :: "'e \<Rightarrow> 'h \<Rightarrow> string set" where
  "due_keys now h = {k. \<exists>e. content h k = Some e \<and> e \<le> now}"

lemma finite_due: "valid h \<Longrightarrow> finite (due_keys now h)"
  by (rule finite_subset [OF _ finite_content]) (auto simp: due_keys_def)

lemma earliest_due: "valid h \<Longrightarrow> earliest now h = Some k \<Longrightarrow> k \<in> due_keys now h"
  by (drule (1) earliest_Some) (auto simp: due_keys_def)

lemma none_due: "valid h \<Longrightarrow> earliest now h = None \<longleftrightarrow> due_keys now h = {}"
  by (auto simp: earliest_None due_keys_def not_less [symmetric])

lemma postpone_due:
  "valid h \<Longrightarrow> content h k \<noteq> None \<Longrightarrow> now < e \<Longrightarrow> due_keys now (set_entry k e h) = due_keys now h - {k}"
  by (auto simp: due_keys_def set_content)

end

interpretation eh: expiry_index heap_ok entries add_node update_node remove_node first_expired
proof (standard, goal_cases)
  case 1 then show ?case by (rule add_node_ok(1))
next
  case 2 then show ?case by (rule add_node_ok(2))
next
  case 3 then show ?case by (rule update_node_ok(1))
next
  case 4 then show ?case by (rule update_node_ok(2))
next
  case 5 then show ?case by (rule remove_node_ok(1))
next
  case 6 then show ?case by (rule remove_node_ok(2))
next
  case 7 then show ?case by (rule first_expired_ok(1))
next
  case 8 then show ?case by (rule first_expired_ok(2))
next
  case 9 then show ?case by (rule finite_entries)
qed

section \<open>Refinement of a map\<close>

datatype 'e heap_op = Add string 'e | Update string 'e | Remove string

primrec run_heap :: "('e::linorder) heap_op \<Rightarrow> 'e heap \<Rightarrow> 'e heap" where
  "run_heap (Add k e) h = add_node k e h"
| "run_heap (Update k e) h = update_node k e h"
| "run_heap (Remove k) h = remove_node k h"

primrec run_map :: "'e heap_op \<Rightarrow> (string \<rightharpoonup> 'e) \<Rightarrow> string \<rightharpoonup> 'e" where
  "run_map (Add k e) m = m(k \<mapsto> e)"
| "run_map (Update k e) m = (if m k = None then m else m(k \<mapsto> e))"
| "run_map (Remove k) m = m(k := None)"

primrec fresh_adds :: "'e heap_op list \<Rightarrow> (string \<rightharpoonup> 'e) \<Rightarrow> bool" where
  "fresh_adds [] m \<longleftrightarrow> True"
| "fresh_adds (x # xs) m \<longleftrightarrow>
     (case x of Add k e \<Rightarrow> m k = None | _ \<Rightarrow> True) \<and> fresh_adds xs (run_map x m)"

lemma update_node_absent: "entries h k = None \<Longrightarrow> update_node k e h = h"
  by (simp add: entries_def update_node_def)

lemma run_heap_step:
  assumes "heap_ok h" "case x of Add k e \<Rightarrow> entries h k = None | _ \<Rightarrow> True"
  shows "heap_ok (run_heap x h)" "entries (run_heap x h) = run_map x (entries h)"
proof -
  have "heap_ok (run_heap x h) \<and> entries (run_heap x h) = run_map x (entries h)"
  proof (cases x)
    case (Add k e)
    then show ?thesis using assms by (simp add: eh.insert_valid eh.insert_content)
  next
    case (Update k e)
    then show ?thesis
      using assms by (cases "entries h k") (simp_all add: update_node_absent eh.set_valid eh.set_content)
  next
    case (Remove k)
    then show ?thesis using assms by (simp add: eh.drop_valid eh.drop_content)
  qed
  then show "heap_ok (run_heap x h)" "entries (run_heap x h) = run_map x (entries h)" by blast+
qed

lemma run_heap_refines:
  "heap_ok h \<Longrightarrow> fresh_adds ops (entries h) \<Longrightarrow>
   heap_ok (fold run_heap ops h) \<and> entries (fold run_heap ops h) = fold run_map ops (entries h)"
proof (induction ops arbitrary: h)
  case (Cons x xs)
  then show ?case using run_heap_step [of h x] by simp
qed simp



text \<open>
  The recorded peak is an upper bound of the number of entries the heap
  holds, and there is exactly one node per key, so that no stale entry exists.
\<close>

theorem heap_holds_one_node_per_key:
  assumes "fresh_adds ops (Map.empty :: string \<rightharpoonup> 'e::linorder)"
    and "h = fold run_heap ops empty_heap"
  shows "distinct (map fst (eh_nodes h)) \<and> set (map fst (eh_nodes h)) = dom (entries h)
    \<and> length (eh_nodes h) \<le> eh_peak_entries h"
proof -
  have h: "heap_ok h"
    using run_heap_refines [of empty_heap ops] assms by (simp_all add: empty_heap_ok)
  then have pos: "positions_ok h" and peak: "length (eh_nodes h) \<le> eh_peak_entries h"
    by (simp_all add: heap_ok_def)
  show ?thesis
    using positions_distinct [OF pos] entries_positions [OF pos] peak by (simp add: dom_map_of_conv_image_fst)
qed

theorem heap_holds_one_node_per_key_witness:
  "distinct (map fst (eh_nodes (fold run_heap [Add ''a'' 7, Update ''a'' 1] (empty_heap :: int heap))))"
proof -
  have "fresh_adds [Add ''a'' 7, Update ''a'' 1] (Map.empty :: string \<rightharpoonup> int)" by simp
  from heap_holds_one_node_per_key [OF this refl] show ?thesis by simp
qed

end
