(* ===== verification/Provider_Throttle.thy ===== *)
theory Provider_Throttle
  imports Complex_Main "HOL-Library.AList" Expiry_Heap Generation_Pool
begin

text \<open>
  Model of \<^verbatim>\<open>remote_impl/provider_throttle.py\<close>: the process-wide governor that
  gives every provider endpoint an adaptive concurrency window (additive
  increase, multiplicative decrease), opens a circuit after repeated failures,
  and keeps a bounded registry of endpoints with least-recently-used eviction.
  Instants are exact rationals.  What the calls into the control-plane budget
  and the finalizer escrow return is an argument (\<open>acquire_env\<close>), so that
  their failures are branches of the model.  A release runs under three
  separate lock acquisitions in the code; they are three operations here, and
  the invariants hold for every interleaving of them.
\<close>

section \<open>Expiries\<close>

datatype expiry = Due rat | Never

instantiation expiry :: linorder
begin

definition less_eq_expiry :: "expiry \<Rightarrow> expiry \<Rightarrow> bool" where
  "x \<le> y \<longleftrightarrow> (case (x, y) of (Due a, Due b) \<Rightarrow> a \<le> b | (Never, Due b) \<Rightarrow> False | (_, Never) \<Rightarrow> True)"

definition less_expiry :: "expiry \<Rightarrow> expiry \<Rightarrow> bool" where
  "x < y \<longleftrightarrow> (x :: expiry) \<le> y \<and> \<not> y \<le> x"

instance
  by standard (auto simp: less_eq_expiry_def less_expiry_def split: expiry.splits)

end

lemma expiry_order [simp]:
  "Due a \<le> Due b \<longleftrightarrow> a \<le> b" "Due a < Due b \<longleftrightarrow> a < b" "Due a < Never" "\<not> Never < x" "x \<le> Never"
  "\<not> Never \<le> Due a"
  by (auto simp: less_eq_expiry_def less_expiry_def split: expiry.splits)

section \<open>State\<close>

definition MAX_WINDOW :: int where "MAX_WINDOW = 64"
definition CIRCUIT_THRESHOLD :: int where "CIRCUIT_THRESHOLD = 5"

definition default_window :: "int option \<Rightarrow> int" where
  "default_window cpu_count =
     max 2 (min 64 ((case cpu_count of None \<Rightarrow> 1 | Some n \<Rightarrow> if n = 0 then 1 else n) * 2))"

record pstate =
  ps_window :: int
  ps_in_flight :: int
  ps_peak_in_flight :: int
  ps_consecutive_failures :: int
  ps_throttled_responses :: int
  ps_circuit_open_until :: rat
  ps_successes :: int
  ps_additive_successes :: int
  ps_control_ticket :: nat

definition new_pstate :: "int \<Rightarrow> nat \<Rightarrow> pstate" where
  "new_pstate window ticket =
     \<lparr>ps_window = window, ps_in_flight = 0, ps_peak_in_flight = 0, ps_consecutive_failures = 0,
      ps_throttled_responses = 0, ps_circuit_open_until = 0, ps_successes = 0,
      ps_additive_successes = 0, ps_control_ticket = ticket\<rparr>"

record lease_entry =
  le_owner_id :: nat
  le_capability :: nat
  le_key :: string
  le_control_ticket :: "nat option"
  le_resource_released :: bool

record governor =
  pg_states :: "(string \<times> pstate) list"
  pg_inactive_keys :: "string list"
  pg_expiry_heap :: "expiry heap"
  pg_max_tracked_keys :: nat
  pg_default_window :: int
  pg_evictions :: nat
  pg_saturation_rejections :: nat
  pg_construction_rollbacks :: nat
  pg_over_release_count :: nat
  pg_lease_sequence :: nat
  pg_active_leases :: "(nat \<times> lease_entry) list"
  pg_unknown_lease_releases :: nat
  pg_post_commit_failures :: nat

definition init_governor :: "int \<Rightarrow> int option \<Rightarrow> governor result" where
  "init_governor max_tracked_keys cpu_count =
     (if max_tracked_keys \<le> 0 then Inl (ValueError ''provider max_tracked_keys must be > 0'')
      else Inr \<lparr>pg_states = [], pg_inactive_keys = [], pg_expiry_heap = empty_heap,
        pg_max_tracked_keys = nat max_tracked_keys, pg_default_window = default_window cpu_count,
        pg_evictions = 0, pg_saturation_rejections = 0, pg_construction_rollbacks = 0,
        pg_over_release_count = 0, pg_lease_sequence = 0, pg_active_leases = [],
        pg_unknown_lease_releases = 0, pg_post_commit_failures = 0\<rparr>)"

text \<open>Insertion-ordered dictionaries: \<open>AList.update\<close> keeps the place of a present key.\<close>

definition move_to_end :: "'k \<Rightarrow> ('k \<times> 'v) list \<Rightarrow> ('k \<times> 'v) list" where
  "move_to_end k xs = (case map_of xs k of None \<Rightarrow> xs | Some v \<Rightarrow> AList.delete k xs @ [(k, v)])"

definition touch :: "'k \<Rightarrow> 'k list \<Rightarrow> 'k list" where
  "touch k ks = filter (\<lambda>x. x \<noteq> k) ks @ [k]"

definition drop_key :: "'k \<Rightarrow> 'k list \<Rightarrow> 'k list" where
  "drop_key k ks = filter (\<lambda>x. x \<noteq> k) ks"

definition note_post_commit_failure :: "governor \<Rightarrow> governor" where
  "note_post_commit_failure g =
     (if pg_post_commit_failures g < 2 ^ 31 - 1
      then g\<lparr>pg_post_commit_failures := pg_post_commit_failures g + 1\<rparr> else g)"

section \<open>Admission\<close>

partial_function (option) promote_expired :: "rat \<Rightarrow> governor \<Rightarrow> governor option" where
  "promote_expired now g =
     (case first_expired (Due now) (pg_expiry_heap g) of
        None \<Rightarrow> Some g
      | Some key \<Rightarrow>
          let g1 = g\<lparr>pg_expiry_heap := update_node key Never (pg_expiry_heap g)\<rparr> in
          case map_of (pg_states g) key of
            None \<Rightarrow> promote_expired now g1
          | Some state \<Rightarrow>
              if ps_in_flight state \<noteq> 0 \<or> ps_circuit_open_until state > now
              then promote_expired now
                (if ps_circuit_open_until state > now
                 then g1\<lparr>pg_expiry_heap :=
                   update_node key (Due (ps_circuit_open_until state)) (pg_expiry_heap g1)\<rparr>
                 else g1)
              else promote_expired now (g1\<lparr>pg_inactive_keys := touch key (pg_inactive_keys g1)\<rparr>))"

declare promote_expired.simps [code]

datatype eviction = Evicted | Unretired | Exhausted

fun evict_idle :: "(nat \<Rightarrow> bool) \<Rightarrow> rat \<Rightarrow> string list \<Rightarrow> governor \<Rightarrow> eviction \<times> governor" where
  "evict_idle retire now [] g =
     (Exhausted, g\<lparr>pg_inactive_keys := [], pg_saturation_rejections := pg_saturation_rejections g + 1\<rparr>)"
| "evict_idle retire now (key # keys) g =
     (case map_of (pg_states g) key of
        None \<Rightarrow> evict_idle retire now keys g
      | Some state \<Rightarrow>
          if ps_in_flight state = 0 \<and> ps_circuit_open_until state \<le> now
          then if retire (ps_control_ticket state)
               then (Evicted, g\<lparr>pg_inactive_keys := keys,
                       pg_expiry_heap := remove_node key (pg_expiry_heap g),
                       pg_states := AList.delete key (pg_states g),
                       pg_evictions := pg_evictions g + 1\<rparr>)
               else (Unretired, (note_post_commit_failure g)\<lparr>pg_inactive_keys := keys @ [key],
                       pg_saturation_rejections := pg_saturation_rejections g + 1\<rparr>)
          else evict_idle retire now keys g)"

record acquire_env =
  ae_now :: rat
  ae_retire :: "nat \<Rightarrow> bool"
  ae_reserve_state :: "nat result"
  ae_reserve_lease :: "nat result"
  ae_construct :: "nat result"
  ae_capability :: nat
  ae_activate :: "pyerr option"

definition insert_state :: "nat \<Rightarrow> string \<Rightarrow> governor \<Rightarrow> governor" where
  "insert_state ticket key g =
     g\<lparr>pg_expiry_heap := add_node key Never (pg_expiry_heap g),
       pg_states := AList.update key (new_pstate (pg_default_window g) ticket) (pg_states g)\<rparr>"

definition state_for_acquire ::
  "acquire_env \<Rightarrow> string \<Rightarrow> governor \<Rightarrow> (pstate option result \<times> governor) option" where
  "state_for_acquire env key g0 =
     (case promote_expired (ae_now env) g0 of
        None \<Rightarrow> None
      | Some g \<Rightarrow> Some
         (case map_of (pg_states g) key of
            Some state \<Rightarrow>
              (Inr (Some state), g\<lparr>pg_states := move_to_end key (pg_states g),
                 pg_inactive_keys := drop_key key (pg_inactive_keys g)\<rparr>)
          | None \<Rightarrow>
              let (ev, g1) = (if length (pg_states g) \<ge> pg_max_tracked_keys g
                              then evict_idle (ae_retire env) (ae_now env) (pg_inactive_keys g) g
                              else (Evicted, g))
              in if ev \<noteq> Evicted then (Inr None, g1)
                 else case ae_reserve_state env of
                        Inl err \<Rightarrow> (Inl err, g1)
                      | Inr ticket \<Rightarrow>
                          (Inr (Some (new_pstate (pg_default_window g1) ticket)),
                           insert_state ticket key g1)))"

datatype admission = Admitted nat lease_entry | Refused rat

definition commit_admission :: "string \<Rightarrow> nat \<Rightarrow> lease_entry \<Rightarrow> pstate \<Rightarrow> governor \<Rightarrow> governor" where
  "commit_admission key lease_id entry state g =
     g\<lparr>pg_active_leases := AList.update lease_id entry (pg_active_leases g),
       pg_lease_sequence := lease_id,
       pg_states := AList.update key
         (state\<lparr>ps_in_flight := ps_in_flight state + 1,
                ps_peak_in_flight := max (ps_peak_in_flight state) (ps_in_flight state + 1)\<rparr>)
         (pg_states g)\<rparr>"

definition admit_lease ::
  "acquire_env \<Rightarrow> string \<Rightarrow> pstate \<Rightarrow> nat \<Rightarrow> governor \<Rightarrow> admission result \<times> governor" where
  "admit_lease env key state lease_id g =
     (case ae_reserve_lease env of
        Inl err \<Rightarrow> (Inl err, g)
      | Inr ticket \<Rightarrow>
          (case ae_construct env of
             Inl err \<Rightarrow> (Inl err, g\<lparr>pg_construction_rollbacks := pg_construction_rollbacks g + 1\<rparr>)
           | Inr owner \<Rightarrow>
               let entry = \<lparr>le_owner_id = owner, le_capability = ae_capability env, le_key = key,
                            le_control_ticket = Some ticket, le_resource_released = False\<rparr> in
               (case ae_activate env of
                  Some err \<Rightarrow> (Inl err, g\<lparr>pg_construction_rollbacks := pg_construction_rollbacks g + 1\<rparr>)
                | None \<Rightarrow> (Inr (Admitted lease_id entry), commit_admission key lease_id entry state g))))"

definition try_acquire ::
  "acquire_env \<Rightarrow> string \<Rightarrow> governor \<Rightarrow> (admission result \<times> governor) option" where
  "try_acquire env key g0 =
     (case state_for_acquire env key g0 of
        None \<Rightarrow> None
      | Some (Inl err, g) \<Rightarrow> Some (Inl err, g)
      | Some (Inr None, g) \<Rightarrow> Some (Inr (Refused (1 / 20)), g)
      | Some (Inr (Some state), g) \<Rightarrow>
          if ps_circuit_open_until state > ae_now env
          then Some (Inr (Refused (min 1 (ps_circuit_open_until state - ae_now env))), g)
          else if ps_in_flight state \<ge> ps_window state then Some (Inr (Refused (1 / 20)), g)
          else case next_reusable_token (int (pg_lease_sequence g)) (set (map fst (pg_active_leases g))) of
                 None \<Rightarrow> None
               | Some None \<Rightarrow>
                   Some (Inr (Refused (1 / 20)),
                         g\<lparr>pg_saturation_rejections := pg_saturation_rejections g + 1\<rparr>)
               | Some (Some lease_id) \<Rightarrow> Some (admit_lease env key state lease_id g))"

section \<open>Outcomes\<close>

definition on_success :: "pstate \<Rightarrow> pstate" where
  "on_success s =
     (let additive = ps_additive_successes s + 1; full = additive \<ge> max 4 (ps_window s) in
      s\<lparr>ps_successes := ps_successes s + 1, ps_consecutive_failures := 0,
        ps_additive_successes := (if full then 0 else additive),
        ps_window := (if full then min MAX_WINDOW (ps_window s + 1) else ps_window s),
        ps_circuit_open_until := 0\<rparr>)"

definition on_failure :: "rat \<Rightarrow> bool \<Rightarrow> rat option \<Rightarrow> pstate \<Rightarrow> pstate" where
  "on_failure now throttled retry_after s =
     (let consecutive = ps_consecutive_failures s + 1;
          open1 = (case retry_after of
                     Some r \<Rightarrow> if throttled
                       then max (ps_circuit_open_until s) (now + min 300 (max 0 r))
                       else ps_circuit_open_until s
                   | None \<Rightarrow> ps_circuit_open_until s);
          open2 = (if consecutive \<ge> CIRCUIT_THRESHOLD
                   then max open1 (now + min 30 (2 ^ nat (min 5 (consecutive - CIRCUIT_THRESHOLD))))
                   else open1)
      in s\<lparr>ps_additive_successes := 0, ps_consecutive_failures := consecutive,
           ps_throttled_responses := (if throttled then ps_throttled_responses s + 1
                                      else ps_throttled_responses s),
           ps_window := (if throttled then max 1 (ps_window s div 2) else ps_window s),
           ps_circuit_open_until := open2\<rparr>)"

definition next_pstate :: "rat \<Rightarrow> string \<Rightarrow> bool \<Rightarrow> rat option \<Rightarrow> pstate \<Rightarrow> pstate" where
  "next_pstate now outcome throttled retry_after s =
     (let s1 = (if outcome = ''success'' then on_success s
                else if outcome = ''failure'' then on_failure now throttled retry_after s else s)
      in s1\<lparr>ps_in_flight := ps_in_flight s - 1\<rparr>)"

definition commit_outcome :: "rat \<Rightarrow> string \<Rightarrow> pstate \<Rightarrow> governor \<Rightarrow> governor" where
  "commit_outcome now key s g =
     (let opened = ps_circuit_open_until s > now in
      g\<lparr>pg_states := move_to_end key (AList.update key s (pg_states g)),
        pg_expiry_heap := update_node key (if opened then Due (ps_circuit_open_until s) else Never)
                            (pg_expiry_heap g),
        pg_inactive_keys := (if opened then drop_key key (pg_inactive_keys g)
                             else if ps_in_flight s = 0 then touch key (pg_inactive_keys g)
                             else pg_inactive_keys g)\<rparr>)"

definition release_locked ::
  "rat \<Rightarrow> string \<Rightarrow> string \<Rightarrow> bool \<Rightarrow> rat option \<Rightarrow> governor \<Rightarrow> unit result \<times> governor" where
  "release_locked now key outcome throttled retry_after g =
     (if outcome \<notin> {''success'', ''failure'', ''neutral''}
      then (Inl (ValueError (''unknown provider throttle outcome: '' @ outcome)), g)
      else case map_of (pg_states g) key of
             None \<Rightarrow> (Inr (), g)
           | Some s \<Rightarrow>
               if ps_in_flight s \<le> 0
               then (Inr (), g\<lparr>pg_over_release_count := pg_over_release_count g + 1\<rparr>)
               else (Inr (), commit_outcome now key (next_pstate now outcome throttled retry_after s) g))"

section \<open>Releasing a lease\<close>

definition authoritative :: "nat \<Rightarrow> (lease_entry \<Rightarrow> bool) \<Rightarrow> governor \<Rightarrow> lease_entry option" where
  "authoritative lease_id owns g =
     (case map_of (pg_active_leases g) lease_id of
        None \<Rightarrow> None
      | Some entry \<Rightarrow> if owns entry then Some entry else None)"

definition account_release ::
  "rat \<Rightarrow> nat \<Rightarrow> (lease_entry \<Rightarrow> bool) \<Rightarrow> string \<Rightarrow> bool \<Rightarrow> rat option \<Rightarrow> governor
   \<Rightarrow> nat option result \<times> governor" where
  "account_release now lease_id owns outcome throttled retry_after g =
     (case authoritative lease_id owns g of
        None \<Rightarrow> (Inl (RuntimeError ''provider request lease is not authoritative''),
                 g\<lparr>pg_unknown_lease_releases := pg_unknown_lease_releases g + 1\<rparr>)
      | Some entry \<Rightarrow>
          if le_resource_released entry then (Inr (le_control_ticket entry), g)
          else case release_locked now (le_key entry) outcome throttled retry_after g of
                 (Inl err, g1) \<Rightarrow> (Inl err, g1)
               | (Inr _, g1) \<Rightarrow>
                   (Inr (le_control_ticket entry),
                    g1\<lparr>pg_active_leases := AList.update lease_id
                        (entry\<lparr>le_resource_released := True\<rparr>) (pg_active_leases g1)\<rparr>))"

definition clear_ticket :: "nat \<Rightarrow> nat \<Rightarrow> governor \<Rightarrow> governor" where
  "clear_ticket lease_id capability g =
     (case authoritative lease_id (\<lambda>e. le_capability e = capability) g of
        None \<Rightarrow> g
      | Some entry \<Rightarrow>
          g\<lparr>pg_active_leases := AList.update lease_id (entry\<lparr>le_control_ticket := None\<rparr>)
              (pg_active_leases g)\<rparr>)"

definition drop_lease :: "nat \<Rightarrow> nat \<Rightarrow> governor \<Rightarrow> governor" where
  "drop_lease lease_id capability g =
     (case authoritative lease_id
             (\<lambda>e. le_capability e = capability \<and> le_resource_released e \<and> le_control_ticket e = None) g of
        None \<Rightarrow> g
      | Some _ \<Rightarrow> g\<lparr>pg_active_leases := AList.delete lease_id (pg_active_leases g)\<rparr>)"

definition release_lease ::
  "rat \<Rightarrow> bool \<Rightarrow> nat \<Rightarrow> nat \<Rightarrow> nat \<Rightarrow> string \<Rightarrow> bool \<Rightarrow> rat option \<Rightarrow> governor \<Rightarrow> unit result \<times> governor" where
  "release_lease now retired lease_id owner capability outcome throttled retry_after g =
     (case account_release now lease_id
             (\<lambda>e. le_owner_id e = owner \<and> le_capability e = capability) outcome throttled retry_after g of
        (Inl err, g1) \<Rightarrow> (Inl err, g1)
      | (Inr ticket, g1) \<Rightarrow>
          if ticket \<noteq> None \<and> \<not> retired
          then (Inl (RuntimeError ''provider request control-plane retirement did not commit''), g1)
          else (Inr (), drop_lease lease_id capability
                  (if ticket \<noteq> None then clear_ticket lease_id capability g1 else g1)))"

definition release_lease_capability ::
  "rat \<Rightarrow> bool \<Rightarrow> nat \<Rightarrow> nat \<Rightarrow> governor \<Rightarrow> unit result \<times> governor" where
  "release_lease_capability now retired lease_id capability g =
     (case account_release now lease_id (\<lambda>e. le_capability e = capability) ''neutral'' False None g of
        (Inl err, g1) \<Rightarrow> (Inl err, g1)
      | (Inr ticket, g1) \<Rightarrow>
          if ticket \<noteq> None \<and> \<not> retired
          then (Inl (RuntimeError ''provider request control-plane retirement did not commit''), g1)
          else (Inr (), drop_lease lease_id capability
                  (if ticket \<noteq> None then clear_ticket lease_id capability g1 else g1)))"

section \<open>The lease object\<close>

datatype lease_state = Inactive | Active | Releasing | Released

record request_lease =
  rl_lease_id :: nat
  rl_owner_id :: nat
  rl_capability :: nat
  rl_state :: lease_state
  rl_finalizer_ticket :: nat

definition acknowledge_finalizer_slot :: "request_lease \<Rightarrow> request_lease" where
  "acknowledge_finalizer_slot l = l\<lparr>rl_finalizer_ticket := 0\<rparr>"

definition release_outcome ::
  "bool \<Rightarrow> rat \<Rightarrow> bool \<Rightarrow> string \<Rightarrow> bool \<Rightarrow> rat option \<Rightarrow> request_lease \<Rightarrow> governor
   \<Rightarrow> bool result \<times> request_lease \<times> governor" where
  "release_outcome same_pid now retired outcome throttled retry_after l g =
     (if \<not> same_pid then (Inr False, l, g)
      else if rl_state l = Released then (Inr False, acknowledge_finalizer_slot l, g)
      else if rl_state l \<noteq> Active then (Inr False, l, g)
      else case release_lease now retired (rl_lease_id l) (rl_owner_id l) (rl_capability l)
                  outcome throttled retry_after g of
             (Inl err, g1) \<Rightarrow> (Inl err, l\<lparr>rl_state := Active\<rparr>, g1)
           | (Inr _, g1) \<Rightarrow> (Inr True, acknowledge_finalizer_slot (l\<lparr>rl_state := Released\<rparr>), g1))"

section \<open>Diagnostics\<close>

record registry_view =
  rv_tracked_keys :: nat
  rv_active_keys :: nat
  rv_open_circuits :: nat
  rv_max_tracked_keys :: nat
  rv_evictions :: nat
  rv_saturation_rejections :: nat
  rv_construction_rollbacks :: nat
  rv_over_release_count :: nat
  rv_active_leases :: nat
  rv_unknown_lease_releases :: nat
  rv_expiry_entries :: nat
  rv_peak_expiry_entries :: nat
  rv_stale_expiry_entries :: nat
  rv_post_commit_failures :: nat

definition registry_snapshot :: "rat \<Rightarrow> governor \<Rightarrow> registry_view" where
  "registry_snapshot now g =
     \<lparr>rv_tracked_keys = length (pg_states g),
      rv_active_keys = length (filter (\<lambda>(k, s). ps_in_flight s > 0) (pg_states g)),
      rv_open_circuits = length (filter (\<lambda>(k, s). ps_circuit_open_until s > now) (pg_states g)),
      rv_max_tracked_keys = pg_max_tracked_keys g,
      rv_evictions = pg_evictions g,
      rv_saturation_rejections = pg_saturation_rejections g,
      rv_construction_rollbacks = pg_construction_rollbacks g,
      rv_over_release_count = pg_over_release_count g,
      rv_active_leases = length (pg_active_leases g),
      rv_unknown_lease_releases = pg_unknown_lease_releases g,
      rv_expiry_entries = length (filter (\<lambda>(k, s). ps_circuit_open_until s > now) (pg_states g)),
      rv_peak_expiry_entries = eh_peak_entries (pg_expiry_heap g),
      rv_stale_expiry_entries = 0,
      rv_post_commit_failures = pg_post_commit_failures g\<rparr>"

definition throttle_snapshot :: "string \<Rightarrow> governor \<Rightarrow> pstate" where
  "throttle_snapshot key g =
     (case map_of (pg_states g) key of None \<Rightarrow> new_pstate (pg_default_window g) 0 | Some s \<Rightarrow> s)"

section \<open>Held leases\<close>

definition held :: "string \<Rightarrow> (nat \<rightharpoonup> lease_entry) \<Rightarrow> nat" where
  "held k m = card {i. \<exists>e. m i = Some e \<and> le_key e = k \<and> \<not> le_resource_released e}"

lemma finite_held: "finite (dom m) \<Longrightarrow> finite {i. \<exists>e. m i = Some e \<and> P e}"
  by (rule finite_subset [of _ "dom m"]) auto

lemma held_insert:
  assumes "finite (dom m)" "m i = None" "\<not> le_resource_released e"
  shows "held k (m(i \<mapsto> e)) = held k m + (if le_key e = k then 1 else 0)"
proof -
  let ?S = "{i. \<exists>e. m i = Some e \<and> le_key e = k \<and> \<not> le_resource_released e}"
  have "{j. \<exists>e'. (m(i \<mapsto> e)) j = Some e' \<and> le_key e' = k \<and> \<not> le_resource_released e'} =
      (if le_key e = k then insert i ?S else ?S)"
    using assms by auto
  moreover have "i \<notin> ?S" using assms by simp
  ultimately show ?thesis using finite_held [OF assms(1)] by (simp add: held_def)
qed

lemma held_release:
  assumes "finite (dom m)" "m i = Some e" "\<not> le_resource_released e" "le_resource_released e'"
  shows "held k (m(i \<mapsto> e')) = held k m - (if le_key e = k then 1 else 0)"
    "le_key e = k \<Longrightarrow> 0 < held k m"
proof -
  let ?S = "{i. \<exists>e. m i = Some e \<and> le_key e = k \<and> \<not> le_resource_released e}"
  have fin: "finite ?S" using finite_held [OF assms(1)] .
  have eq: "{j. \<exists>d. (m(i \<mapsto> e')) j = Some d \<and> le_key d = k \<and> \<not> le_resource_released d} = ?S - {i}"
    using assms by auto
  show "held k (m(i \<mapsto> e')) = held k m - (if le_key e = k then 1 else 0)"
    unfolding held_def eq using assms fin by (auto simp: card_Diff_singleton_if)
  show "0 < held k m" if "le_key e = k"
    unfolding held_def using assms fin that by (auto simp: card_gt_0_iff)
qed

lemma held_same:
  assumes "m i = Some e" "le_key e' = le_key e" "le_resource_released e' = le_resource_released e"
  shows "held k (m(i \<mapsto> e')) = held k m"
proof -
  have "{j. \<exists>d. (m(i \<mapsto> e')) j = Some d \<and> le_key d = k \<and> \<not> le_resource_released d} =
      {j. \<exists>d. m j = Some d \<and> le_key d = k \<and> \<not> le_resource_released d}"
    using assms by auto
  then show ?thesis by (simp add: held_def)
qed

lemma held_delete:
  assumes "m i = Some e" "le_resource_released e"
  shows "held k (m(i := None)) = held k m"
proof -
  have "{j. \<exists>d. (m(i := None)) j = Some d \<and> le_key d = k \<and> \<not> le_resource_released d} =
      {j. \<exists>d. m j = Some d \<and> le_key d = k \<and> \<not> le_resource_released d}"
    using assms by auto
  then show ?thesis by (simp add: held_def)
qed

lemma held_0: "(\<And>i e. m i = Some e \<Longrightarrow> \<not> le_resource_released e \<Longrightarrow> le_key e \<noteq> k) \<Longrightarrow> held k m = 0"
proof -
  assume "\<And>i e. m i = Some e \<Longrightarrow> \<not> le_resource_released e \<Longrightarrow> le_key e \<noteq> k"
  then have "{i. \<exists>e. m i = Some e \<and> le_key e = k \<and> \<not> le_resource_released e} = {}" by auto
  then show ?thesis by (simp only: held_def card.empty)
qed

lemma held_0D:
  assumes "held k m = 0" "finite (dom m)" "m i = Some e" "\<not> le_resource_released e"
  shows "le_key e \<noteq> k"
  using assms finite_held [of m "\<lambda>e. le_key e = k \<and> \<not> le_resource_released e"] by (auto simp: held_def)

section \<open>Invariant\<close>

definition pstate_ok :: "pstate \<Rightarrow> bool" where
  "pstate_ok s \<longleftrightarrow> 1 \<le> ps_window s \<and> ps_window s \<le> MAX_WINDOW
     \<and> 0 \<le> ps_in_flight s \<and> ps_in_flight s \<le> ps_peak_in_flight s
     \<and> 0 \<le> ps_consecutive_failures s
     \<and> 0 \<le> ps_additive_successes s \<and> ps_additive_successes s < max 4 (ps_window s)"

definition leases_of :: "governor \<Rightarrow> nat \<rightharpoonup> lease_entry" where
  "leases_of g = map_of (pg_active_leases g)"

definition states_of :: "governor \<Rightarrow> string \<rightharpoonup> pstate" where
  "states_of g = map_of (pg_states g)"

definition registry_ok :: "governor \<Rightarrow> bool" where
  "registry_ok g \<longleftrightarrow>
     heap_ok (pg_expiry_heap g) \<and> distinct (map fst (pg_states g))
     \<and> distinct (map fst (pg_active_leases g))
     \<and> dom (entries (pg_expiry_heap g)) = dom (states_of g)
     \<and> length (pg_states g) \<le> pg_max_tracked_keys g
     \<and> 2 \<le> pg_default_window g \<and> pg_default_window g \<le> MAX_WINDOW"

definition idle_ok :: "governor \<Rightarrow> bool" where
  "idle_ok g \<longleftrightarrow> distinct (pg_inactive_keys g)
     \<and> (\<forall>k \<in> set (pg_inactive_keys g). \<exists>s. states_of g k = Some s \<and> ps_in_flight s = 0)"

definition accounts_ok :: "governor \<Rightarrow> bool" where
  "accounts_ok g \<longleftrightarrow>
     (\<forall>k s. states_of g k = Some s \<longrightarrow>
        pstate_ok s \<and> ps_in_flight s = int (held k (leases_of g))
        \<and> (\<forall>t. entries (pg_expiry_heap g) k = Some (Due t) \<longrightarrow> t = ps_circuit_open_until s))
     \<and> (\<forall>i e. leases_of g i = Some e \<longrightarrow> \<not> le_resource_released e \<longrightarrow> states_of g (le_key e) \<noteq> None)"

definition gov_inv :: "governor \<Rightarrow> bool" where
  "gov_inv g \<longleftrightarrow> registry_ok g \<and> idle_ok g \<and> accounts_ok g"

lemma finite_leases: "finite (dom (leases_of g))"
  by (simp add: leases_of_def finite_dom_map_of)

lemma accounts_okD:
  assumes "accounts_ok g" "states_of g k = Some s"
  shows "pstate_ok s" "ps_in_flight s = int (held k (leases_of g))"
    "entries (pg_expiry_heap g) k = Some (Due t) \<Longrightarrow> t = ps_circuit_open_until s"
  using assms by (auto simp: accounts_ok_def)

lemma accounts_ok_lease:
  "accounts_ok g \<Longrightarrow> leases_of g i = Some e \<Longrightarrow> \<not> le_resource_released e \<Longrightarrow> states_of g (le_key e) \<noteq> None"
  unfolding accounts_ok_def by blast

lemma init_governor_inv:
  assumes "init_governor n cpus = Inr g"
  shows "gov_inv g"
proof -
  have g: "pg_states g = []" "pg_active_leases g = []" "pg_inactive_keys g = []"
    "pg_expiry_heap g = empty_heap" "pg_default_window g = default_window cpus"
    using assms by (auto simp: init_governor_def split: if_splits)
  show ?thesis
    unfolding gov_inv_def
    by (auto simp: registry_ok_def idle_ok_def accounts_ok_def states_of_def leases_of_def g
        empty_heap_ok default_window_def MAX_WINDOW_def)
qed

lemma map_of_move_to_end: "distinct (map fst xs) \<Longrightarrow> map_of (move_to_end k xs) = map_of xs"
  by (auto simp: move_to_end_def fun_eq_iff map_add_def delete_conv' split: option.splits)

lemma distinct_move_to_end: "distinct (map fst xs) \<Longrightarrow> distinct (map fst (move_to_end k xs))"
  by (auto simp: move_to_end_def delete_keys distinct_removeAll split: option.splits)

lemma length_delete_present:
  assumes "distinct (map fst xs)" "map_of xs k = Some v"
  shows "Suc (length (AList.delete k xs)) = length xs"
  using assms
proof -
  have "length (AList.delete k xs) = length (removeAll k (map fst xs))"
    by (simp flip: delete_keys)
  also have "removeAll k (map fst xs) = remove1 k (map fst xs)"
    by (rule distinct_remove1_removeAll [OF assms(1), symmetric])
  also have "length \<dots> = length xs - 1"
    using assms(2) by (auto simp: length_remove1 dest!: map_of_SomeD intro: rev_image_eqI)
  finally show ?thesis using assms(2) by (cases xs) auto
qed

lemma view_frame [simp]:
  "states_of (g\<lparr>pg_expiry_heap := h\<rparr>) = states_of g" "leases_of (g\<lparr>pg_expiry_heap := h\<rparr>) = leases_of g"
  "states_of (g\<lparr>pg_inactive_keys := ks\<rparr>) = states_of g" "leases_of (g\<lparr>pg_inactive_keys := ks\<rparr>) = leases_of g"
  "states_of (g\<lparr>pg_active_leases := ls\<rparr>) = states_of g" "leases_of (g\<lparr>pg_states := ss\<rparr>) = leases_of g"
  "states_of (g\<lparr>pg_states := ss\<rparr>) = map_of ss" "leases_of (g\<lparr>pg_active_leases := ls\<rparr>) = map_of ls"
  "states_of (g\<lparr>pg_lease_sequence := n\<rparr>) = states_of g" "leases_of (g\<lparr>pg_lease_sequence := n\<rparr>) = leases_of g"
  by (simp_all add: states_of_def leases_of_def)

section \<open>Promotion of expired circuits\<close>

lemma heap_set:
  assumes "registry_ok g" "states_of g k \<noteq> None"
  shows "heap_ok (update_node k e (pg_expiry_heap g))"
    "entries (update_node k e (pg_expiry_heap g)) = (entries (pg_expiry_heap g))(k \<mapsto> e)"
  using assms eh.set_valid [of "pg_expiry_heap g" k e] eh.set_content [of "pg_expiry_heap g" k e]
  by (auto simp: registry_ok_def)

lemma gov_inv_set_expiry:
  assumes inv: "gov_inv g" and s: "states_of g k = Some s"
    and e: "\<And>t. e = Due t \<Longrightarrow> t = ps_circuit_open_until s"
  shows "gov_inv (g\<lparr>pg_expiry_heap := update_node k e (pg_expiry_heap g)\<rparr>)"
proof -
  have reg: "registry_ok g" using inv by (simp add: gov_inv_def)
  have k: "states_of g k \<noteq> None" using s by simp
  note h = heap_set [OF reg k, of e]
  have "registry_ok (g\<lparr>pg_expiry_heap := update_node k e (pg_expiry_heap g)\<rparr>)"
    using reg h k by (auto simp: registry_ok_def)
  moreover have "accounts_ok (g\<lparr>pg_expiry_heap := update_node k e (pg_expiry_heap g)\<rparr>)"
    using inv h s e by (auto simp: gov_inv_def accounts_ok_def)
  ultimately show ?thesis using inv by (simp add: gov_inv_def idle_ok_def)
qed

lemma set_touch [simp]: "set (touch k ks) = insert k (set ks)"
  by (auto simp: touch_def)

lemma distinct_touch: "distinct ks \<Longrightarrow> distinct (touch k ks)"
  by (auto simp: touch_def)

lemma gov_inv_touch:
  assumes "gov_inv g" "states_of g k = Some s" "ps_in_flight s = 0"
  shows "gov_inv (g\<lparr>pg_inactive_keys := touch k (pg_inactive_keys g)\<rparr>)"
  using assms
  by (auto simp: gov_inv_def registry_ok_def idle_ok_def accounts_ok_def distinct_touch)

definition promote_step :: "rat \<Rightarrow> string \<Rightarrow> pstate \<Rightarrow> governor \<Rightarrow> governor" where
  "promote_step now key state g =
     (let g1 = g\<lparr>pg_expiry_heap := update_node key Never (pg_expiry_heap g)\<rparr> in
      if ps_in_flight state \<noteq> 0 \<or> ps_circuit_open_until state > now
      then if ps_circuit_open_until state > now
           then g1\<lparr>pg_expiry_heap := update_node key (Due (ps_circuit_open_until state)) (pg_expiry_heap g1)\<rparr>
           else g1
      else g1\<lparr>pg_inactive_keys := touch key (pg_inactive_keys g1)\<rparr>)"

lemma promote_unfold:
  "states_of g key = Some state \<Longrightarrow> first_expired (Due now) (pg_expiry_heap g) = Some key \<Longrightarrow>
   promote_expired now g = promote_expired now (promote_step now key state g)"
  by (subst promote_expired.simps) (simp add: states_of_def promote_step_def Let_def)

lemma promote_step_frame:
  "states_of (promote_step now key state g) = states_of g"
  "leases_of (promote_step now key state g) = leases_of g"
  "pg_states (promote_step now key state g) = pg_states g"
  "pg_active_leases (promote_step now key state g) = pg_active_leases g"
  "pg_max_tracked_keys (promote_step now key state g) = pg_max_tracked_keys g"
  "pg_lease_sequence (promote_step now key state g) = pg_lease_sequence g"
  "pg_default_window (promote_step now key state g) = pg_default_window g"
  by (simp_all add: promote_step_def states_of_def leases_of_def Let_def)

lemma promote_step_inactive:
  "set (pg_inactive_keys g) \<subseteq> set (pg_inactive_keys (promote_step now key state g))"
  "ps_in_flight state = 0 \<Longrightarrow> ps_circuit_open_until state \<le> now \<Longrightarrow>
   key \<in> set (pg_inactive_keys (promote_step now key state g))"
  by (auto simp: promote_step_def Let_def)

lemma promote_step_inv:
  assumes inv: "gov_inv g" and s: "states_of g key = Some state"
  shows "gov_inv (promote_step now key state g)"
    "eh.due_keys (Due now) (pg_expiry_heap (promote_step now key state g)) =
       eh.due_keys (Due now) (pg_expiry_heap g) - {key}"
proof -
  let ?g1 = "g\<lparr>pg_expiry_heap := update_node key Never (pg_expiry_heap g)\<rparr>"
  have i1: "gov_inv ?g1" by (rule gov_inv_set_expiry [OF inv s]) simp
  have s1: "states_of ?g1 key = Some state" using s by (simp add: states_of_def)
  have i2: "gov_inv (?g1\<lparr>pg_expiry_heap := update_node key (Due (ps_circuit_open_until state)) (pg_expiry_heap ?g1)\<rparr>)"
    by (rule gov_inv_set_expiry [OF i1 s1]) simp
  have i3: "gov_inv (?g1\<lparr>pg_inactive_keys := touch key (pg_inactive_keys ?g1)\<rparr>)" if "ps_in_flight state = 0"
    by (rule gov_inv_touch [OF i1 s1 that])
  show "gov_inv (promote_step now key state g)"
    using i1 i2 i3 by (auto simp: promote_step_def Let_def)
  have ok: "heap_ok (pg_expiry_heap g)" "entries (pg_expiry_heap g) key \<noteq> None"
    "heap_ok (pg_expiry_heap ?g1)" "entries (pg_expiry_heap ?g1) key \<noteq> None"
    using inv i1 s s1 by (auto simp: gov_inv_def registry_ok_def)
  have d1: "eh.due_keys (Due now) (pg_expiry_heap ?g1) = eh.due_keys (Due now) (pg_expiry_heap g) - {key}"
    using eh.postpone_due [OF ok(1,2)] by simp
  have d2: "eh.due_keys (Due now) (update_node key (Due (ps_circuit_open_until state)) (pg_expiry_heap ?g1))
      = eh.due_keys (Due now) (pg_expiry_heap g) - {key}" if "now < ps_circuit_open_until state"
    using eh.postpone_due [OF ok(3,4)] that d1 by simp
  show "eh.due_keys (Due now) (pg_expiry_heap (promote_step now key state g)) =
       eh.due_keys (Due now) (pg_expiry_heap g) - {key}"
    using d1 d2 by (auto simp: promote_step_def Let_def)
qed

lemma promote_expired_returns:
  assumes "gov_inv g"
  shows "\<exists>g'. promote_expired now g = Some g' \<and> gov_inv g'
    \<and> pg_states g' = pg_states g \<and> pg_active_leases g' = pg_active_leases g
    \<and> pg_lease_sequence g' = pg_lease_sequence g \<and> pg_max_tracked_keys g' = pg_max_tracked_keys g
    \<and> eh.due_keys (Due now) (pg_expiry_heap g') = {}
    \<and> set (pg_inactive_keys g) \<subseteq> set (pg_inactive_keys g')
    \<and> (\<forall>k s. k \<in> eh.due_keys (Due now) (pg_expiry_heap g) \<longrightarrow> states_of g k = Some s \<longrightarrow>
         ps_in_flight s = 0 \<longrightarrow> ps_circuit_open_until s \<le> now \<longrightarrow> k \<in> set (pg_inactive_keys g'))"
  using assms
proof (induction "card (eh.due_keys (Due now) (pg_expiry_heap g))" arbitrary: g rule: less_induct)
  case less
  let ?due = "eh.due_keys (Due now) (pg_expiry_heap g)"
  have ok: "heap_ok (pg_expiry_heap g)" and dom: "dom (entries (pg_expiry_heap g)) = dom (states_of g)"
    using less.prems by (simp_all add: gov_inv_def registry_ok_def)
  show ?case
  proof (cases "first_expired (Due now) (pg_expiry_heap g)")
    case None
    then have "promote_expired now g = Some g" by (subst promote_expired.simps) simp
    moreover have "?due = {}" using eh.none_due [OF ok] None by blast
    ultimately show ?thesis using less.prems by simp
  next
    case (Some key)
    have due: "key \<in> ?due" by (rule eh.earliest_due [OF ok Some])
    then obtain state where s: "states_of g key = Some state"
      using dom by (auto simp: eh.due_keys_def)
    let ?g = "promote_step now key state g"
    note st = promote_step_inv [OF less.prems s, of now]
    have "card (eh.due_keys (Due now) (pg_expiry_heap ?g)) < card ?due"
      unfolding st(2) by (rule card_Diff1_less [OF eh.finite_due [OF ok] due])
    from less.hyps [OF this st(1)] obtain g' where g': "promote_expired now ?g = Some g'" "gov_inv g'"
      "pg_states g' = pg_states ?g" "pg_active_leases g' = pg_active_leases ?g"
      "pg_lease_sequence g' = pg_lease_sequence ?g" "pg_max_tracked_keys g' = pg_max_tracked_keys ?g"
      "eh.due_keys (Due now) (pg_expiry_heap g') = {}"
      and sub: "set (pg_inactive_keys ?g) \<subseteq> set (pg_inactive_keys g')"
      and idle: "\<And>k s. k \<in> eh.due_keys (Due now) (pg_expiry_heap ?g) \<Longrightarrow> states_of ?g k = Some s \<Longrightarrow>
         ps_in_flight s = 0 \<Longrightarrow> ps_circuit_open_until s \<le> now \<Longrightarrow> k \<in> set (pg_inactive_keys g')"
      by blast
    have "k \<in> set (pg_inactive_keys g')"
      if "k \<in> ?due" "states_of g k = Some s'" "ps_in_flight s' = 0" "ps_circuit_open_until s' \<le> now" for k s'
    proof (cases "k = key")
      case True
      then show ?thesis using that s promote_step_inactive(2) [of state now key g] sub by auto
    next
      case False
      then show ?thesis using idle [of k s'] that st(2) by (simp add: promote_step_frame)
    qed
    moreover have "promote_expired now g = Some g'" using promote_unfold [OF s Some] g'(1) by simp
    moreover have "set (pg_inactive_keys g) \<subseteq> set (pg_inactive_keys g')"
      using sub promote_step_inactive(1) by (rule order_trans [rotated])
    ultimately show ?thesis
      using g' by (simp add: promote_step_frame)
  qed
qed

section \<open>Admission keeps the invariant\<close>

lemma gov_inv_diag [simp]:
  "gov_inv (g\<lparr>pg_saturation_rejections := n\<rparr>) = gov_inv g"
  "gov_inv (g\<lparr>pg_post_commit_failures := n\<rparr>) = gov_inv g"
  "gov_inv (g\<lparr>pg_evictions := n\<rparr>) = gov_inv g"
  "gov_inv (g\<lparr>pg_construction_rollbacks := n\<rparr>) = gov_inv g"
  "gov_inv (g\<lparr>pg_over_release_count := n\<rparr>) = gov_inv g"
  "gov_inv (g\<lparr>pg_unknown_lease_releases := n\<rparr>) = gov_inv g"
  "gov_inv (g\<lparr>pg_lease_sequence := n\<rparr>) = gov_inv g"
  by (simp_all add: gov_inv_def registry_ok_def idle_ok_def accounts_ok_def states_of_def leases_of_def)

lemma gov_inv_note [simp]: "gov_inv (note_post_commit_failure g) = gov_inv g"
  by (simp add: note_post_commit_failure_def)

lemma note_frame [simp]:
  "states_of (note_post_commit_failure g) = states_of g" "pg_states (note_post_commit_failure g) = pg_states g"
  "pg_inactive_keys (note_post_commit_failure g) = pg_inactive_keys g"
  "pg_active_leases (note_post_commit_failure g) = pg_active_leases g"
  "pg_expiry_heap (note_post_commit_failure g) = pg_expiry_heap g"
  "pg_max_tracked_keys (note_post_commit_failure g) = pg_max_tracked_keys g"
  "pg_lease_sequence (note_post_commit_failure g) = pg_lease_sequence g"
  by (simp_all add: note_post_commit_failure_def states_of_def)

lemma gov_inv_inactive:
  assumes "gov_inv g" "set ks \<subseteq> set (pg_inactive_keys g)" "distinct ks"
  shows "gov_inv (g\<lparr>pg_inactive_keys := ks\<rparr>)"
  using assms by (auto simp: gov_inv_def registry_ok_def idle_ok_def accounts_ok_def)

lemma gov_inv_evict:
  assumes inv: "gov_inv g" and s: "states_of g k = Some s" "ps_in_flight s = 0"
    and ks: "set ks \<subseteq> set (pg_inactive_keys g) - {k}" "distinct ks"
    and g': "g' = g\<lparr>pg_inactive_keys := ks, pg_expiry_heap := remove_node k (pg_expiry_heap g),
                pg_states := AList.delete k (pg_states g)\<rparr>"
  shows "gov_inv g'" "length (pg_states g') < pg_max_tracked_keys g'"
proof -
  have reg: "registry_ok g" and acc: "accounts_ok g" and idle: "idle_ok g"
    using inv by (simp_all add: gov_inv_def)
  have ok: "heap_ok (pg_expiry_heap g)" and dist: "distinct (map fst (pg_states g))"
    using reg by (simp_all add: registry_ok_def)
  have st: "states_of g' = (states_of g)(k := None)" by (simp add: g' states_of_def delete_conv')
  have ls: "leases_of g' = leases_of g" by (simp add: g' leases_of_def)
  have hp: "heap_ok (pg_expiry_heap g')" "entries (pg_expiry_heap g') = (entries (pg_expiry_heap g))(k := None)"
    using eh.drop_valid [OF ok] eh.drop_content [OF ok] by (simp_all add: g')
  have len: "Suc (length (pg_states g')) = length (pg_states g)"
    using length_delete_present [OF dist] s by (simp add: g' states_of_def)
  then show room: "length (pg_states g') < pg_max_tracked_keys g'"
    using reg by (simp add: g' registry_ok_def)
  have "distinct (map fst (pg_states g'))" using dist by (simp add: g' delete_keys distinct_removeAll)
  then have "registry_ok g'" using reg hp st room by (auto simp: registry_ok_def g')
  moreover have "idle_ok g'"
    using idle ks unfolding idle_ok_def st by (auto simp: g')
  moreover have "held k (leases_of g) = 0" using accounts_okD(2) [OF acc s(1)] s(2) by simp
  then have free: "le_key e \<noteq> k" if "leases_of g i = Some e" "\<not> le_resource_released e" for i e
    using held_0D [OF _ finite_leases] that by blast
  have "accounts_ok g'"
    unfolding accounts_ok_def st ls hp(2)
    using accounts_okD [OF acc] accounts_ok_lease [OF acc] free by auto
  ultimately show "gov_inv g'" by (simp add: gov_inv_def)
qed

lemma evict_idle_inv:
  assumes "gov_inv g" "set keys \<subseteq> set (pg_inactive_keys g)" "distinct keys"
    and "evict_idle retire now keys g = (ev, g')"
  shows "gov_inv g' \<and> pg_active_leases g' = pg_active_leases g \<and> pg_lease_sequence g' = pg_lease_sequence g
    \<and> (ev = Evicted \<longrightarrow> length (pg_states g') < pg_max_tracked_keys g')
    \<and> (\<forall>k. states_of g k = None \<longrightarrow> states_of g' k = None)"
  using assms
proof (induction keys)
  case Nil
  then show ?case using gov_inv_inactive [of g "[]"] by (auto simp: states_of_def)
next
  case (Cons key keys)
  have ks: "set keys \<subseteq> set (pg_inactive_keys g)" "set keys \<subseteq> set (pg_inactive_keys g) - {key}" "distinct keys"
    using Cons.prems by auto
  obtain s where s: "states_of g key = Some s" "ps_in_flight s = 0"
    using Cons.prems by (auto simp: gov_inv_def idle_ok_def)
  consider (evict) "ev = Evicted" "g' = g\<lparr>pg_inactive_keys := keys,
        pg_expiry_heap := remove_node key (pg_expiry_heap g),
        pg_states := AList.delete key (pg_states g)\<rparr>\<lparr>pg_evictions := pg_evictions g + 1\<rparr>"
    | (keep) "ev = Unretired" "g' = (note_post_commit_failure g)\<lparr>pg_inactive_keys := keys @ [key],
        pg_saturation_rejections := pg_saturation_rejections g + 1\<rparr>"
    | (skip) "evict_idle retire now keys g = (ev, g')"
    using Cons.prems(4) s by (auto simp: states_of_def split: if_splits)
  then show ?case
  proof cases
    case evict
    then show ?thesis
      using gov_inv_evict [OF Cons.prems(1) s ks(2,3) refl] by (auto simp: states_of_def delete_conv')
  next
    case keep
    have "gov_inv ((note_post_commit_failure g)\<lparr>pg_inactive_keys := keys @ [key]\<rparr>)"
      using Cons.prems by (intro gov_inv_inactive) auto
    then show ?thesis
      using keep by (simp add: states_of_def)
  next
    case skip
    then show ?thesis using Cons.IH Cons.prems(1) ks by blast
  qed
qed

lemma gov_inv_insert:
  assumes inv: "gov_inv g" and new: "states_of g k = None" and room: "length (pg_states g) < pg_max_tracked_keys g"
  shows "gov_inv (insert_state ticket k g)"
    "states_of (insert_state ticket k g) = (states_of g)(k \<mapsto> new_pstate (pg_default_window g) ticket)"
proof -
  let ?g = "insert_state ticket k g"
  have reg: "registry_ok g" and acc: "accounts_ok g" and idle: "idle_ok g"
    using inv by (simp_all add: gov_inv_def)
  have ok: "heap_ok (pg_expiry_heap g)" "entries (pg_expiry_heap g) k = None"
    using reg new by (auto simp: registry_ok_def)
  have hp: "heap_ok (pg_expiry_heap ?g)" "entries (pg_expiry_heap ?g) = (entries (pg_expiry_heap g))(k \<mapsto> Never)"
    using eh.insert_valid [OF ok] eh.insert_content [OF ok] by (simp_all add: insert_state_def)
  show st: "states_of ?g = (states_of g)(k \<mapsto> new_pstate (pg_default_window g) ticket)"
    by (simp add: insert_state_def states_of_def update_conv')
  have ls: "leases_of ?g = leases_of g" by (simp add: insert_state_def)
  have "length (AList.update k v (pg_states g)) = Suc (length (pg_states g))" for v
    using new update_keys [of k v "pg_states g"] length_map [of fst "AList.update k v (pg_states g)"]
    by (simp add: states_of_def map_of_eq_None_iff)
  then have "registry_ok ?g"
    using reg hp st room by (auto simp: registry_ok_def insert_state_def distinct_update)
  moreover have "idle_ok ?g"
    using idle new unfolding idle_ok_def st by (auto simp: insert_state_def)
  moreover have "held k (leases_of g) = 0"
    using accounts_ok_lease [OF acc] new by (intro held_0) metis
  then have "accounts_ok ?g"
    using accounts_okD [OF acc] accounts_ok_lease [OF acc] reg
    unfolding accounts_ok_def st ls hp(2)
    by (auto simp: new_pstate_def pstate_ok_def registry_ok_def)
  ultimately show "gov_inv ?g" by (simp add: gov_inv_def)
qed

lemma gov_inv_reuse:
  assumes inv: "gov_inv g"
  shows "gov_inv (g\<lparr>pg_states := move_to_end k (pg_states g), pg_inactive_keys := drop_key k (pg_inactive_keys g)\<rparr>)"
proof -
  have d: "distinct (map fst (pg_states g))" using inv by (simp add: gov_inv_def registry_ok_def)
  have len: "length (move_to_end k (pg_states g)) = length (pg_states g)"
    using length_delete_present [OF d, of k] by (auto simp: move_to_end_def split: option.splits)
  have st: "map_of (move_to_end k (pg_states g)) = states_of g"
    by (simp add: states_of_def map_of_move_to_end [OF d])
  show ?thesis
    using inv d len st
    by (auto simp: gov_inv_def registry_ok_def idle_ok_def accounts_ok_def distinct_move_to_end drop_key_def)
qed

lemma length_update_present: "map_of xs k = Some v \<Longrightarrow> length (AList.update k w xs) = length xs"
  by (induction xs) (auto split: if_splits)

lemma state_for_acquire_inv:
  assumes inv: "gov_inv g0"
  obtains r g where "state_for_acquire env key g0 = Some (r, g)" "gov_inv g"
    "pg_active_leases g = pg_active_leases g0" "pg_lease_sequence g = pg_lease_sequence g0"
    "\<And>s. r = Inr (Some s) \<Longrightarrow> states_of g key = Some s \<and> key \<notin> set (pg_inactive_keys g)"
    "\<And>s. r = Inr (Some s) \<Longrightarrow> states_of g0 key = Some s \<or>
       states_of g0 key = None \<and> ps_in_flight s = 0 \<and> ps_circuit_open_until s = 0"
proof -
  obtain g where g: "promote_expired (ae_now env) g0 = Some g" "gov_inv g" "pg_states g = pg_states g0"
    "pg_active_leases g = pg_active_leases g0" "pg_lease_sequence g = pg_lease_sequence g0"
    using promote_expired_returns [OF inv, of "ae_now env"] by blast
  show ?thesis
  proof (cases "map_of (pg_states g) key")
    case (Some s)
    have d: "distinct (map fst (pg_states g))" using g(2) by (simp add: gov_inv_def registry_ok_def)
    show ?thesis
    proof (rule that)
      show "state_for_acquire env key g0 = Some (Inr (Some s), g\<lparr>pg_states := move_to_end key (pg_states g),
                 pg_inactive_keys := drop_key key (pg_inactive_keys g)\<rparr>)"
        using g(1) Some by (simp add: state_for_acquire_def)
      show "gov_inv (g\<lparr>pg_states := move_to_end key (pg_states g),
                 pg_inactive_keys := drop_key key (pg_inactive_keys g)\<rparr>)"
        by (rule gov_inv_reuse [OF g(2)])
      show "states_of (g\<lparr>pg_states := move_to_end key (pg_states g),
                 pg_inactive_keys := drop_key key (pg_inactive_keys g)\<rparr>) key = Some s' \<and>
          key \<notin> set (pg_inactive_keys (g\<lparr>pg_states := move_to_end key (pg_states g),
                 pg_inactive_keys := drop_key key (pg_inactive_keys g)\<rparr>))"
        if "(Inr (Some s) :: pstate option result) = Inr (Some s')" for s'
        using that map_of_move_to_end [OF d, of key] Some by (simp add: drop_key_def)
    qed (use g Some in \<open>auto simp: states_of_def\<close>)
  next
    case None
    define ev g1 where "ev = fst (if length (pg_states g) \<ge> pg_max_tracked_keys g
                              then evict_idle (ae_retire env) (ae_now env) (pg_inactive_keys g) g
                              else (Evicted, g))"
      and "g1 = snd (if length (pg_states g) \<ge> pg_max_tracked_keys g
                              then evict_idle (ae_retire env) (ae_now env) (pg_inactive_keys g) g
                              else (Evicted, g))"
    have dk: "distinct (pg_inactive_keys g)" using g(2) by (simp add: gov_inv_def idle_ok_def)
    have e: "gov_inv g1 \<and> pg_active_leases g1 = pg_active_leases g \<and> pg_lease_sequence g1 = pg_lease_sequence g
        \<and> (ev = Evicted \<longrightarrow> length (pg_states g1) < pg_max_tracked_keys g1) \<and> states_of g1 key = None"
    proof (cases "length (pg_states g) \<ge> pg_max_tracked_keys g")
      case True
      then have "evict_idle (ae_retire env) (ae_now env) (pg_inactive_keys g) g = (ev, g1)"
        by (simp add: ev_def g1_def)
      from evict_idle_inv [OF g(2) order_refl dk this] show ?thesis using None by (simp add: states_of_def)
    next
      case False
      then show ?thesis using g(2) None by (simp add: ev_def g1_def states_of_def)
    qed
    have eq: "state_for_acquire env key g0 = Some
        (if ev \<noteq> Evicted then (Inr None, g1)
         else case ae_reserve_state env of
                Inl err \<Rightarrow> (Inl err, g1)
              | Inr ticket \<Rightarrow> (Inr (Some (new_pstate (pg_default_window g1) ticket)), insert_state ticket key g1))"
      using g(1) None unfolding state_for_acquire_def ev_def g1_def
      by (cases "ae_reserve_state env") (simp_all add: split_def Let_def)
    show ?thesis
    proof (cases "ev = Evicted \<and> is_ok (ae_reserve_state env)")
      case True
      then obtain ticket where t: "ae_reserve_state env = Inr ticket" by (cases "ae_reserve_state env") auto
      let ?s = "new_pstate (pg_default_window g1) ticket"
      have ins: "gov_inv (insert_state ticket key g1)" "states_of (insert_state ticket key g1) key = Some ?s"
        using gov_inv_insert e True by auto
      have "key \<notin> set (pg_inactive_keys g1)" using e by (auto simp: gov_inv_def idle_ok_def)
      then have fr: "key \<notin> set (pg_inactive_keys (insert_state ticket key g1))"
        "pg_active_leases (insert_state ticket key g1) = pg_active_leases g0"
        "pg_lease_sequence (insert_state ticket key g1) = pg_lease_sequence g0"
        using e g by (simp_all add: insert_state_def)
      show ?thesis
      proof (rule that)
        show "state_for_acquire env key g0 = Some (Inr (Some ?s), insert_state ticket key g1)"
          using eq t True by simp
      qed (use ins fr g(3) None in \<open>auto simp: states_of_def new_pstate_def\<close>)
    next
      case False
      then obtain r where r: "state_for_acquire env key g0 = Some (r, g1)" "\<And>s. r \<noteq> Inr (Some s)"
        using eq by (cases "ae_reserve_state env") (auto split: if_splits)
      show ?thesis
        by (rule that [OF r(1)]) (use e g r(2) in auto)
    qed
  qed
qed

lemma commit_admission_inv:
  assumes inv: "gov_inv g" and s: "states_of g key = Some s" and idle: "key \<notin> set (pg_inactive_keys g)"
    and new: "leases_of g i = None" and e: "le_key e = key" "\<not> le_resource_released e"
  shows "gov_inv (commit_admission key i e s g)"
    "states_of (commit_admission key i e s g) = (states_of g)(key \<mapsto> s\<lparr>ps_in_flight := ps_in_flight s + 1,
                ps_peak_in_flight := max (ps_peak_in_flight s) (ps_in_flight s + 1)\<rparr>)"
    "leases_of (commit_admission key i e s g) = (leases_of g)(i \<mapsto> e)"
proof -
  let ?g = "commit_admission key i e s g"
  let ?s = "s\<lparr>ps_in_flight := ps_in_flight s + 1, ps_peak_in_flight := max (ps_peak_in_flight s) (ps_in_flight s + 1)\<rparr>"
  have reg: "registry_ok g" and acc: "accounts_ok g" and id: "idle_ok g"
    using inv by (simp_all add: gov_inv_def)
  show st: "states_of ?g = (states_of g)(key \<mapsto> ?s)"
    by (simp add: commit_admission_def states_of_def update_conv')
  show ls: "leases_of ?g = (leases_of g)(i \<mapsto> e)"
    by (simp add: commit_admission_def leases_of_def update_conv')
  have hp: "pg_expiry_heap ?g = pg_expiry_heap g" and ik: "pg_inactive_keys ?g = pg_inactive_keys g"
    by (simp_all add: commit_admission_def)
  have len: "length (AList.update key v (pg_states g)) = length (pg_states g)" for v
    using s by (simp add: states_of_def length_update_present)
  have "registry_ok ?g"
    using reg st s len hp by (auto simp: registry_ok_def commit_admission_def distinct_update)
  moreover have "idle_ok ?g" using id idle unfolding idle_ok_def st ik by auto
  moreover have h: "held k (leases_of ?g) = held k (leases_of g) + (if k = key then 1 else 0)" for k
    unfolding ls using held_insert [OF finite_leases new e(2)] e(1) by simp
  have "accounts_ok ?g"
    unfolding accounts_ok_def st hp
    using accounts_okD [OF acc] accounts_ok_lease [OF acc] s h e
    by (auto simp: ls pstate_ok_def split: if_splits)
  ultimately show "gov_inv ?g" by (simp add: gov_inv_def)
qed

lemma try_acquire_inv:
  assumes inv: "gov_inv g0"
  obtains r g where "try_acquire env key g0 = Some (r, g)" "gov_inv g"
    "(\<nexists>i e. r = Inr (Admitted i e)) \<Longrightarrow> pg_active_leases g = pg_active_leases g0"
    "\<And>i e. r = Inr (Admitted i e) \<Longrightarrow> leases_of g0 i = None \<and> leases_of g = (leases_of g0)(i \<mapsto> e)
       \<and> le_key e = key \<and> \<not> le_resource_released e \<and> 1 \<le> i \<and> i \<le> MAX_TOKEN
       \<and> (\<exists>s. states_of g key = Some s \<and> ps_circuit_open_until s \<le> ae_now env \<and> ps_in_flight s \<le> ps_window s)"
proof -
  obtain r g where sf: "state_for_acquire env key g0 = Some (r, g)" and inv': "gov_inv g"
    and al: "pg_active_leases g = pg_active_leases g0" "pg_lease_sequence g = pg_lease_sequence g0"
    and st: "\<And>s. r = Inr (Some s) \<Longrightarrow> states_of g key = Some s \<and> key \<notin> set (pg_inactive_keys g)"
    using state_for_acquire_inv [OF inv, of env key] by metis
  consider (stop) r' n where "try_acquire env key g0 = Some (r', g\<lparr>pg_saturation_rejections := n\<rparr>)" "\<nexists>i e. r' = Inr (Admitted i e)"
    | (roll) r' n where "try_acquire env key g0 = Some (r', g\<lparr>pg_construction_rollbacks := n\<rparr>)" "\<nexists>i e. r' = Inr (Admitted i e)"
    | (admit) s i e where "try_acquire env key g0 = Some (Inr (Admitted i e), commit_admission key i e s g)"
      "r = Inr (Some s)" "ps_circuit_open_until s \<le> ae_now env" "ps_in_flight s < ps_window s"
      "next_reusable_token (int (pg_lease_sequence g)) (set (map fst (pg_active_leases g))) = Some (Some i)"
      "le_key e = key" "\<not> le_resource_released e"
  proof -
    have same: "g = g\<lparr>pg_saturation_rejections := pg_saturation_rejections g\<rparr>" by simp
    show ?thesis
    proof (cases "\<exists>s. r = Inr (Some s) \<and> ps_circuit_open_until s \<le> ae_now env \<and> ps_in_flight s < ps_window s")
      case False
      then have "\<exists>r'. try_acquire env key g0 = Some (r', g) \<and> (\<nexists>i e. r' = Inr (Admitted i e))"
        using sf by (cases r; cases "projr r") (auto simp: try_acquire_def not_less)
      then show ?thesis using stop same by metis
    next
      case True
      then obtain s where s: "r = Inr (Some s)" "ps_circuit_open_until s \<le> ae_now env" "ps_in_flight s < ps_window s"
        by blast
      obtain t where t: "next_reusable_token (int (pg_lease_sequence g)) (set (map fst (pg_active_leases g))) = Some t"
        using tn.search_returns by blast
      show ?thesis
      proof (cases t)
        case None
        then show ?thesis using sf s t by (intro stop) (auto simp: try_acquire_def)
      next
        case (Some i)
        then have eq: "try_acquire env key g0 = Some (admit_lease env key s i g)"
          using sf s t by (simp add: try_acquire_def)
        show ?thesis
        proof (cases "is_ok (ae_reserve_lease env)")
          case False
          then obtain err where "ae_reserve_lease env = Inl err" by (cases "ae_reserve_lease env") auto
          then show ?thesis using eq same by (intro stop [of "Inl err" "pg_saturation_rejections g"]) (auto simp: admit_lease_def)
        next
          case True
          then obtain ticket where tk: "ae_reserve_lease env = Inr ticket" by (cases "ae_reserve_lease env") auto
          show ?thesis
          proof (cases "is_ok (ae_construct env) \<and> ae_activate env = None")
            case False
            then show ?thesis
              using eq tk by (cases "ae_construct env"; cases "ae_activate env")
                (auto simp: admit_lease_def Let_def intro: roll)
          next
            case True
            then obtain owner where ow: "ae_construct env = Inr owner" by (cases "ae_construct env") auto
            show ?thesis
              by (rule admit [OF _ s, of i "\<lparr>le_owner_id = owner, le_capability = ae_capability env, le_key = key,
                            le_control_ticket = Some ticket, le_resource_released = False\<rparr>"])
                (use eq tk ow True Some t in \<open>simp_all add: admit_lease_def Let_def\<close>)
          qed
        qed
      qed
    qed
  qed
  then show ?thesis
  proof cases
    case stop
    show ?thesis by (rule that [OF stop(1)]) (use inv' al stop(2) in auto)
  next
    case roll
    show ?thesis by (rule that [OF roll(1)]) (use inv' al roll(2) in auto)
  next
    case (admit s i e)
    have fresh: "leases_of g i = None"
      using tn.token_fresh [OF admit(5)] by (simp add: leases_of_def map_of_eq_None_iff)
    have bound: "1 \<le> i \<and> i \<le> MAX_TOKEN" by (rule tn.token_bounded [OF admit(5)])
    note c = commit_admission_inv [OF inv' _ _ fresh admit(6,7), of s]
    have l: "leases_of g = leases_of g0" by (simp add: leases_of_def al)
    show ?thesis
      by (rule that [OF admit(1)]) (use c st [OF admit(2)] fresh bound admit l in auto)
  qed
qed

section \<open>Release keeps the invariant\<close>

lemma next_pstate_ok:
  assumes "pstate_ok s" "0 < ps_in_flight s"
  shows "pstate_ok (next_pstate now outcome throttled retry s)"
    "ps_in_flight (next_pstate now outcome throttled retry s) = ps_in_flight s - 1"
proof -
  have "ps_window s div 2 \<le> ps_window s" "0 \<le> ps_window s div 2" using assms by (auto simp: pstate_ok_def)
  then show "pstate_ok (next_pstate now outcome throttled retry s)"
    using assms
    by (auto simp: next_pstate_def on_success_def on_failure_def pstate_ok_def MAX_WINDOW_def Let_def
        max_def min_def)
  show "ps_in_flight (next_pstate now outcome throttled retry s) = ps_in_flight s - 1"
    by (simp add: next_pstate_def Let_def)
qed

definition mark_released :: "nat \<Rightarrow> lease_entry \<Rightarrow> governor \<Rightarrow> governor" where
  "mark_released i e g =
     g\<lparr>pg_active_leases := AList.update i (e\<lparr>le_resource_released := True\<rparr>) (pg_active_leases g)\<rparr>"

lemma commit_outcome_inv:
  assumes inv: "gov_inv g" and e: "leases_of g i = Some e" "\<not> le_resource_released e" "le_key e = k"
    and s: "states_of g k = Some s" and s': "pstate_ok s'" "ps_in_flight s' = ps_in_flight s - 1"
  shows "gov_inv (mark_released i e (commit_outcome now k s' g))"
    "states_of (mark_released i e (commit_outcome now k s' g)) = (states_of g)(k \<mapsto> s')"
    "leases_of (mark_released i e (commit_outcome now k s' g)) = (leases_of g)(i \<mapsto> e\<lparr>le_resource_released := True\<rparr>)"
proof -
  let ?g = "mark_released i e (commit_outcome now k s' g)" and ?e = "e\<lparr>le_resource_released := True\<rparr>"
  let ?x = "if now < ps_circuit_open_until s' then Due (ps_circuit_open_until s') else Never"
  have reg: "registry_ok g" and acc: "accounts_ok g" and idle: "idle_ok g"
    using inv by (simp_all add: gov_inv_def)
  have d: "distinct (map fst (AList.update k s' (pg_states g)))"
    using reg by (simp add: registry_ok_def distinct_update)
  have len: "length (AList.update k s' (pg_states g)) = length (pg_states g)"
    using s by (simp add: states_of_def length_update_present)
  have mlen: "length (move_to_end k xs) = length xs" if "distinct (map fst xs)" for xs :: "(string \<times> pstate) list"
    using length_delete_present [OF that, of k] by (auto simp: move_to_end_def split: option.splits)
  show st: "states_of ?g = (states_of g)(k \<mapsto> s')"
    by (simp add: mark_released_def commit_outcome_def Let_def states_of_def map_of_move_to_end [OF d] update_conv')
  show ls: "leases_of ?g = (leases_of g)(i \<mapsto> ?e)"
    by (simp add: mark_released_def commit_outcome_def Let_def leases_of_def update_conv')
  have hp: "pg_expiry_heap ?g = update_node k ?x (pg_expiry_heap g)"
    by (simp add: mark_released_def commit_outcome_def Let_def)
  have k: "states_of g k \<noteq> None" using s by simp
  note hs = heap_set [OF reg k, of ?x]
  have "registry_ok ?g"
    unfolding registry_ok_def hp st hs(2)
    using reg hs(1) s distinct_move_to_end [OF d, of k] mlen [OF d] len
    by (auto simp: registry_ok_def mark_released_def commit_outcome_def Let_def distinct_update)
  moreover have "idle_ok ?g"
  proof -
    have "pg_inactive_keys ?g = (if now < ps_circuit_open_until s' then drop_key k (pg_inactive_keys g)
        else if ps_in_flight s' = 0 then touch k (pg_inactive_keys g) else pg_inactive_keys g)"
      by (simp add: mark_released_def commit_outcome_def Let_def)
    moreover have "k \<notin> set (pg_inactive_keys g)"
    proof
      assume "k \<in> set (pg_inactive_keys g)"
      then have "ps_in_flight s = 0" using idle s by (auto simp: idle_ok_def)
      then have "ps_in_flight s' < 0" using s'(2) by simp
      then show False using s'(1) by (simp add: pstate_ok_def)
    qed
    ultimately show ?thesis
      using idle unfolding idle_ok_def st by (auto simp: drop_key_def distinct_touch)
  qed
  moreover have "accounts_ok ?g"
  proof -
    have r: "le_resource_released ?e" by simp
    have h: "held j (leases_of ?g) = held j (leases_of g) - (if j = k then 1 else 0)" for j
      unfolding ls using held_release(1) [OF finite_leases e(1,2) r, of j] e(3) by auto
    have "0 < held k (leases_of g)" using held_release(2) [OF finite_leases e(1,2) r] e(3) by simp
    then show ?thesis
      unfolding accounts_ok_def st hp hs(2)
      using accounts_okD [OF acc] accounts_ok_lease [OF acc] s s' h e
      by (auto simp: ls split: if_splits)
  qed
  ultimately show "gov_inv ?g" by (simp add: gov_inv_def)
qed

lemma authoritative_Some:
  "authoritative i owns g = Some e \<longleftrightarrow> leases_of g i = Some e \<and> owns e"
  by (auto simp: authoritative_def leases_of_def split: option.splits)

lemma account_release_cases:
  assumes inv: "gov_inv g"
  obtains (unknown) "account_release now i owns outcome throttled retry g =
      (Inl (RuntimeError ''provider request lease is not authoritative''),
       g\<lparr>pg_unknown_lease_releases := pg_unknown_lease_releases g + 1\<rparr>)"
      "\<And>e. leases_of g i = Some e \<Longrightarrow> \<not> owns e"
  | (again) e where "leases_of g i = Some e" "owns e" "le_resource_released e"
      "account_release now i owns outcome throttled retry g = (Inr (le_control_ticket e), g)"
  | (invalid) e where "leases_of g i = Some e" "owns e" "\<not> le_resource_released e"
      "outcome \<notin> {''success'', ''failure'', ''neutral''}"
      "account_release now i owns outcome throttled retry g =
         (Inl (ValueError (''unknown provider throttle outcome: '' @ outcome)), g)"
  | (released) e s where "leases_of g i = Some e" "owns e" "\<not> le_resource_released e"
      "states_of g (le_key e) = Some s" "0 < ps_in_flight s"
      "account_release now i owns outcome throttled retry g =
         (Inr (le_control_ticket e), mark_released i e
            (commit_outcome now (le_key e) (next_pstate now outcome throttled retry s) g))"
proof (cases "authoritative i owns g")
  case None
  then have "\<And>e. leases_of g i = Some e \<Longrightarrow> \<not> owns e"
    using authoritative_Some [of i owns g] by auto
  then show ?thesis using None by (intro unknown) (simp_all add: account_release_def)
next
  case (Some e)
  then have e: "leases_of g i = Some e" "owns e" by (simp_all add: authoritative_Some)
  show ?thesis
  proof (cases "le_resource_released e")
    case True
    then show ?thesis using Some e by (intro again) (simp_all add: account_release_def)
  next
    case False
    have acc: "accounts_ok g" using inv by (simp add: gov_inv_def)
    obtain s where s: "states_of g (le_key e) = Some s"
      using accounts_ok_lease [OF acc e(1) False] by auto
    have "0 < held (le_key e) (leases_of g)"
      using held_release(2) [OF finite_leases e(1) False, of "e\<lparr>le_resource_released := True\<rparr>"] by simp
    then have pos: "0 < ps_in_flight s" using accounts_okD(2) [OF acc s] by simp
    show ?thesis
    proof (cases "outcome \<in> {''success'', ''failure'', ''neutral''}")
      case True
      have "account_release now i owns outcome throttled retry g =
         (Inr (le_control_ticket e), mark_released i e
            (commit_outcome now (le_key e) (next_pstate now outcome throttled retry s) g))"
        using Some False True s pos
        by (simp add: account_release_def release_locked_def states_of_def mark_released_def)
      then show ?thesis by (rule released [OF e False s pos])
    next
      case inval: False
      then have "account_release now i owns outcome throttled retry g =
         (Inl (ValueError (''unknown provider throttle outcome: '' @ outcome)), g)"
        using Some False by (simp add: account_release_def release_locked_def)
      then show ?thesis by (rule invalid [OF e False inval])
    qed
  qed
qed

lemma account_release_inv:
  assumes "gov_inv g"
  shows "gov_inv (snd (account_release now i owns outcome throttled retry g))"
  using assms
proof (cases rule: account_release_cases [where now = now and i = i and owns = owns and outcome = outcome
      and throttled = throttled and retry = retry])
  case (released e s)
  have "pstate_ok s" using assms released(4) by (auto simp: gov_inv_def accounts_ok_def)
  then show ?thesis
    using commit_outcome_inv(1) [OF assms released(1,3) refl released(4)] next_pstate_ok released(5,6) by simp
qed (use assms in auto)

lemma gov_inv_leases:
  assumes inv: "gov_inv g"
    and h: "\<And>k. held k (map_of ls) = held k (leases_of g)"
    and u: "\<And>j d. map_of ls j = Some d \<Longrightarrow> \<not> le_resource_released d \<Longrightarrow>
              \<exists>d'. leases_of g j = Some d' \<and> \<not> le_resource_released d' \<and> le_key d' = le_key d"
    and d: "distinct (map fst ls)"
  shows "gov_inv (g\<lparr>pg_active_leases := ls\<rparr>)"
proof -
  have "states_of g (le_key d) \<noteq> None" if "map_of ls j = Some d" "\<not> le_resource_released d" for j d
  proof -
    from u [OF that] obtain d' where "leases_of g j = Some d'" "\<not> le_resource_released d'"
      "le_key d' = le_key d" by blast
    then show ?thesis using accounts_ok_lease [of g j d'] inv by (simp add: gov_inv_def)
  qed
  then show ?thesis
    using inv h d by (auto simp: gov_inv_def registry_ok_def idle_ok_def accounts_ok_def)
qed

lemma clear_ticket_inv:
  assumes inv: "gov_inv g"
  shows "gov_inv (clear_ticket i c g)"
proof (cases "authoritative i (\<lambda>e. le_capability e = c) g")
  case None
  then show ?thesis using inv by (simp add: clear_ticket_def)
next
  case (Some e)
  then have e: "leases_of g i = Some e" by (simp add: authoritative_Some)
  have "gov_inv (g\<lparr>pg_active_leases := AList.update i (e\<lparr>le_control_ticket := None\<rparr>) (pg_active_leases g)\<rparr>)"
  proof (rule gov_inv_leases [OF inv])
    show "held k (map_of (AList.update i (e\<lparr>le_control_ticket := None\<rparr>) (pg_active_leases g))) = held k (leases_of g)" for k
      using held_same [where m = "leases_of g" and i = i and e = e and e' = "e\<lparr>le_control_ticket := None\<rparr>" and k = k] e by (simp add: update_conv' leases_of_def)
  qed (use inv e in \<open>auto simp: update_conv' leases_of_def gov_inv_def registry_ok_def distinct_update
      split: if_splits\<close>)
  then show ?thesis using Some by (simp add: clear_ticket_def)
qed

lemma drop_lease_inv:
  assumes inv: "gov_inv g"
  shows "gov_inv (drop_lease i c g)"
proof (cases "authoritative i (\<lambda>e. le_capability e = c \<and> le_resource_released e \<and> le_control_ticket e = None) g")
  case None
  then show ?thesis using inv by (simp add: drop_lease_def)
next
  case (Some e)
  then have e: "leases_of g i = Some e" "le_resource_released e" by (simp_all add: authoritative_Some)
  have "gov_inv (g\<lparr>pg_active_leases := AList.delete i (pg_active_leases g)\<rparr>)"
  proof (rule gov_inv_leases [OF inv])
    show "held k (map_of (AList.delete i (pg_active_leases g))) = held k (leases_of g)" for k
      using held_delete [where m = "leases_of g" and i = i and e = e and k = k] e by (simp add: delete_conv' leases_of_def)
  qed (use inv in \<open>auto simp: delete_conv' leases_of_def gov_inv_def registry_ok_def delete_keys distinct_removeAll
      split: if_splits\<close>)
  then show ?thesis using Some by (simp add: drop_lease_def)
qed

section \<open>Reachable governors\<close>

inductive gov_reach :: "int \<Rightarrow> int option \<Rightarrow> governor \<Rightarrow> bool" for n cpus where
  start: "init_governor n cpus = Inr g \<Longrightarrow> gov_reach n cpus g"
| acquire: "gov_reach n cpus g \<Longrightarrow> try_acquire env key g = Some (r, g') \<Longrightarrow> gov_reach n cpus g'"
| account: "gov_reach n cpus g \<Longrightarrow>
    account_release now i owns outcome throttled retry g = (r, g') \<Longrightarrow> gov_reach n cpus g'"
| clear: "gov_reach n cpus g \<Longrightarrow> gov_reach n cpus (clear_ticket i c g)"
| drop: "gov_reach n cpus g \<Longrightarrow> gov_reach n cpus (drop_lease i c g)"

lemma gov_reach_inv: "gov_reach n cpus g \<Longrightarrow> gov_inv g"
proof (induction rule: gov_reach.induct)
  case (start g)
  then show ?case by (rule init_governor_inv)
next
  case (acquire g env key r g')
  from acquire.IH obtain r2 g2 where "try_acquire env key g = Some (r2, g2)" "gov_inv g2"
    by (rule try_acquire_inv [of g env key])
  with acquire(2) show ?case by simp
next
  case (account g now i owns outcome throttled retry r g')
  then show ?case using account_release_inv [of g now i owns outcome throttled retry] by simp
next
  case (clear g i c)
  then show ?case by (simp add: clear_ticket_inv)
next
  case (drop g i c)
  then show ?case by (simp add: drop_lease_inv)
qed

lemma release_lease_reach:
  assumes "gov_reach n cpus g" "release_lease now retired i owner c outcome throttled retry g = (r, g')"
  shows "gov_reach n cpus g'"
proof -
  obtain x g1 where a: "account_release now i (\<lambda>e. le_owner_id e = owner \<and> le_capability e = c)
      outcome throttled retry g = (x, g1)" by fastforce
  have r: "gov_reach n cpus g1" by (rule gov_reach.account [OF assms(1) a])
  then have "gov_reach n cpus (drop_lease i c g1)" "gov_reach n cpus (drop_lease i c (clear_ticket i c g1))"
    by (auto intro: gov_reach.drop gov_reach.clear)
  then show ?thesis
    using assms(2) a r by (cases x) (auto simp: release_lease_def split: if_splits)
qed

lemma release_lease_capability_reach:
  assumes "gov_reach n cpus g" "release_lease_capability now retired i c g = (r, g')"
  shows "gov_reach n cpus g'"
proof -
  obtain x g1 where a: "account_release now i (\<lambda>e. le_capability e = c) ''neutral'' False None g = (x, g1)"
    by fastforce
  have r: "gov_reach n cpus g1" by (rule gov_reach.account [OF assms(1) a])
  then have "gov_reach n cpus (drop_lease i c g1)" "gov_reach n cpus (drop_lease i c (clear_ticket i c g1))"
    by (auto intro: gov_reach.drop gov_reach.clear)
  then show ?thesis
    using assms(2) a r by (cases x) (auto simp: release_lease_capability_def split: if_splits)
qed

lemma held_length:
  assumes "distinct (map fst ls)"
  shows "held k (map_of ls) = length (filter (\<lambda>(i, e). le_key e = k \<and> \<not> le_resource_released e) ls)"
proof -
  let ?f = "filter (\<lambda>(i, e). le_key e = k \<and> \<not> le_resource_released e) ls"
  have "{i. \<exists>e. map_of ls i = Some e \<and> le_key e = k \<and> \<not> le_resource_released e} = fst ` set ?f"
    (is "?L = ?R")
  proof (rule set_eqI)
    fix i
    have "i \<in> ?L \<longleftrightarrow> (\<exists>e. (i, e) \<in> set ls \<and> le_key e = k \<and> \<not> le_resource_released e)"
      by (simp add: map_of_eq_Some_iff [OF assms])
    also have "\<dots> \<longleftrightarrow> i \<in> ?R" by (auto intro: rev_image_eqI)
    finally show "i \<in> ?L \<longleftrightarrow> i \<in> ?R" .
  qed
  moreover have "distinct (map fst ?f)"
    using assms by (rule distinct_map_filter)
  then have "card (fst ` set ?f) = length ?f" using distinct_card [of "map fst ?f"] by simp
  ultimately show ?thesis by (simp only: held_def)
qed

lemma over_release_frame:
  "pg_over_release_count (mark_released i e (commit_outcome now k s g)) = pg_over_release_count g"
  by (simp add: mark_released_def commit_outcome_def Let_def)

lemma account_release_no_over:
  assumes "gov_inv g"
  shows "pg_over_release_count (snd (account_release now i owns outcome throttled retry g)) = pg_over_release_count g"
  using assms
  by (cases rule: account_release_cases [where now = now and i = i and owns = owns and outcome = outcome
      and throttled = throttled and retry = retry]) (simp_all add: over_release_frame)

section \<open>Properties\<close>

definition sample_env :: acquire_env where
  "sample_env = \<lparr>ae_now = 1, ae_retire = (\<lambda>_. True), ae_reserve_state = Inr 7, ae_reserve_lease = Inr 8,
     ae_construct = Inr 40, ae_capability = 50, ae_activate = None\<rparr>"

definition sample_governor :: governor where
  "sample_governor = snd (the (try_acquire sample_env ''s3'' (projr (init_governor 2 (Some 4)))))"

definition sample_entry :: lease_entry where
  "sample_entry = \<lparr>le_owner_id = 40, le_capability = 50, le_key = ''s3'',
     le_control_ticket = Some 8, le_resource_released = False\<rparr>"

lemma sample_acquire:
  "try_acquire sample_env ''s3'' (projr (init_governor 2 (Some 4))) =
     Some (Inr (Admitted 1 sample_entry), sample_governor)"
proof -
  have "map_option fst (try_acquire sample_env ''s3'' (projr (init_governor 2 (Some 4)))) =
      Some (Inr (Admitted 1 sample_entry))" by code_simp
  then show ?thesis
    by (cases "try_acquire sample_env ''s3'' (projr (init_governor 2 (Some 4)))")
      (auto simp: sample_governor_def)
qed

lemma sample_gov_start: "gov_reach 2 (Some 4) (projr (init_governor 2 (Some 4)))"
  by (rule gov_reach.start) (simp add: init_governor_def)

lemma sample_gov_reach: "gov_reach 2 (Some 4) sample_governor"
  by (rule gov_reach.acquire [OF sample_gov_start sample_acquire])

lemma sample_lease: "leases_of sample_governor 1 = Some sample_entry"
  by code_simp

text \<open>
  C13: in every reachable state, whatever admissions failed half-way and however
  the phases of releases interleave, the in-flight count of an endpoint is the
  number of its leases whose slot is still held, its window lies between 1 and
  64, the registry tracks at most the configured number of endpoints, and no
  endpoint with a held lease has been evicted.
\<close>

theorem in_flight_counts_held_leases:
  assumes "gov_reach n cpus g"
  shows "(\<forall>k s. map_of (pg_states g) k = Some s \<longrightarrow>
      ps_in_flight s = int (length (filter (\<lambda>(i, e). le_key e = k \<and> \<not> le_resource_released e) (pg_active_leases g)))
      \<and> 1 \<le> ps_window s \<and> ps_window s \<le> 64)
    \<and> length (pg_states g) \<le> pg_max_tracked_keys g
    \<and> (\<forall>(i, e) \<in> set (pg_active_leases g). \<not> le_resource_released e \<longrightarrow> map_of (pg_states g) (le_key e) \<noteq> None)"
proof -
  have inv: "registry_ok g" "accounts_ok g" using gov_reach_inv [OF assms] by (simp_all add: gov_inv_def)
  have d: "distinct (map fst (pg_active_leases g))" using inv(1) by (simp add: registry_ok_def)
  have s: "ps_in_flight s = int (length (filter (\<lambda>(i, e). le_key e = k \<and> \<not> le_resource_released e) (pg_active_leases g)))
      \<and> 1 \<le> ps_window s \<and> ps_window s \<le> 64" if "map_of (pg_states g) k = Some s" for k s
    using accounts_okD(1,2) [OF inv(2), of k s] that held_length [OF d, of k]
    by (simp add: states_of_def leases_of_def pstate_ok_def MAX_WINDOW_def)
  have "map_of (pg_states g) (le_key e) \<noteq> None"
    if "(i, e) \<in> set (pg_active_leases g)" "\<not> le_resource_released e" for i e
    using accounts_ok_lease [OF inv(2) _ that(2), of i] that(1) d by (simp add: leases_of_def states_of_def)
  then have "\<forall>(i, e) \<in> set (pg_active_leases g). \<not> le_resource_released e \<longrightarrow> map_of (pg_states g) (le_key e) \<noteq> None"
    by blast
  moreover have "length (pg_states g) \<le> pg_max_tracked_keys g" using inv(1) by (simp add: registry_ok_def)
  ultimately show ?thesis using s by blast
qed

theorem in_flight_counts_held_leases_witness:
  "length (pg_states sample_governor) \<le> pg_max_tracked_keys sample_governor"
  using in_flight_counts_held_leases [OF sample_gov_reach] by blast

text \<open>
  C14: an acquisition always returns; when it admits a request, the lease number
  was unused, the endpoint's circuit is closed, the endpoint has at most as
  many requests in flight as its window, and no other endpoint's held leases
  changed.  Otherwise no lease was issued at all.
\<close>

theorem admission_respects_window:
  assumes "gov_reach n cpus g"
  shows "\<exists>r g'. try_acquire env key g = Some (r, g') \<and> gov_inv g' \<and>
    (case r of
       Inr (Admitted i e) \<Rightarrow> leases_of g i = None \<and> leases_of g' = (leases_of g)(i \<mapsto> e)
         \<and> (\<exists>s. map_of (pg_states g') key = Some s \<and> ps_circuit_open_until s \<le> ae_now env
              \<and> 1 \<le> ps_in_flight s \<and> ps_in_flight s \<le> ps_window s)
     | _ \<Rightarrow> pg_active_leases g' = pg_active_leases g)"
proof -
  obtain r g' where g': "try_acquire env key g = Some (r, g')" "gov_inv g'"
    "(\<nexists>i e. r = Inr (Admitted i e)) \<Longrightarrow> pg_active_leases g' = pg_active_leases g"
    and adm: "\<And>i e. r = Inr (Admitted i e) \<Longrightarrow> leases_of g i = None \<and> leases_of g' = (leases_of g)(i \<mapsto> e)
       \<and> le_key e = key \<and> \<not> le_resource_released e \<and> 1 \<le> i \<and> i \<le> MAX_TOKEN
       \<and> (\<exists>s. states_of g' key = Some s \<and> ps_circuit_open_until s \<le> ae_now env \<and> ps_in_flight s \<le> ps_window s)"
    by (rule try_acquire_inv [OF gov_reach_inv [OF assms], of env key]) (rule that)
  have acc: "accounts_ok g'" using g'(2) by (simp add: gov_inv_def)
  have "1 \<le> ps_in_flight s" if r: "r = Inr (Admitted i e)" and s: "states_of g' key = Some s" for i e s
  proof -
    have e: "leases_of g' i = Some e" "\<not> le_resource_released e" "le_key e = key" using adm [OF r] by auto
    have "0 < held key (leases_of g')"
      using held_release(2) [OF finite_leases e(1,2), of "e\<lparr>le_resource_released := True\<rparr>"] e(3) by simp
    then show ?thesis using accounts_okD(2) [OF acc s] by simp
  qed
  then show ?thesis
    using g' adm by (auto simp: states_of_def split: sum.split admission.split)
qed

theorem admission_respects_window_witness:
  "leases_of (projr (init_governor 2 (Some 4))) 1 = None"
  using admission_respects_window [OF sample_gov_start, of sample_env "''s3''"] sample_acquire by simp

text \<open>
  C19: the slot of a lease is given back exactly once.  Accounting the release
  of the same lease a second time, by the same or by another caller and with
  any outcome, changes nothing; the first one lowers the in-flight count of
  the lease's endpoint by one and leaves every other endpoint as it was.
\<close>

theorem lease_slot_released_once:
  assumes "gov_reach n cpus g" and "leases_of g i = Some e" and "\<not> le_resource_released e"
    and "account_release now i owns outcome throttled retry g = (Inr t, g1)"
    and "account_release now' i owns' outcome' throttled' retry' g1 = (Inr t', g2)"
  shows "g2 = g1 \<and> t' = t \<and> (\<forall>k. k \<noteq> le_key e \<longrightarrow> states_of g1 k = states_of g k) \<and>
    (\<exists>s s'. states_of g (le_key e) = Some s \<and> states_of g1 (le_key e) = Some s'
       \<and> ps_in_flight s' = ps_in_flight s - 1)"
proof -
  note inv = gov_reach_inv [OF assms(1)]
  from inv show ?thesis
  proof (cases rule: account_release_cases [where now = now and i = i and owns = owns and outcome = outcome
      and throttled = throttled and retry = retry])
    case (released e' s)
    then have [simp]: "e' = e" using assms(2) by simp
    have ok: "pstate_ok s" using inv released(4) by (auto simp: gov_inv_def accounts_ok_def)
    have g1: "g1 = mark_released i e (commit_outcome now (le_key e) (next_pstate now outcome throttled retry s) g)"
      "t = le_control_ticket e"
      using assms(4) released(6) by auto
    note c = commit_outcome_inv [OF inv assms(2,3) refl _ next_pstate_ok [OF ok released(5)],
        of now now outcome throttled retry]
    have st: "states_of g (le_key e) = Some s" using released(4) by simp
    have l1: "leases_of g1 i = Some (e\<lparr>le_resource_released := True\<rparr>)" and i1: "gov_inv g1"
      and s1: "states_of g1 = (states_of g)(le_key e \<mapsto> next_pstate now outcome throttled retry s)"
      using c [OF st] by (simp_all add: g1)
    from i1 have "g2 = g1 \<and> t' = t"
      by (cases rule: account_release_cases [where now = now' and i = i and owns = owns' and outcome = outcome'
          and throttled = throttled' and retry = retry']) (use assms(5) l1 g1(2) in auto)
    then show ?thesis using s1 st next_pstate_ok(2) [OF ok released(5)] by simp
  qed (use assms(2-4) in auto)
qed

lemma inr_pair: "fst p = Inr t \<Longrightarrow> p = (Inr t, snd p)"
  by (cases p) simp

theorem lease_slot_released_once_witness:
  "\<exists>g1. account_release 2 1 (\<lambda>_. True) ''success'' False None sample_governor = (Inr (Some 8), g1)
     \<and> account_release 3 1 (\<lambda>_. True) ''failure'' True None g1 = (Inr (Some 8), g1)"
proof -
  let ?a = "account_release 2 1 (\<lambda>_. True) ''success'' False None sample_governor"
  let ?b = "account_release 3 1 (\<lambda>_. True) ''failure'' True None (snd ?a)"
  have a: "?a = (Inr (Some 8), snd ?a)" by (rule inr_pair) code_simp
  have b: "?b = (Inr (Some 8), snd ?b)" by (rule inr_pair) code_simp
  have "\<not> le_resource_released sample_entry" by (simp add: sample_entry_def)
  from lease_slot_released_once [OF sample_gov_reach sample_lease this a b] show ?thesis
    using a b by metis
qed

text \<open>
  One outcome moves the window by at most one upwards or to the half
  downwards, always within 1 and 64; the fifth failure in a row opens the
  circuit for at least a second; no outcome opens it for more than 300 seconds
  from now; a success closes it.
\<close>

theorem outcome_moves_window_within_bounds:
  assumes "pstate_ok s" and "0 < ps_in_flight s" and "s' = next_pstate now outcome throttled retry s"
  shows "1 \<le> ps_window s' \<and> ps_window s' \<le> min 64 (ps_window s + 1)
    \<and> (outcome = ''failure'' \<and> throttled \<longrightarrow> ps_window s' = max 1 (ps_window s div 2))
    \<and> (outcome = ''failure'' \<and> ps_consecutive_failures s \<ge> 4 \<longrightarrow> now + 1 \<le> ps_circuit_open_until s')
    \<and> (outcome = ''success'' \<longrightarrow> ps_circuit_open_until s' = 0)
    \<and> ps_circuit_open_until s' \<le> max (max 0 (ps_circuit_open_until s)) (now + 300)"
proof -
  have w: "1 \<le> ps_window s" "ps_window s \<le> 64" "0 \<le> ps_window s div 2" "ps_window s div 2 \<le> ps_window s"
    using assms(1) by (auto simp: pstate_ok_def MAX_WINDOW_def)
  have one: "(1::rat) \<le> min 30 (2 ^ m)" for m by (simp add: one_le_power)
  have cap: "min 30 (2 ^ m) \<le> (300::rat)" "min 300 (max 0 x) \<le> (300::rat)" for m x by auto
  have "1 \<le> ps_window s' \<and> ps_window s' \<le> min 64 (ps_window s + 1)"
    using next_pstate_ok(1) [OF assms(1,2)] w
    by (auto simp: assms(3) pstate_ok_def MAX_WINDOW_def next_pstate_def on_success_def on_failure_def Let_def)
  moreover have "ps_window s' = max 1 (ps_window s div 2)" if "outcome = ''failure''" "throttled"
    using that by (simp add: assms(3) next_pstate_def on_failure_def Let_def)
  moreover have "now + 1 \<le> ps_circuit_open_until s'" if "outcome = ''failure''" "ps_consecutive_failures s \<ge> 4"
    using that one [of "nat (min 5 (ps_consecutive_failures s - 4))"]
    by (simp add: assms(3) next_pstate_def on_failure_def Let_def CIRCUIT_THRESHOLD_def le_max_iff_disj)
  moreover have "ps_circuit_open_until s' = 0" if "outcome = ''success''"
    using that by (simp add: assms(3) next_pstate_def on_success_def Let_def)
  moreover have "ps_circuit_open_until s' \<le> max (max 0 (ps_circuit_open_until s)) (now + 300)"
    using cap by (auto simp: assms(3) next_pstate_def on_success_def on_failure_def Let_def le_max_iff_disj
        split: option.split)
  ultimately show ?thesis by blast
qed

theorem outcome_moves_window_within_bounds_witness:
  "ps_window (next_pstate 10 ''failure'' True (Some 5) ((new_pstate 8 3)\<lparr>ps_in_flight := 1, ps_peak_in_flight := 1\<rparr>)) = 4"
proof -
  let ?s = "(new_pstate 8 3)\<lparr>ps_in_flight := 1, ps_peak_in_flight := 1\<rparr>"
  have "pstate_ok ?s" "0 < ps_in_flight ?s" by (simp_all add: pstate_ok_def new_pstate_def MAX_WINDOW_def)
  from outcome_moves_window_within_bounds [OF this refl, of 10 "''failure''" True "Some 5"]
  show ?thesis by (simp add: new_pstate_def)
qed

text \<open>
  C28: the loop that promotes expired circuits terminates; afterwards nothing is
  due, no endpoint state and no lease has changed, and every idle endpoint
  whose circuit expired can be evicted.
\<close>

theorem promotion_terminates:
  assumes "gov_reach n cpus g"
  shows "\<exists>g'. promote_expired now g = Some g' \<and> pg_states g' = pg_states g
    \<and> pg_active_leases g' = pg_active_leases g \<and> first_expired (Due now) (pg_expiry_heap g') = None
    \<and> (\<forall>k s t. map_of (pg_states g) k = Some s \<longrightarrow> ps_in_flight s = 0 \<longrightarrow>
         entries (pg_expiry_heap g) k = Some (Due t) \<longrightarrow> t \<le> now \<longrightarrow> k \<in> set (pg_inactive_keys g'))"
proof -
  note inv = gov_reach_inv [OF assms]
  obtain g' where g': "promote_expired now g = Some g'" "gov_inv g'" "pg_states g' = pg_states g"
    "pg_active_leases g' = pg_active_leases g" "eh.due_keys (Due now) (pg_expiry_heap g') = {}"
    and idle: "\<And>k s. k \<in> eh.due_keys (Due now) (pg_expiry_heap g) \<Longrightarrow> states_of g k = Some s \<Longrightarrow>
       ps_in_flight s = 0 \<Longrightarrow> ps_circuit_open_until s \<le> now \<Longrightarrow> k \<in> set (pg_inactive_keys g')"
    using promote_expired_returns [OF inv, of now] by blast
  have "heap_ok (pg_expiry_heap g')" using g'(2) by (simp add: gov_inv_def registry_ok_def)
  then have "first_expired (Due now) (pg_expiry_heap g') = None" using eh.none_due g'(5) by blast
  moreover have "k \<in> set (pg_inactive_keys g')"
    if "map_of (pg_states g) k = Some s" "ps_in_flight s = 0"
      "entries (pg_expiry_heap g) k = Some (Due t)" "t \<le> now" for k s t
  proof -
    have s: "states_of g k = Some s" using that(1) by (simp add: states_of_def)
    have "t = ps_circuit_open_until s"
      using inv accounts_okD(3) [OF _ s that(3)] by (simp add: gov_inv_def)
    moreover have "k \<in> eh.due_keys (Due now) (pg_expiry_heap g)"
      using that(3,4) by (auto simp: eh.due_keys_def)
    ultimately show ?thesis using idle s that by blast
  qed
  ultimately show ?thesis using g' by blast
qed

theorem promotion_terminates_witness:
  "\<exists>g'. promote_expired 5 sample_governor = Some g' \<and> pg_states g' = pg_states sample_governor"
  using promotion_terminates [OF sample_gov_reach, of 5] by blast

text \<open>
  When the control-plane ticket of a lease cannot be retired, releasing the
  lease raises and leaves the lease active; retrying it later succeeds, drops
  the ledger entry and does not give the slot back a second time.
\<close>

theorem failed_release_is_retryable:
  assumes "gov_reach n cpus g" and "leases_of g (rl_lease_id l) = Some e"
    and "le_owner_id e = rl_owner_id l" and "le_capability e = rl_capability l"
    and "\<not> le_resource_released e" and "le_control_ticket e = Some t" and "rl_state l = Active"
    and "outcome \<in> {''success'', ''failure'', ''neutral''}"
  shows "\<exists>err g1 l2 g2. release_outcome True now False outcome throttled retry l g = (Inl err, l, g1)
    \<and> release_outcome True now' True outcome' throttled' retry' l g1 = (Inr True, l2, g2)
    \<and> rl_state l2 = Released \<and> rl_finalizer_ticket l2 = 0
    \<and> leases_of g2 (rl_lease_id l) = None \<and> pg_states g2 = pg_states g1"
proof -
  let ?i = "rl_lease_id l" and ?c = "rl_capability l"
  let ?owns = "\<lambda>e. le_owner_id e = rl_owner_id l \<and> le_capability e = rl_capability l"
  note inv = gov_reach_inv [OF assms(1)]
  have "\<exists>g1. account_release now ?i ?owns outcome throttled retry g = (Inr (Some t), g1) \<and> gov_inv g1
      \<and> leases_of g1 ?i = Some (e\<lparr>le_resource_released := True\<rparr>)"
    using inv
  proof (cases rule: account_release_cases [where now = now and i = ?i and owns = ?owns and outcome = outcome
      and throttled = throttled and retry = retry])
    case (released e' s)
    then have e': "e' = e" using assms(2) by simp
    have ok: "pstate_ok s" using inv released(4) by (auto simp: gov_inv_def accounts_ok_def)
    have st: "states_of g (le_key e) = Some s" using released(4) e' by simp
    note c = commit_outcome_inv [OF inv assms(2,5) refl st next_pstate_ok [OF ok released(5)]]
    show ?thesis using released(6) c(1,3) assms(6) by (simp add: e')
  qed (use assms in auto)
  then obtain g1 where a: "account_release now ?i ?owns outcome throttled retry g = (Inr (Some t), g1)"
    and l1: "leases_of g1 ?i = Some (e\<lparr>le_resource_released := True\<rparr>)" by blast
  have auth1: "authoritative ?i ?owns g1 = Some (e\<lparr>le_resource_released := True\<rparr>)"
    using l1 assms(3,4) by (simp add: authoritative_Some)
  then have b: "account_release now' ?i ?owns outcome' throttled' retry' g1 = (Inr (Some t), g1)"
    using assms(6) by (simp add: account_release_def)
  let ?g2 = "clear_ticket ?i ?c g1"
  have l2: "leases_of ?g2 ?i = Some (e\<lparr>le_resource_released := True, le_control_ticket := None\<rparr>)"
    using l1 assms(4) by (simp add: clear_ticket_def authoritative_def leases_of_def update_conv')
  have s2: "pg_states ?g2 = pg_states g1" by (simp add: clear_ticket_def split: option.split)
  have d: "drop_lease ?i ?c ?g2 = ?g2\<lparr>pg_active_leases := AList.delete ?i (pg_active_leases ?g2)\<rparr>"
    using l2 assms(4) by (simp add: drop_lease_def authoritative_def leases_of_def)
  have r1: "release_outcome True now False outcome throttled retry l g =
      (Inl (RuntimeError ''provider request control-plane retirement did not commit''), l, g1)"
    using a assms(7) by (simp add: release_outcome_def release_lease_def)
  have r2: "release_outcome True now' True outcome' throttled' retry' l g1 =
      (Inr True, acknowledge_finalizer_slot (l\<lparr>rl_state := Released\<rparr>), drop_lease ?i ?c ?g2)"
    using b assms(7) by (simp add: release_outcome_def release_lease_def)
  have "leases_of (drop_lease ?i ?c ?g2) ?i = None" "pg_states (drop_lease ?i ?c ?g2) = pg_states g1"
    using d s2 by (simp_all add: delete_conv')
  then show ?thesis using r1 r2 by (auto simp: acknowledge_finalizer_slot_def)
qed

theorem failed_release_is_retryable_witness:
  "\<exists>err g1 l2 g2. release_outcome True 2 False ''success'' False None
      \<lparr>rl_lease_id = 1, rl_owner_id = 40, rl_capability = 50, rl_state = Active, rl_finalizer_ticket = 9\<rparr>
      sample_governor = (Inl err, \<lparr>rl_lease_id = 1, rl_owner_id = 40, rl_capability = 50, rl_state = Active,
        rl_finalizer_ticket = 9\<rparr>, g1)
    \<and> release_outcome True 3 True ''success'' False None
      \<lparr>rl_lease_id = 1, rl_owner_id = 40, rl_capability = 50, rl_state = Active, rl_finalizer_ticket = 9\<rparr>
      g1 = (Inr True, l2, g2) \<and> rl_state l2 = Released"
  using failed_release_is_retryable [OF sample_gov_reach, of
      "\<lparr>rl_lease_id = 1, rl_owner_id = 40, rl_capability = 50, rl_state = Active, rl_finalizer_ticket = 9\<rparr>"
      sample_entry 8 "''success''" 2 False None 3 "''success''" False None] sample_lease
  by (simp add: sample_entry_def) blast


end
