(* ===== verification/Coordination_Journal.thy ===== *)
theory Coordination_Journal
  imports Complex_Main Prelude
begin

text \<open>
  Model of \<^verbatim>\<open>core_impl/coordination_journal.py\<close>: a document that several
  processes update in place under a file lock, made crash-safe by a sidecar
  journal with the images before and after the update.  The file system is the
  contents of the document, of the journal and of its staging file.  A commit is
  a list of elementary updates (single bytes reach a file one by one, a rename
  is atomic), so that a crash is a prefix of that list; failures the process
  survives are an argument of the functional version.  The JSON text of the
  header and the checksum are arguments (\<open>dumps\<close>, \<open>loads\<close>, \<open>digest\<close>).
\<close>

section \<open>Journal records\<close>

type_synonym bytes = "8 word list"

datatype phase = Prepared | Committed

record journal_record =
  jr_phase :: phase
  jr_pid :: int
  jr_start :: string
  jr_before :: bytes
  jr_after :: bytes

record header =
  hd_version :: int
  hd_phase :: string
  hd_pid :: int
  hd_start :: string
  hd_before_length :: int
  hd_after_length :: int
  hd_before_sha256 :: string
  hd_after_sha256 :: string

record codec =
  dumps :: "header \<Rightarrow> bytes"
  loads :: "bytes \<Rightarrow> header option"
  digest :: "bytes \<Rightarrow> string"

definition JOURNAL_VERSION :: int where "JOURNAL_VERSION = 1"
definition MAX_HEADER_BYTES :: nat where "MAX_HEADER_BYTES = 4096"

primrec phase_name :: "phase \<Rightarrow> string" where
  "phase_name Prepared = ''prepared''"
| "phase_name Committed = ''committed''"

definition newline :: "8 word" where "newline = 10"

record file_stat =
  st_regular :: bool
  st_nlink :: nat
  st_uid :: nat

definition validate_owned_regular :: "nat option \<Rightarrow> file_stat \<Rightarrow> string \<Rightarrow> unit result" where
  "validate_owned_regular euid metadata label =
     (if \<not> st_regular metadata then Inl (OSError (label @ '' must be a regular file''))
      else if st_nlink metadata \<noteq> 1 then Inl (OSError (label @ '' must not have additional hard links''))
      else case euid of
             Some u \<Rightarrow> if st_uid metadata \<noteq> u
                       then Inl (OSError (label @ '' must be owned by the current user'')) else Inr ()
           | None \<Rightarrow> Inr ())"

definition header_of :: "codec \<Rightarrow> journal_record \<Rightarrow> header" where
  "header_of c r =
     \<lparr>hd_version = JOURNAL_VERSION, hd_phase = phase_name (jr_phase r), hd_pid = jr_pid r,
      hd_start = take 128 (jr_start r),
      hd_before_length = int (length (jr_before r)), hd_after_length = int (length (jr_after r)),
      hd_before_sha256 = digest c (jr_before r), hd_after_sha256 = digest c (jr_after r)\<rparr>"

definition encode_header :: "codec \<Rightarrow> nat \<Rightarrow> journal_record \<Rightarrow> bytes result" where
  "encode_header c max_payload_bytes r =
     (if length (jr_before r) > max_payload_bytes \<or> length (jr_after r) > max_payload_bytes
      then Inl (OSError ''coordination journal payload exceeds its bounded size'')
      else let encoded = dumps c (header_of c r) in
        if length encoded > MAX_HEADER_BYTES
        then Inl (OSError ''coordination journal header exceeds its bounded size'')
        else Inr encoded)"

definition journal_image :: "codec \<Rightarrow> nat \<Rightarrow> journal_record \<Rightarrow> bytes result" where
  "journal_image c max_payload_bytes r =
     rlift (\<lambda>header. header @ [newline] @ jr_before r @ jr_after r) (encode_header c max_payload_bytes r)"

section \<open>Reading a journal\<close>

definition readline :: "nat \<Rightarrow> bytes \<Rightarrow> bytes" where
  "readline n bs =
     take n (if newline \<in> set bs then takeWhile (\<lambda>b. b \<noteq> newline) bs @ [newline] else bs)"

definition corrupt :: pyerr where
  "corrupt = OSError ''coordination journal is corrupt''"

definition parse_phase :: "string \<Rightarrow> phase result" where
  "parse_phase p =
     (if p = ''prepared'' then Inr Prepared else if p = ''committed'' then Inr Committed
      else Inl (OSError ''coordination journal has an invalid phase''))"

definition lengths_ok :: "nat \<Rightarrow> nat \<Rightarrow> nat \<Rightarrow> header \<Rightarrow> bool" where
  "lengths_ok max_payload_bytes st_size line h \<longleftrightarrow>
     \<not> (hd_pid h \<le> 0 \<or> hd_before_length h < 0 \<or> hd_after_length h < 0
        \<or> hd_before_length h > int max_payload_bytes \<or> hd_after_length h > int max_payload_bytes
        \<or> int st_size \<noteq> int line + hd_before_length h + hd_after_length h)"

definition read_payload :: "codec \<Rightarrow> header \<Rightarrow> phase \<Rightarrow> bytes \<Rightarrow> journal_record result" where
  "read_payload c h phase rest =
     (let nb = nat (hd_before_length h); na = nat (hd_after_length h);
          before = take nb rest; after = take na (drop nb rest); tail = drop (nb + na) rest in
      if length before \<noteq> nb \<or> length after \<noteq> na \<or> tail \<noteq> [] then Inl corrupt
      else if hd_before_sha256 h \<noteq> digest c before \<or> hd_after_sha256 h \<noteq> digest c after
      then Inl (OSError ''coordination journal checksum mismatch'')
      else Inr \<lparr>jr_phase = phase, jr_pid = hd_pid h, jr_start = hd_start h,
                jr_before = before, jr_after = after\<rparr>)"

definition parse_journal :: "codec \<Rightarrow> nat \<Rightarrow> bytes \<Rightarrow> journal_record result" where
  "parse_journal c max_payload_bytes content =
     (let line = readline (MAX_HEADER_BYTES + 2) content in
      if line = [] \<or> last line \<noteq> newline \<or> length line > MAX_HEADER_BYTES + 1 then Inl corrupt
      else case loads c (butlast line) of
             None \<Rightarrow> Inl corrupt
           | Some h \<Rightarrow>
               if hd_version h \<noteq> JOURNAL_VERSION
               then Inl (OSError ''coordination journal has an unsupported version'')
               else rbind (parse_phase (hd_phase h)) (\<lambda>phase.
                 if \<not> lengths_ok max_payload_bytes (length content) (length line) h then Inl corrupt
                 else read_payload c h phase (drop (length line) content)))"

definition read_record ::
  "codec \<Rightarrow> nat option \<Rightarrow> file_stat \<Rightarrow> nat \<Rightarrow> bytes option \<Rightarrow> journal_record option result" where
  "read_record c euid metadata max_payload_bytes journal =
     (case journal of
        None \<Rightarrow> Inr None
      | Some content \<Rightarrow>
          if \<not> is_ok (validate_owned_regular euid metadata ''coordination journal'')
             \<or> length content > MAX_HEADER_BYTES + 1 + 2 * max_payload_bytes
          then Inl (OSError ''coordination journal cannot be opened safely'')
          else rlift Some (parse_journal c max_payload_bytes content))"

section \<open>The file system\<close>

record files =
  main_doc :: bytes
  journal_file :: "bytes option"
  staging_file :: "bytes option"

definition truncate_main :: "files \<Rightarrow> files" where
  "truncate_main fs = fs\<lparr>main_doc := []\<rparr>"

definition append_main :: "8 word \<Rightarrow> files \<Rightarrow> files" where
  "append_main b fs = fs\<lparr>main_doc := main_doc fs @ [b]\<rparr>"

definition write_main_steps :: "bytes \<Rightarrow> (files \<Rightarrow> files) list" where
  "write_main_steps payload = truncate_main # map append_main payload"

definition append_staging :: "8 word \<Rightarrow> files \<Rightarrow> files" where
  "append_staging b fs = fs\<lparr>staging_file := Some (the (staging_file fs) @ [b])\<rparr>"

definition publish_steps :: "bytes \<Rightarrow> (files \<Rightarrow> files) list" where
  "publish_steps img =
     (\<lambda>fs. fs\<lparr>staging_file := Some []\<rparr>) # map append_staging img
     @ [\<lambda>fs. fs\<lparr>journal_file := staging_file fs, staging_file := None\<rparr>]"

definition remove_journal_step :: "files \<Rightarrow> files" where
  "remove_journal_step fs = fs\<lparr>journal_file := None\<rparr>"

section \<open>Recovery\<close>

definition recovery_target :: "(int \<Rightarrow> string \<Rightarrow> bool) \<Rightarrow> journal_record \<Rightarrow> bytes" where
  "recovery_target process_alive r =
     (if jr_phase r = Committed \<or> \<not> process_alive (jr_pid r) (jr_start r) then jr_after r else jr_before r)"

definition recover_steps ::
  "codec \<Rightarrow> nat option \<Rightarrow> file_stat \<Rightarrow> nat \<Rightarrow> (int \<Rightarrow> string \<Rightarrow> bool) \<Rightarrow> files
   \<Rightarrow> (bytes \<times> (files \<Rightarrow> files) list) result" where
  "recover_steps c euid metadata max_payload_bytes process_alive fs =
     (let current = take (max_payload_bytes + 1) (main_doc fs) in
      rlift (\<lambda>found. case found of
              None \<Rightarrow> (current, [])
            | Some r \<Rightarrow>
                let target = recovery_target process_alive r in
                (target, (if current \<noteq> target then write_main_steps target else []) @ [remove_journal_step]))
        (read_record c euid metadata max_payload_bytes (journal_file fs)))"

definition recover_locked_payload ::
  "codec \<Rightarrow> nat option \<Rightarrow> file_stat \<Rightarrow> nat \<Rightarrow> (int \<Rightarrow> string \<Rightarrow> bool) \<Rightarrow> files \<Rightarrow> bytes result \<times> files" where
  "recover_locked_payload c euid metadata max_payload_bytes process_alive fs =
     (case recover_steps c euid metadata max_payload_bytes process_alive fs of
        Inl err \<Rightarrow> (Inl err, fs)
      | Inr (target, steps) \<Rightarrow> (Inr target, apply_all steps fs))"

section \<open>Commit\<close>

definition journal_for :: "phase \<Rightarrow> int \<Rightarrow> string \<Rightarrow> bytes \<Rightarrow> bytes \<Rightarrow> journal_record" where
  "journal_for ph pid start before after =
     \<lparr>jr_phase = ph, jr_pid = pid, jr_start = start, jr_before = before, jr_after = after\<rparr>"

definition commit_steps ::
  "codec \<Rightarrow> nat \<Rightarrow> int \<Rightarrow> string \<Rightarrow> bytes \<Rightarrow> bytes \<Rightarrow> (files \<Rightarrow> files) list result" where
  "commit_steps c max_payload_bytes pid process_start before after =
     (if before = after then Inr []
      else if length after > max_payload_bytes
      then Inl (OSError ''coordination state exceeds its bounded file size'')
      else rbind (journal_image c max_payload_bytes (journal_for Prepared pid process_start before after)) (\<lambda>prepared.
           rlift (\<lambda>committed. publish_steps prepared @ write_main_steps after
                  @ publish_steps committed @ [remove_journal_step])
             (journal_image c max_payload_bytes (journal_for Committed pid process_start before after))))"

text \<open>
  A call that the process survives: publishing a record may raise before or
  after the rename, writing the document may stop after some bytes, removing
  the journal may fail silently.
\<close>

datatype publish_outcome = Published | Failed_Before_Rename | Failed_After_Rename

record commit_env =
  ce_prepared :: publish_outcome
  ce_written :: "nat option"
  ce_committed :: publish_outcome
  ce_restored :: "nat option"
  ce_removed :: bool
  ce_error :: pyerr

definition publish_record :: "publish_outcome \<Rightarrow> bytes \<Rightarrow> files \<Rightarrow> files" where
  "publish_record outcome img fs =
     (if outcome = Failed_Before_Rename then fs\<lparr>staging_file := None\<rparr>
      else fs\<lparr>journal_file := Some img, staging_file := None\<rparr>)"

definition write_main :: "nat option \<Rightarrow> bytes \<Rightarrow> files \<Rightarrow> files" where
  "write_main stop payload fs =
     fs\<lparr>main_doc := (case stop of None \<Rightarrow> payload | Some n \<Rightarrow> take n payload)\<rparr>"

definition remove_journal :: "bool \<Rightarrow> files \<Rightarrow> files" where
  "remove_journal removed fs = (if removed then fs\<lparr>journal_file := None\<rparr> else fs)"

definition commit_locked_payload ::
  "codec \<Rightarrow> commit_env \<Rightarrow> nat \<Rightarrow> int \<Rightarrow> string \<Rightarrow> bytes \<Rightarrow> bytes \<Rightarrow> files \<Rightarrow> unit result \<times> files" where
  "commit_locked_payload c env max_payload_bytes pid process_start before after fs =
     (if before = after then (Inr (), fs)
      else if length after > max_payload_bytes
      then (Inl (OSError ''coordination state exceeds its bounded file size''), fs)
      else case journal_image c max_payload_bytes (journal_for Prepared pid process_start before after) of
             Inl err \<Rightarrow> (Inl err, fs)
           | Inr prepared \<Rightarrow>
               let fs1 = publish_record (ce_prepared env) prepared fs in
               if ce_prepared env \<noteq> Published then (Inl (ce_error env), fs1)
               else let fs2 = write_main (ce_written env) after fs1 in
               if ce_written env \<noteq> None then (Inl (ce_error env), fs2)
               else case journal_image c max_payload_bytes (journal_for Committed pid process_start before after) of
                      Inl err \<Rightarrow>
                        let fs3 = write_main (ce_restored env) before fs2 in
                        if ce_restored env \<noteq> None then (Inl (ce_error env), fs3)
                        else (Inl err, remove_journal (ce_removed env) fs3)
                    | Inr committed \<Rightarrow>
                        let fs3 = publish_record (ce_committed env) committed fs2 in
                        if ce_committed env = Published then (Inr (), remove_journal (ce_removed env) fs3)
                        else let fs4 = write_main (ce_restored env) before fs3 in
                             if ce_restored env \<noteq> None then (Inl (ce_error env), fs4)
                             else (Inl (ce_error env), remove_journal (ce_removed env) fs4))"

section \<open>Waiting for the lock\<close>

datatype lock_attempt = Acquired | Blocked rat | Interrupted_At rat

fun lock_loop :: "rat \<Rightarrow> lock_attempt list \<Rightarrow> unit result option \<times> rat list" where
  "lock_loop deadline [] = (None, [])"
| "lock_loop deadline (Acquired # rest) = (Some (Inr ()), [])"
| "lock_loop deadline (Blocked now # rest) =
     (let remaining = deadline - now in
      if remaining \<le> 0
      then (Some (Inl (TimeoutError ''timed out waiting for the interprocess coordination lock'')), [])
      else let (r, sleeps) = lock_loop deadline rest in (r, min (1 / 20) remaining # sleeps))"
| "lock_loop deadline (Interrupted_At now # rest) =
     (if now \<ge> deadline
      then (Some (Inl (TimeoutError ''timed out waiting for the interprocess coordination lock'')), [])
      else lock_loop deadline rest)"

section \<open>Round trip of a record\<close>

definition codec_ok :: "codec \<Rightarrow> bool" where
  "codec_ok c \<longleftrightarrow> (\<forall>h. loads c (dumps c h) = Some h) \<and> (\<forall>h. newline \<notin> set (dumps c h))"

lemma readline_header:
  assumes "newline \<notin> set hdr" "length hdr < n"
  shows "readline n (hdr @ newline # rest) = hdr @ [newline]"
proof -
  have "takeWhile (\<lambda>b. b \<noteq> newline) (hdr @ newline # rest) = hdr"
    using assms(1) by (subst takeWhile_append2) auto
  then show ?thesis using assms(2) by (simp add: readline_def)
qed

lemma parse_phase_name [simp]: "parse_phase (phase_name p) = Inr p"
  by (cases p) (simp_all add: parse_phase_def)

lemma journal_imageD:
  assumes "journal_image c m r = Inr img"
  shows "img = dumps c (header_of c r) @ newline # jr_before r @ jr_after r"
    "length (dumps c (header_of c r)) \<le> MAX_HEADER_BYTES"
    "length (jr_before r) \<le> m" "length (jr_after r) \<le> m"
  using assms by (auto simp: journal_image_def encode_header_def Let_def split: if_splits)

lemma parse_journal_image:
  assumes c: "codec_ok c" and img: "journal_image c m r = Inr img" and pid: "0 < jr_pid r"
  shows "parse_journal c m img = Inr (r\<lparr>jr_start := take 128 (jr_start r)\<rparr>)"
    "length img \<le> MAX_HEADER_BYTES + 1 + 2 * m"
proof -
  let ?h = "header_of c r"
  let ?line = "dumps c ?h @ [newline]"
  note d = journal_imageD [OF img]
  have nl: "newline \<notin> set (dumps c ?h)" and ld: "loads c (dumps c ?h) = Some ?h"
    using c by (auto simp: codec_ok_def)
  have line: "readline (MAX_HEADER_BYTES + 2) img = ?line"
    unfolding d(1) using nl d(2) by (intro readline_header) auto
  have rest: "drop (length ?line) img = jr_before r @ jr_after r" by (simp add: d(1))
  have ok: "lengths_ok m (length img) (length ?line) ?h"
    using pid d(3,4) by (simp add: lengths_ok_def header_of_def d(1))
  have pay: "read_payload c ?h (jr_phase r) (jr_before r @ jr_after r) = Inr (r\<lparr>jr_start := take 128 (jr_start r)\<rparr>)"
    by (simp add: read_payload_def header_of_def Let_def)
  have ver: "hd_version ?h = JOURNAL_VERSION" by (simp add: header_of_def)
  have "parse_journal c m img =
      rbind (parse_phase (hd_phase ?h)) (\<lambda>phase.
        if \<not> lengths_ok m (length img) (length ?line) ?h then Inl corrupt
        else read_payload c ?h phase (drop (length ?line) img))"
    using d(2) ld ver unfolding parse_journal_def line by (simp add: Let_def)
  also have "\<dots> = Inr (r\<lparr>jr_start := take 128 (jr_start r)\<rparr>)"
    using ok pay rest by (simp add: header_of_def)
  finally show "parse_journal c m img = Inr (r\<lparr>jr_start := take 128 (jr_start r)\<rparr>)" .
  show "length img \<le> MAX_HEADER_BYTES + 1 + 2 * m" using d by simp
qed

lemma read_record_image:
  assumes "codec_ok c" "journal_image c m r = Inr img" "0 < jr_pid r"
    and "is_ok (validate_owned_regular euid md ''coordination journal'')"
  shows "read_record c euid md m (Some img) = Inr (Some (r\<lparr>jr_start := take 128 (jr_start r)\<rparr>))"
  using parse_journal_image [OF assms(1-3)] assms(4) by (simp add: read_record_def)

section \<open>Effects of the update lists\<close>

lemma append_main_all: "apply_all (map append_main bs) fs = fs\<lparr>main_doc := main_doc fs @ bs\<rparr>"
  by (induction bs arbitrary: fs) (simp_all add: append_main_def)

lemma write_main_all: "apply_all (write_main_steps bs) fs = fs\<lparr>main_doc := bs\<rparr>"
  by (simp add: write_main_steps_def append_main_all truncate_main_def)

lemma append_staging_all:
  "staging_file fs = Some xs \<Longrightarrow> apply_all (map append_staging bs) fs = fs\<lparr>staging_file := Some (xs @ bs)\<rparr>"
  by (induction bs arbitrary: fs xs) (simp_all add: append_staging_def)

lemma publish_all: "apply_all (publish_steps img) fs = fs\<lparr>journal_file := Some img, staging_file := None\<rparr>"
proof -
  have "apply_all (map append_staging img) (fs\<lparr>staging_file := Some []\<rparr>) = fs\<lparr>staging_file := Some img\<rparr>"
    using append_staging_all [of "fs\<lparr>staging_file := Some []\<rparr>" "[]" img] by simp
  then show ?thesis by (simp add: publish_steps_def)
qed

lemma write_prefix: "journal_file (apply_all (take k (write_main_steps bs)) fs) = journal_file fs"
proof (rule apply_all_invariant [where P = "\<lambda>f. journal_file f = journal_file fs"])
  show "journal_file (f s) = journal_file fs"
    if "f \<in> set (take k (write_main_steps bs))" "journal_file s = journal_file fs" for f s
    using in_set_takeD [OF that(1)] that(2)
    by (auto simp: write_main_steps_def truncate_main_def append_main_def)
qed simp

lemma publish_prefix:
  "main_doc (apply_all (take k (publish_steps img)) fs) = main_doc fs \<and>
   (journal_file (apply_all (take k (publish_steps img)) fs) = journal_file fs
    \<or> journal_file (apply_all (take k (publish_steps img)) fs) = Some img)"
proof (cases "k < length (publish_steps img)")
  case False
  then show ?thesis by (simp add: publish_all)
next
  case True
  let ?pre = "(\<lambda>fs. fs\<lparr>staging_file := Some []\<rparr>) # map append_staging img"
  have "k \<le> length ?pre" using True by (simp add: publish_steps_def)
  then have t: "take k (publish_steps img) = take k ?pre"
    unfolding publish_steps_def by (simp only: append_Cons [symmetric] take_append) simp
  have "(\<lambda>f. main_doc f = main_doc fs \<and> journal_file f = journal_file fs) (apply_all (take k ?pre) fs)"
  proof (rule apply_all_invariant)
    show "main_doc (f s) = main_doc fs \<and> journal_file (f s) = journal_file fs"
      if "f \<in> set (take k ?pre)" "main_doc s = main_doc fs \<and> journal_file s = journal_file fs" for f s
      using in_set_takeD [OF that(1)] that(2) by (auto simp: append_staging_def)
  qed simp
  then show ?thesis unfolding t by blast
qed

section \<open>Crashes\<close>

text \<open>
  The states a document can be in when a process looks at it: a commit was cut
  short anywhere, and after that any number of recoveries were cut short
  anywhere, each with its own opinion on which processes are alive.
\<close>

inductive crash_state ::
  "codec \<Rightarrow> nat option \<Rightarrow> file_stat \<Rightarrow> nat \<Rightarrow> int \<Rightarrow> string \<Rightarrow> bytes \<Rightarrow> bytes \<Rightarrow> files \<Rightarrow> bool"
  for c euid md m pid start before after where
  commit_crash: "\<lbrakk>commit_steps c m pid start before after = Inr steps;
      main_doc fs = before; journal_file fs = None\<rbrakk> \<Longrightarrow>
    crash_state c euid md m pid start before after (apply_all (take k steps) fs)"
| recover_crash: "\<lbrakk>crash_state c euid md m pid start before after fs;
      recover_steps c euid md m process_alive fs = Inr (target, steps)\<rbrakk> \<Longrightarrow>
    crash_state c euid md m pid start before after (apply_all (take k steps) fs)"

definition journal_or_settled ::
  "codec \<Rightarrow> nat \<Rightarrow> int \<Rightarrow> string \<Rightarrow> bytes \<Rightarrow> bytes \<Rightarrow> files \<Rightarrow> bool" where
  "journal_or_settled c m pid start before after fs \<longleftrightarrow>
     (case journal_file fs of
        None \<Rightarrow> main_doc fs = before \<or> main_doc fs = after
      | Some img \<Rightarrow> \<exists>ph. journal_image c m (journal_for ph pid start before after) = Inr img)"

lemma commit_stepsE:
  assumes "commit_steps c m pid start before after = Inr steps"
  obtains "before = after" "steps = []"
  | prep comm where "before \<noteq> after" "length after \<le> m"
      "journal_image c m (journal_for Prepared pid start before after) = Inr prep"
      "journal_image c m (journal_for Committed pid start before after) = Inr comm"
      "steps = publish_steps prep @ write_main_steps after @ publish_steps comm @ [remove_journal_step]"
  using assms by (auto simp: commit_steps_def ok_iff split: if_splits)

lemma commit_prefix:
  assumes st: "commit_steps c m pid start before after = Inr steps"
    and fs: "main_doc fs = before" "journal_file fs = None"
  shows "journal_or_settled c m pid start before after (apply_all (take k steps) fs)"
  using st
proof (cases rule: commit_stepsE)
  case 1
  then show ?thesis using fs by (simp add: journal_or_settled_def)
next
  case (2 prep comm)
  let ?J = "journal_or_settled c m pid start before after"
  let ?p = "publish_steps prep" and ?w = "write_main_steps after" and ?q = "publish_steps comm"
  have img: "?J f" if "journal_file f = Some prep \<or> journal_file f = Some comm" for f
    using that 2(3,4) by (auto simp: journal_or_settled_def)
  let ?a = "apply_all (take k ?p) fs"
  let ?k2 = "k - length ?p" and ?k3 = "k - length ?p - length ?w" and ?k4 = "k - length ?p - length ?w - length ?q"
  let ?b = "apply_all (take ?k2 ?w) ?a" and ?c = "apply_all (take ?k3 ?q) (apply_all (take ?k2 ?w) ?a)"
  have cut: "apply_all (take k steps) fs = apply_all (take ?k4 [remove_journal_step]) ?c"
    by (simp add: 2(5))
  show ?thesis
  proof (cases "k \<le> length ?p")
    case True
    then have "apply_all (take k steps) fs = ?a" by (simp add: cut)
    then show ?thesis
      using publish_prefix [of k prep fs] fs img by (auto simp: journal_or_settled_def)
  next
    case False
    then have ja: "journal_file ?a = Some prep" "main_doc ?a = before"
      using fs by (simp_all add: publish_all)
    then have jb: "journal_file ?b = Some prep" by (simp only: write_prefix)
    then have jc: "journal_file ?c = Some prep \<or> journal_file ?c = Some comm"
      using publish_prefix [of ?k3 comm ?b] by auto
    show ?thesis
    proof (cases "?k4 = 0")
      case True
      then show ?thesis using cut img [OF jc] by simp
    next
      case False
      then have full: "take ?k2 ?w = ?w" "take ?k3 ?q = ?q" "take ?k4 [remove_journal_step] = [remove_journal_step]"
        by auto
      then show ?thesis
        unfolding cut by (simp add: publish_all write_main_all remove_journal_step_def journal_or_settled_def)
    qed
  qed
qed

lemma recover_of_journal:
  assumes c: "codec_ok c" "is_ok (validate_owned_regular euid md ''coordination journal'')" "0 < pid"
    and img: "journal_file fs = Some img" "journal_image c m (journal_for ph pid start before after) = Inr img"
  obtains target where "target = before \<or> target = after" "length target \<le> m"
    "ph = Committed \<longrightarrow> target = after"
    "target = (if ph = Committed \<or> \<not> process_alive pid (take 128 start) then after else before)"
    "recover_steps c euid md m process_alive fs = Inr (target,
       (if take (m + 1) (main_doc fs) \<noteq> target then write_main_steps target else []) @ [remove_journal_step])"
proof -
  let ?r = "journal_for ph pid start before after"
  let ?r' = "?r\<lparr>jr_start := take 128 (jr_start ?r)\<rparr>"
  have read: "read_record c euid md m (Some img) = Inr (Some ?r')"
    using c by (intro read_record_image [OF _ img(2)]) (simp_all add: journal_for_def)
  have len: "length before \<le> m" "length after \<le> m" using journal_imageD [OF img(2)] by (simp_all add: journal_for_def)
  show ?thesis
    by (rule that [of "recovery_target process_alive ?r'"])
      (use read img len in \<open>auto simp: recover_steps_def recovery_target_def journal_for_def Let_def\<close>)
qed

lemma recover_steps_prefix:
  assumes c: "codec_ok c" "is_ok (validate_owned_regular euid md ''coordination journal'')" "0 < pid"
    and j: "journal_or_settled c m pid start before after fs"
    and r: "recover_steps c euid md m process_alive fs = Inr (target, steps)"
    and len: "length before \<le> m" "length after \<le> m"
  shows "journal_or_settled c m pid start before after (apply_all (take k steps) fs)"
    "target \<in> {before, after}" "main_doc (apply_all steps fs) = target" "journal_file (apply_all steps fs) = None"
proof -
  have "journal_or_settled c m pid start before after (apply_all (take k steps) fs) \<and> target \<in> {before, after}
    \<and> main_doc (apply_all steps fs) = target \<and> journal_file (apply_all steps fs) = None"
  proof (cases "journal_file fs")
    case None
    then have "main_doc fs \<in> {before, after}" using j by (auto simp: journal_or_settled_def)
    moreover have "target = take (m + 1) (main_doc fs)" "steps = []"
      using r None by (simp_all add: recover_steps_def read_record_def Let_def)
    ultimately show ?thesis using len j None by auto
  next
    case (Some img)
    then obtain ph where img: "journal_image c m (journal_for ph pid start before after) = Inr img"
      using j by (auto simp: journal_or_settled_def)
    obtain t where t: "t = before \<or> t = after" "length t \<le> m"
      and eq: "recover_steps c euid md m process_alive fs = Inr (t,
         (if take (m + 1) (main_doc fs) \<noteq> t then write_main_steps t else []) @ [remove_journal_step])"
      by (rule recover_of_journal [OF c Some img, of process_alive]) (rule that)
    let ?w = "if take (m + 1) (main_doc fs) \<noteq> t then write_main_steps t else []"
    have "Inr (target, steps) = (Inr (t, ?w @ [remove_journal_step]) :: (bytes \<times> (files \<Rightarrow> files) list) result)"
      using r eq by (rule trans [OF sym])
    then have "(target, steps) = (t, ?w @ [remove_journal_step])" by (rule Inr_inject)
    then have ts: "target = t" "steps = ?w @ [remove_journal_step]" by (simp_all only: prod.inject)
    have main: "main_doc (apply_all ?w fs) = t"
    proof (cases "take (m + 1) (main_doc fs) = t")
      case True
      then have "length (main_doc fs) \<le> m" using t(2) by (metis add.commute length_take min.absorb_iff2 min_def
          not_less_eq_eq plus_1_eq_Suc)
      then show ?thesis using True by simp
    qed (simp add: write_main_all)
    have pre: "journal_file (apply_all (take k ?w) fs) = journal_file fs" by (simp add: write_prefix)
    have fin: "main_doc (apply_all steps fs) = t" "journal_file (apply_all steps fs) = None"
      using main by (simp_all add: ts(2) remove_journal_step_def)
    have "journal_or_settled c m pid start before after (apply_all (take k steps) fs)"
    proof (cases "k \<le> length ?w")
      case True
      then have "apply_all (take k steps) fs = apply_all (take k ?w) fs" by (simp add: ts(2))
      then show ?thesis using pre Some img by (auto simp: journal_or_settled_def)
    next
      case False
      then have "apply_all (take k steps) fs = apply_all steps fs" by (simp add: ts(2))
      then show ?thesis using fin t by (auto simp: journal_or_settled_def)
    qed
    then show ?thesis using ts(1) t(1) fin by auto
  qed
  then show "journal_or_settled c m pid start before after (apply_all (take k steps) fs)"
    "target \<in> {before, after}" "main_doc (apply_all steps fs) = target" "journal_file (apply_all steps fs) = None"
    by blast+
qed

lemma crash_state_inv:
  assumes c: "codec_ok c" "is_ok (validate_owned_regular euid md ''coordination journal'')" "0 < pid"
    and len: "length before \<le> m" "length after \<le> m"
  shows "crash_state c euid md m pid start before after fs \<Longrightarrow> journal_or_settled c m pid start before after fs"
proof (induction rule: crash_state.induct)
  case (commit_crash steps fs k)
  then show ?case by (intro commit_prefix)
next
  case (recover_crash fs process_alive target steps k)
  then show ?case using recover_steps_prefix(1) [OF c _ _ len] by blast
qed

section \<open>A concrete codec\<close>

text \<open>
  The hypotheses on the header text are those of JSON: reading back what was
  written gives the header, and the compact text holds no line break.  The
  following codec satisfies them and serves the witnesses.
\<close>

definition enc_nat :: "nat \<Rightarrow> bytes" where
  "enc_nat n = replicate n 1 @ [0]"

definition dec_nat :: "bytes \<Rightarrow> nat \<times> bytes" where
  "dec_nat bs = (length (takeWhile (\<lambda>b. b = 1) bs), drop 1 (dropWhile (\<lambda>b. b = 1) bs))"

lemma dec_enc_nat [simp]: "dec_nat (enc_nat n @ rest) = (n, rest)"
proof -
  have "takeWhile (\<lambda>b. b = 1) (replicate n (1 :: 8 word) @ 0 # rest) = replicate n 1"
    by (induction n) simp_all
  moreover have "dropWhile (\<lambda>b. b = 1) (replicate n (1 :: 8 word) @ 0 # rest) = 0 # rest"
    by (induction n) simp_all
  ultimately show ?thesis by (simp add: dec_nat_def enc_nat_def)
qed

definition enc_int :: "int \<Rightarrow> bytes" where
  "enc_int i = (if i < 0 then 2 else 3) # enc_nat (nat \<bar>i\<bar>)"

definition dec_int :: "bytes \<Rightarrow> int \<times> bytes" where
  "dec_int bs = (case dec_nat (tl bs) of (n, rest) \<Rightarrow> (if hd bs = 2 then - int n else int n, rest))"

lemma dec_enc_int [simp]: "dec_int (enc_int i @ rest) = (i, rest)"
  by (simp add: dec_int_def enc_int_def)

fun enc_chars :: "string \<Rightarrow> bytes" where
  "enc_chars [] = []"
| "enc_chars (x # xs) = enc_nat (of_char x) @ enc_chars xs"

fun dec_chars :: "nat \<Rightarrow> bytes \<Rightarrow> string \<times> bytes" where
  "dec_chars 0 bs = ([], bs)"
| "dec_chars (Suc n) bs =
     (case dec_nat bs of (k, rest) \<Rightarrow> case dec_chars n rest of (xs, rest') \<Rightarrow> (char_of k # xs, rest'))"

lemma dec_enc_chars [simp]: "dec_chars (length xs) (enc_chars xs @ rest) = (xs, rest)"
  by (induction xs arbitrary: rest) simp_all

definition enc_string :: "string \<Rightarrow> bytes" where
  "enc_string xs = enc_nat (length xs) @ enc_chars xs"

definition dec_string :: "bytes \<Rightarrow> string \<times> bytes" where
  "dec_string bs = (case dec_nat bs of (n, rest) \<Rightarrow> dec_chars n rest)"

lemma dec_enc_string [simp]: "dec_string (enc_string xs @ rest) = (xs, rest)"
  by (simp add: dec_string_def enc_string_def)

definition sample_codec :: codec where
  "sample_codec =
     \<lparr>dumps = (\<lambda>h. enc_int (hd_version h) @ enc_string (hd_phase h) @ enc_int (hd_pid h) @ enc_string (hd_start h)
        @ enc_int (hd_before_length h) @ enc_int (hd_after_length h) @ enc_string (hd_before_sha256 h)
        @ enc_string (hd_after_sha256 h)),
      loads = (\<lambda>b0. case dec_int b0 of (v, b1) \<Rightarrow> case dec_string b1 of (p, b2) \<Rightarrow> case dec_int b2 of (i, b3) \<Rightarrow>
        case dec_string b3 of (s, b4) \<Rightarrow> case dec_int b4 of (lb, b5) \<Rightarrow> case dec_int b5 of (la, b6) \<Rightarrow>
        case dec_string b6 of (db, b7) \<Rightarrow> case dec_string b7 of (da, _) \<Rightarrow>
        Some \<lparr>hd_version = v, hd_phase = p, hd_pid = i, hd_start = s, hd_before_length = lb,
              hd_after_length = la, hd_before_sha256 = db, hd_after_sha256 = da\<rparr>),
      digest = (\<lambda>bs. map (\<lambda>b. char_of (unat b)) bs)\<rparr>"

lemma no_newline:
  "newline \<notin> set (enc_nat n)" "newline \<notin> set (enc_int i)" "newline \<notin> set (enc_string s)"
proof -
  show n: "newline \<notin> set (enc_nat n)" for n by (simp add: enc_nat_def newline_def)
  show "newline \<notin> set (enc_int i)" using n by (simp add: enc_int_def newline_def)
  have "newline \<notin> set (enc_chars xs)" for xs using n by (induction xs) simp_all
  then show "newline \<notin> set (enc_string s)" using n by (simp add: enc_string_def)
qed

lemma sample_codec_ok: "codec_ok sample_codec"
  unfolding codec_ok_def
proof (intro conjI allI)
  fix h
  show "loads sample_codec (dumps sample_codec h) = Some h"
    using dec_enc_string [of "hd_after_sha256 h" "[]"] by (simp add: sample_codec_def)
  show "newline \<notin> set (dumps sample_codec h)" by (simp add: sample_codec_def no_newline)
qed

definition sample_stat :: file_stat where
  "sample_stat = \<lparr>st_regular = True, st_nlink = 1, st_uid = 0\<rparr>"

lemma sample_stat_ok: "is_ok (validate_owned_regular (Some 0) sample_stat ''coordination journal'')"
  by code_simp

lemma sample_image:
  "\<exists>img. journal_image sample_codec 8 (journal_for ph 7 ''s'' [1] [2, 3]) = Inr img"
proof -
  have "is_ok (journal_image sample_codec 8 (journal_for Prepared 7 ''s'' [1] [2, 3]))"
    "is_ok (journal_image sample_codec 8 (journal_for Committed 7 ''s'' [1] [2, 3]))" by code_simp+
  then show ?thesis by (cases ph) (auto simp: is_ok_def split: sum.splits)
qed

definition sample_env :: "publish_outcome \<Rightarrow> bool \<Rightarrow> commit_env" where
  "sample_env outcome removed =
     \<lparr>ce_prepared = Published, ce_written = None, ce_committed = outcome, ce_restored = None,
      ce_removed = removed, ce_error = OSError ''fsync''\<rparr>"

abbreviation "sample_files \<equiv> \<lparr>main_doc = [1], journal_file = None, staging_file = None\<rparr>"

section \<open>What a reader accepts\<close>

lemma takeWhile_newline: "x \<in> set bs \<Longrightarrow> \<exists>rest. bs = takeWhile (\<lambda>b. b \<noteq> x) bs @ x # rest"
  by (induction bs) auto

lemma readline_take: "readline n content = take (length (readline n content)) content"
proof (cases "newline \<in> set content")
  case True
  let ?l = "takeWhile (\<lambda>b. b \<noteq> newline) content"
  obtain rest where "content = ?l @ newline # rest" using takeWhile_newline [OF True] by blast
  then have c: "content = (?l @ [newline]) @ rest" by simp
  have r: "readline n content = take n (?l @ [newline])" using True by (simp add: readline_def)
  have "take (length (take n (?l @ [newline]))) content = take n (?l @ [newline])"
    by (subst c) (simp add: min_def)
  then show ?thesis by (simp only: r)
qed (simp add: readline_def min_def)

lemma parse_phaseD: "parse_phase p = Inr ph \<Longrightarrow> p = phase_name ph"
  by (auto simp: parse_phase_def split: if_splits)

lemma read_payloadD:
  assumes "read_payload c h phase rest = Inr r" "lengths_ok m (length line + length rest) (length line) h"
  shows "rest = jr_before r @ jr_after r" "jr_phase r = phase" "0 < jr_pid r"
    "length (jr_before r) \<le> m" "length (jr_after r) \<le> m"
    "hd_before_sha256 h = digest c (jr_before r)" "hd_after_sha256 h = digest c (jr_after r)"
proof -
  let ?b = "nat (hd_before_length h)" and ?a = "nat (hd_after_length h)"
  have r: "r = \<lparr>jr_phase = phase, jr_pid = hd_pid h, jr_start = hd_start h,
      jr_before = take ?b rest, jr_after = take ?a (drop ?b rest)\<rparr>"
    and d: "hd_before_sha256 h = digest c (take ?b rest)" "hd_after_sha256 h = digest c (take ?a (drop ?b rest))"
    and tail: "drop (?b + ?a) rest = []"
    using assms(1) by (auto simp: read_payload_def Let_def split: if_splits)
  have "take ?b rest @ take ?a (drop ?b rest) = take (?b + ?a) rest" by (simp add: take_add)
  also have "\<dots> = rest" using tail by simp
  finally show "rest = jr_before r @ jr_after r" using r by simp
  show "jr_phase r = phase" "0 < jr_pid r" "length (jr_before r) \<le> m" "length (jr_after r) \<le> m"
    "hd_before_sha256 h = digest c (jr_before r)" "hd_after_sha256 h = digest c (jr_after r)"
    using r d assms(2) by (auto simp: lengths_ok_def)
qed

lemma parse_journalE:
  assumes "parse_journal c m content = Inr r"
  obtains line h where "content = line @ drop (length line) content" "length line \<le> MAX_HEADER_BYTES + 1"
    "loads c (butlast line) = Some h" "hd_version h = JOURNAL_VERSION" "parse_phase (hd_phase h) = Inr (jr_phase r)"
    "lengths_ok m (length content) (length line) h"
    "read_payload c h (jr_phase r) (drop (length line) content) = Inr r"
proof -
  define line where "line = readline (MAX_HEADER_BYTES + 2) content"
  have pre: "content = line @ drop (length line) content"
    using readline_take [of "MAX_HEADER_BYTES + 2" content] unfolding line_def by (metis append_take_drop_id)
  have g: "length line \<le> MAX_HEADER_BYTES + 1"
    using assms unfolding parse_journal_def line_def [symmetric] by (simp add: Let_def split: if_splits)
  obtain h phase where h: "loads c (butlast line) = Some h" "hd_version h = JOURNAL_VERSION"
    "parse_phase (hd_phase h) = Inr phase" "lengths_ok m (length content) (length line) h"
    and rp: "read_payload c h phase (drop (length line) content) = Inr r"
    using assms unfolding parse_journal_def line_def [symmetric]
    by (auto simp: Let_def ok_iff split: if_splits option.splits)
  have "jr_phase r = phase" using rp by (auto simp: read_payload_def Let_def split: if_splits)
  then show ?thesis using that pre g h rp by blast
qed

lemma recover_settled:
  assumes "journal_file fs = None" "length (main_doc fs) \<le> m"
  shows "recover_locked_payload c euid md m process_alive fs = (Inr (main_doc fs), fs)"
  using assms by (simp add: recover_locked_payload_def recover_steps_def read_record_def)

lemma recover_journal:
  assumes "codec_ok c" "is_ok (validate_owned_regular euid md ''coordination journal'')" "0 < pid"
    and "journal_file fs = Some img" "journal_image c m (journal_for ph pid start before after) = Inr img"
  shows "fst (recover_locked_payload c euid md m process_alive fs) =
    Inr (if ph = Committed \<or> \<not> process_alive pid (take 128 start) then after else before)"
  by (rule recover_of_journal [OF assms, of process_alive]) (simp add: recover_locked_payload_def)

definition expired :: "rat \<Rightarrow> lock_attempt \<Rightarrow> bool" where
  "expired deadline a = (case a of Acquired \<Rightarrow> False | Blocked now \<Rightarrow> deadline \<le> now | Interrupted_At now \<Rightarrow> deadline \<le> now)"

section \<open>Properties\<close>



text \<open>
  A journal that was published is read back as the record that was written,
  up to the cut of the start mark at 128 characters.
\<close>

theorem journal_round_trip:
  assumes "codec_ok c" and "is_ok (validate_owned_regular euid md ''coordination journal'')"
    and "0 < jr_pid r" and "journal_image c m r = Inr img"
  shows "read_record c euid md m (journal_file (apply_all (publish_steps img) fs)) =
    Inr (Some (r\<lparr>jr_start := take 128 (jr_start r)\<rparr>))"
  using read_record_image [OF assms(1,4,3,2)] by (simp add: publish_all)

theorem journal_round_trip_witness:
  "\<exists>img. read_record sample_codec (Some 0) sample_stat 8
      (journal_file (apply_all (publish_steps img) \<lparr>main_doc = [], journal_file = None, staging_file = None\<rparr>))
    = Inr (Some (journal_for Prepared 7 ''s'' [1] [2, 3]))"
proof -
  obtain img where img: "journal_image sample_codec 8 (journal_for Prepared 7 ''s'' [1] [2, 3]) = Inr img"
    using sample_image by blast
  show ?thesis
    using journal_round_trip [OF sample_codec_ok sample_stat_ok _ img] by (auto simp: journal_for_def)
qed

text \<open>
  A journal is only ever believed when it is whole: the header fits its
  bound, the phase is known, the process number is positive, the file has
  exactly the announced length, both images respect the size bound, and both
  match their checksums.
\<close>

theorem accepted_journal_is_whole:
  assumes "parse_journal c m content = Inr r"
  shows "\<exists>line h. content = line @ jr_before r @ jr_after r \<and> length line \<le> MAX_HEADER_BYTES + 1
    \<and> loads c (butlast line) = Some h \<and> hd_version h = JOURNAL_VERSION
    \<and> hd_phase h = phase_name (jr_phase r) \<and> 0 < jr_pid r
    \<and> length (jr_before r) \<le> m \<and> length (jr_after r) \<le> m
    \<and> hd_before_sha256 h = digest c (jr_before r) \<and> hd_after_sha256 h = digest c (jr_after r)"
  using assms
proof (cases rule: parse_journalE)
  case (1 line h)
  have "lengths_ok m (length line + length (drop (length line) content)) (length line) h"
    using 1(1,6) by (metis length_append)
  note d = read_payloadD [OF 1(7) this]
  have "content = line @ jr_before r @ jr_after r" using 1(1) d(1) by simp
  then show ?thesis using 1(2-4) parse_phaseD [OF 1(5)] d(3-7) by blast
qed

theorem accepted_journal_is_whole_witness:
  "\<exists>img line. parse_journal sample_codec 8 img = Inr (journal_for Committed 7 ''s'' [1] [2, 3])
    \<and> img = line @ [1] @ [2, 3] \<and> length line \<le> MAX_HEADER_BYTES + 1"
proof -
  let ?r = "journal_for Committed 7 ''s'' [1] [2, 3]"
  obtain img where img: "journal_image sample_codec 8 ?r = Inr img" using sample_image by blast
  have p: "parse_journal sample_codec 8 img = Inr ?r"
    using parse_journal_image(1) [OF sample_codec_ok img] by (simp add: journal_for_def)
  show ?thesis using accepted_journal_is_whole [OF p] p by (auto simp: journal_for_def)
qed

text \<open>
  C20: a commit that returns normally is durable.  Even when the journal could
  not be removed, whoever recovers the document afterwards finds the new one,
  whether the committing process is thought to be alive or not.
\<close>

theorem commit_success_is_durable:
  assumes "codec_ok c" and "is_ok (validate_owned_regular euid md ''coordination journal'')" and "0 < pid"
    and "main_doc fs = before" and "journal_file fs = None" and "length before \<le> m"
    and "commit_locked_payload c env m pid start before after fs = (Inr (), fs')"
  shows "fst (recover_locked_payload c euid md m process_alive fs') = Inr after"
proof (cases "before = after")
  case True
  then show ?thesis using assms(4-7) by (simp add: commit_locked_payload_def recover_settled)
next
  case False
  then obtain prep comm where img: "journal_image c m (journal_for Committed pid start before after) = Inr comm"
    and len: "length after \<le> m"
    and fs': "fs' = remove_journal (ce_removed env) (fs\<lparr>main_doc := after, journal_file := Some comm, staging_file := None\<rparr>)"
    using assms(7) by (auto simp: commit_locked_payload_def Let_def publish_record_def write_main_def
        split: if_splits sum.splits)
  show ?thesis
  proof (cases "ce_removed env")
    case True
    then show ?thesis using fs' len by (simp add: remove_journal_def recover_settled)
  next
    case False
    then have "journal_file fs' = Some comm" using fs' by (simp add: remove_journal_def)
    from recover_journal [OF assms(1-3) this img] show ?thesis by simp
  qed
qed

theorem commit_success_is_durable_witness:
  "\<exists>fs'. commit_locked_payload sample_codec (sample_env Published False) 8 7 ''s'' [1] [2, 3] sample_files = (Inr (), fs')
    \<and> fst (recover_locked_payload sample_codec (Some 0) sample_stat 8 (\<lambda>_ _. True) fs') = Inr [2, 3]"
proof -
  obtain fs' where c: "commit_locked_payload sample_codec (sample_env Published False) 8 7 ''s'' [1] [2, 3] sample_files = (Inr (), fs')"
    using sample_image [of Prepared] sample_image [of Committed]
    by (auto simp: commit_locked_payload_def sample_env_def Let_def)
  from commit_success_is_durable [OF sample_codec_ok sample_stat_ok _ _ _ _ c] c show ?thesis by simp
qed

text \<open>
  C21: a commit that raises can be retried.  Its own process, being alive, finds
  the old document again wherever the failure happened: publishing either
  record, writing the document, or restoring it.  The only exception is a
  committed record that became visible although its publication raised and that
  could not be withdrawn.
\<close>

theorem commit_error_rolls_back:
  assumes "codec_ok c" and "is_ok (validate_owned_regular euid md ''coordination journal'')" and "0 < pid"
    and "main_doc fs = before" and "journal_file fs = None" and "length before \<le> m"
    and "commit_locked_payload c env m pid start before after fs = (Inl err, fs')"
    and "process_alive pid (take 128 start)"
    and "ce_committed env = Failed_After_Rename \<longrightarrow> ce_removed env \<and> ce_restored env = None"
  shows "fst (recover_locked_payload c euid md m process_alive fs') = Inr before"
proof -
  have "(journal_file fs' = None \<and> main_doc fs' = before) \<or>
    (\<exists>img. journal_file fs' = Some img \<and> journal_image c m (journal_for Prepared pid start before after) = Inr img)"
    using assms(4,5,7,9)
    by (cases "ce_committed env"; cases "ce_restored env"; cases "ce_removed env")
      (auto simp: commit_locked_payload_def Let_def publish_record_def write_main_def remove_journal_def
        split: if_splits sum.splits)
  then show ?thesis
    using recover_settled [of fs' m] recover_journal [OF assms(1-3), of fs'] assms(6,8) by fastforce
qed

theorem commit_error_rolls_back_witness:
  "\<exists>fs' err. commit_locked_payload sample_codec (sample_env Failed_Before_Rename False) 8 7 ''s'' [1] [2, 3] sample_files = (Inl err, fs')
    \<and> fst (recover_locked_payload sample_codec (Some 0) sample_stat 8 (\<lambda>_ _. True) fs') = Inr [1]"
proof -
  obtain fs' err where c: "commit_locked_payload sample_codec (sample_env Failed_Before_Rename False) 8 7 ''s'' [1] [2, 3] sample_files = (Inl err, fs')"
    using sample_image [of Prepared] sample_image [of Committed]
    by (auto simp: commit_locked_payload_def sample_env_def Let_def)
  from commit_error_rolls_back [OF sample_codec_ok sample_stat_ok _ _ _ _ c, of "\<lambda>_ _. True"] c show ?thesis
    by (auto simp: sample_env_def)
qed

text \<open>
  C34: the exception is real.  When the publication of the committed record
  raises after its rename and the journal cannot be removed, the commit raises
  although every later recovery, the live owner's included, installs the new
  document: a caller that retries applies the update twice.
\<close>

theorem raised_commit_may_take_effect:
  assumes "codec_ok c" and "is_ok (validate_owned_regular euid md ''coordination journal'')" and "0 < pid"
    and "before \<noteq> after" and "is_ok (commit_steps c m pid start before after)"
    and "ce_prepared env = Published" and "ce_written env = None"
    and "ce_committed env = Failed_After_Rename" and "\<not> ce_removed env"
  shows "\<exists>fs'. commit_locked_payload c env m pid start before after fs = (Inl (ce_error env), fs')
    \<and> fst (recover_locked_payload c euid md m process_alive fs') = Inr after"
proof -
  obtain steps where "commit_steps c m pid start before after = Inr steps"
    using assms(5) by (auto simp: is_ok_def split: sum.splits)
  then obtain prep comm where len: "length after \<le> m"
    and p: "journal_image c m (journal_for Prepared pid start before after) = Inr prep"
    and q: "journal_image c m (journal_for Committed pid start before after) = Inr comm"
    by (rule commit_stepsE) (use assms(4) in blast)+
  obtain fs' where fs': "commit_locked_payload c env m pid start before after fs = (Inl (ce_error env), fs')"
    and j: "journal_file fs' = Some comm"
    using assms(4,6-9) len p q
    by (cases "ce_restored env") (auto simp: commit_locked_payload_def Let_def publish_record_def write_main_def remove_journal_def)
  from recover_journal [OF assms(1-3) j q] fs' show ?thesis by auto
qed

theorem raised_commit_may_take_effect_witness:
  "\<exists>fs'. commit_locked_payload sample_codec (sample_env Failed_After_Rename False) 8 7 ''s'' [1] [2, 3] sample_files
      = (Inl (OSError ''fsync''), fs')
    \<and> fst (recover_locked_payload sample_codec (Some 0) sample_stat 8 (\<lambda>_ _. True) fs') = Inr [2, 3]"
proof -
  have "is_ok (commit_steps sample_codec 8 7 ''s'' [1] [2, 3])"
    using sample_image [of Prepared] sample_image [of Committed] by (auto simp: commit_steps_def)
  from raised_commit_may_take_effect [OF sample_codec_ok sample_stat_ok _ _ this, of "sample_env Failed_After_Rename False"]
  show ?thesis by (simp add: sample_env_def)
qed

text \<open>
  Waiting for the lock is bounded.  The lock is taken exactly when an
  attempt succeeds before any reading of the clock at or past the deadline, a
  reading past the deadline ends the wait with a timeout, and every pause in
  between is positive and lasts at most a twentieth of a second.
\<close>

theorem lock_wait_is_bounded:
  "fst (lock_loop deadline attempts) =
     (case dropWhile (\<lambda>a. a \<noteq> Acquired \<and> \<not> expired deadline a) attempts of
        [] \<Rightarrow> None
      | a # _ \<Rightarrow> Some (if a = Acquired then Inr ()
                      else Inl (TimeoutError ''timed out waiting for the interprocess coordination lock'')))
   \<and> list_all (\<lambda>t. 0 < t \<and> t \<le> 1 / 20) (snd (lock_loop deadline attempts))"
  by (induction deadline attempts rule: lock_loop.induct)
    (simp_all add: expired_def Let_def case_prod_beta not_le min_def)

end
