(* ===== verification/Py_Strings.thy ===== *)
theory Py_Strings
  imports Prelude
begin

text \<open>
  The parts of Python's strings and of the regular expressions that the planning
  components use.  A string is a list of characters with codes below 256.  A
  pattern is a list of single characters and digits, which covers literal
  replacement and every expression the sources substitute.
\<close>

section \<open>Characters\<close>

definition isdigit :: "char \<Rightarrow> bool" where
  "isdigit c \<longleftrightarrow> 48 \<le> (of_char c :: nat) \<and> (of_char c :: nat) \<le> 57"

definition digit_value :: "char \<Rightarrow> nat" where
  "digit_value c = of_char c - 48"

definition digit :: "nat \<Rightarrow> char" where
  "digit n = char_of (48 + n)"

lemma digit_simps [simp]:
  "n < 10 \<Longrightarrow> isdigit (digit n)" "n < 10 \<Longrightarrow> digit_value (digit n) = n"
  by (simp_all add: isdigit_def digit_value_def digit_def of_char_of take_bit_eq_mod)

lemma digit_inj: "m < 10 \<Longrightarrow> n < 10 \<Longrightarrow> digit m = digit n \<longleftrightarrow> m = n"
  by (metis digit_simps(2))

definition isspace :: "char \<Rightarrow> bool" where
  "isspace c \<longleftrightarrow> (let n = of_char c :: nat in
     (9 \<le> n \<and> n \<le> 13) \<or> (28 \<le> n \<and> n \<le> 32) \<or> n = 133 \<or> n = 160)"

definition isupper :: "char \<Rightarrow> bool" where
  "isupper c \<longleftrightarrow> (let n = of_char c :: nat in
     (65 \<le> n \<and> n \<le> 90) \<or> (192 \<le> n \<and> n \<le> 222 \<and> n \<noteq> 215))"

definition isalpha :: "char \<Rightarrow> bool" where
  "isalpha c \<longleftrightarrow> (let n = of_char c :: nat in
     isupper c \<or> (97 \<le> n \<and> n \<le> 122) \<or> n = 170 \<or> n = 181 \<or> n = 186
     \<or> (223 \<le> n \<and> n \<noteq> 247))"

definition lower_char :: "char \<Rightarrow> char" where
  "lower_char c = (if isupper c then char_of (of_char c + 32 :: nat) else c)"

definition lower :: "string \<Rightarrow> string" where
  "lower s = map lower_char s"

section \<open>Searching, splitting, trimming\<close>

definition starts_with :: "string \<Rightarrow> string \<Rightarrow> bool" where
  "starts_with p s \<longleftrightarrow> take (length p) s = p"

definition ends_with :: "string \<Rightarrow> string \<Rightarrow> bool" where
  "ends_with p s \<longleftrightarrow> length p \<le> length s \<and> drop (length s - length p) s = p"

fun contains :: "string \<Rightarrow> string \<Rightarrow> bool" where
  "contains p [] = (p = [])"
| "contains p (c # s) = (starts_with p (c # s) \<or> contains p s)"

text \<open>\<open>s.split(sep, 1)\<close>: the parts around the first occurrence.\<close>

fun split_once :: "string \<Rightarrow> string \<Rightarrow> (string \<times> string) option" where
  "split_once p [] = (if p = [] then Some ([], []) else None)"
| "split_once p (c # s) =
     (if starts_with p (c # s) then Some ([], drop (length p) (c # s))
      else map_option (\<lambda>(a, b). (c # a, b)) (split_once p s))"

text \<open>\<open>s.split(sep)\<close> for a separator of one character.\<close>

fun split_char :: "char \<Rightarrow> string \<Rightarrow> string list" where
  "split_char x [] = [[]]"
| "split_char x (c # s) =
     (if c = x then [] # split_char x s
      else case split_char x s of [] \<Rightarrow> [[c]] | w # ws \<Rightarrow> (c # w) # ws)"

definition lstrip :: "(char \<Rightarrow> bool) \<Rightarrow> string \<Rightarrow> string" where
  "lstrip P s = dropWhile P s"

definition rstrip :: "(char \<Rightarrow> bool) \<Rightarrow> string \<Rightarrow> string" where
  "rstrip P s = rev (dropWhile P (rev s))"

definition strip :: "string \<Rightarrow> string" where
  "strip s = rstrip isspace (lstrip isspace s)"

section \<open>Numbers as text\<close>

fun decimal :: "nat \<Rightarrow> string" where
  "decimal n = (if n < 10 then [digit n] else decimal (n div 10) @ [digit (n mod 10)])"

declare decimal.simps [simp del]

text \<open>The format specifications \<open>:02d\<close> and \<open>:04d\<close>.\<close>

definition pad :: "nat \<Rightarrow> nat \<Rightarrow> string" where
  "pad w n = (let d = decimal n in replicate (w - length d) (CHR ''0'') @ d)"

fun int_of_digits :: "nat \<Rightarrow> string \<Rightarrow> nat" where
  "int_of_digits acc [] = acc"
| "int_of_digits acc (c # s) = int_of_digits (10 * acc + digit_value c) s"

lemma digit_0: "CHR ''0'' = digit 0" by (simp add: digit_def char_of_def bit_iff_odd)

lemma decimal_small: "n < 10 \<Longrightarrow> decimal n = [digit n]"
  by (simp add: decimal.simps)

lemma decimal_step: "10 \<le> n \<Longrightarrow> decimal n = decimal (n div 10) @ [digit (n mod 10)]"
  by (simp add: decimal.simps [of n])

lemma pad2:
  assumes "n < 100"
  shows "pad 2 n = [digit (n div 10), digit (n mod 10)]"
proof (cases "n < 10")
  case False
  then have "decimal n = [digit (n div 10), digit (n mod 10)]"
    using assms by (simp add: decimal_step [of n] decimal_small)
  then show ?thesis by (simp add: pad_def)
qed (simp add: pad_def decimal_small digit_0)

lemma pad4:
  assumes "n < 10000"
  shows "pad 4 n = [digit (n div 1000), digit (n div 100 mod 10), digit (n div 10 mod 10), digit (n mod 10)]"
proof -
  have e: "n div 10 div 10 = n div 100" "n div 100 div 10 = n div 1000" by (simp_all add: div_mult2_eq [symmetric])
  have r: "replicate 3 x = [x, x, x]" "replicate 2 x = [x, x]" for x :: char by (simp_all add: numeral_eq_Suc)
  consider "n < 10" | "10 \<le> n" "n < 100" | "100 \<le> n" "n < 1000" | "1000 \<le> n" by linarith
  then show ?thesis
  proof cases
    case 1
    then have "decimal n = [digit n]" by (simp add: decimal_small)
    then show ?thesis using 1 r by (simp add: pad_def digit_0)
  next
    case 2
    then have "decimal n = [digit (n div 10), digit (n mod 10)]"
      by (simp add: decimal_step [of n] decimal_small)
    then show ?thesis using 2 r by (simp add: pad_def digit_0)
  next
    case 3
    then have "decimal n = [digit (n div 100), digit (n div 10 mod 10), digit (n mod 10)]"
      using e by (simp add: decimal_step [of n] decimal_step [of "n div 10"] decimal_small)
    then show ?thesis using 3 by (simp add: pad_def digit_0)
  next
    case 4
    then have "decimal n = [digit (n div 1000), digit (n div 100 mod 10), digit (n div 10 mod 10), digit (n mod 10)]"
      using e assms by (simp add: decimal_step [of n] decimal_step [of "n div 10"] decimal_step [of "n div 100"] decimal_small)
    then show ?thesis by (simp add: pad_def)
  qed
qed

lemma digits_value2: "n < 100 \<Longrightarrow> int_of_digits 0 (pad 2 n) = n"
  by (simp add: pad2)

lemma digits_value4:
  assumes "n < 10000"
  shows "int_of_digits 0 (pad 4 n) = n"
proof -
  have "n div 10 = 10 * (n div 10 div 10) + n div 10 mod 10" "n div 100 = 10 * (n div 100 div 10) + n div 100 mod 10"
    "n = 10 * (n div 10) + n mod 10" by simp_all
  moreover have "n div 10 div 10 = n div 100" "n div 100 div 10 = n div 1000" by (simp_all add: div_mult2_eq [symmetric])
  moreover have "n div 1000 < 10" using assms by simp
  ultimately show ?thesis using assms by (simp add: pad4)
qed

section \<open>Patterns\<close>

datatype pat = Ch char | Digit

primrec cmatch :: "pat \<Rightarrow> char \<Rightarrow> bool" where
  "cmatch (Ch x) c = (x = c)"
| "cmatch Digit c = isdigit c"

fun pmatch :: "pat list \<Rightarrow> string \<Rightarrow> bool" where
  "pmatch [] s = True"
| "pmatch (p # ps) [] = False"
| "pmatch (p # ps) (c # s) = (cmatch p c \<and> pmatch ps s)"

definition lit :: "string \<Rightarrow> pat list" where
  "lit s = map Ch s"

text \<open>Substitution of every match, from the left, without overlap.\<close>

fun sub :: "pat list \<Rightarrow> string \<Rightarrow> string \<Rightarrow> string" where
  "sub ps r [] = []"
| "sub ps r (c # s) =
     (if ps \<noteq> [] \<and> pmatch ps (c # s) then r @ sub ps r (drop (length ps - 1) s)
      else c # sub ps r s)"

definition replace_str :: "string \<Rightarrow> string \<Rightarrow> string \<Rightarrow> string" where
  "replace_str old new s = sub (lit old) new s"

lemma pmatch_append [simp]:
  "length ps = length s \<Longrightarrow> pmatch (ps @ qs) (s @ t) \<longleftrightarrow> pmatch ps s \<and> pmatch qs t"
  by (induction ps s rule: list_induct2) auto

lemma pmatch_lit: "pmatch (lit p) s \<longleftrightarrow> starts_with p s"
proof (induction p arbitrary: s)
  case (Cons a p)
  then show ?case by (cases s) (auto simp: lit_def starts_with_def)
qed (simp add: lit_def starts_with_def)

lemma pmatch_length: "pmatch ps s \<Longrightarrow> length ps \<le> length s"
  by (induction ps s rule: pmatch.induct) auto

lemma sub_match:
  assumes "length ps = length m" "pmatch ps m" "ps \<noteq> []"
  shows "sub ps r (m @ s) = r @ sub ps r s"
proof (cases m)
  case (Cons c m')
  have "pmatch ps (m @ s)" using pmatch_append [of ps m "[]" s] assms by simp
  then show ?thesis using Cons assms by simp
qed (use assms in simp)

text \<open>No match starts in the skipped part.\<close>

lemma sub_skip:
  assumes "\<And>u1 u2. u = u1 @ u2 \<Longrightarrow> u2 \<noteq> [] \<Longrightarrow> \<not> pmatch ps (u2 @ s)"
  shows "sub ps r (u @ s) = u @ sub ps r s"
  using assms
proof (induction u)
  case (Cons c u)
  have "\<not> pmatch ps (c # u @ s)" using Cons.prems [of "[]" "c # u"] by simp
  moreover have "sub ps r (u @ s) = u @ sub ps r s"
    by (rule Cons.IH) (use Cons.prems in \<open>metis append_Cons\<close>)
  ultimately show ?case by simp
qed simp

lemma pmatch_nth: "pmatch ps s \<Longrightarrow> i < length ps \<Longrightarrow> cmatch (ps ! i) (s ! i)"
proof (induction ps s arbitrary: i rule: pmatch.induct)
  case (3 p ps c s)
  then show ?case by (cases i) auto
qed auto

end
