(* ===== verification/Calendar.thy ===== *)
theory Calendar
  imports Py_Strings
begin

text \<open>
  The proleptic Gregorian calendar of Python's \<^verbatim>\<open>datetime.date\<close>, as far as the
  planning components use it: the order of dates, the next day (which raises
  after the last day of year 9999), the ISO text, and reading it back.
\<close>

datatype date = Date (year: nat) (month: nat) (day: nat)

instantiation date :: linorder
begin

definition less_eq_date :: "date \<Rightarrow> date \<Rightarrow> bool" where
  "d \<le> e \<longleftrightarrow> year d < year e \<or> (year d = year e \<and> (month d < month e \<or> (month d = month e \<and> day d \<le> day e)))"

definition less_date :: "date \<Rightarrow> date \<Rightarrow> bool" where
  "d < e \<longleftrightarrow> year d < year e \<or> (year d = year e \<and> (month d < month e \<or> (month d = month e \<and> day d < day e)))"

instance
proof
  show "(x < y) = (x \<le> y \<and> \<not> y \<le> x)" for x y :: date
    by (cases x; cases y) (auto simp: less_date_def less_eq_date_def)
  show "x \<le> x" for x :: date by (simp add: less_eq_date_def)
  show "x \<le> y \<Longrightarrow> y \<le> z \<Longrightarrow> x \<le> z" for x y z :: date
    by (cases x; cases y; cases z) (auto simp: less_eq_date_def)
  show "x \<le> y \<Longrightarrow> y \<le> x \<Longrightarrow> x = y" for x y :: date
    by (cases x; cases y) (auto simp: less_eq_date_def)
  show "x \<le> y \<or> y \<le> x" for x y :: date
    by (cases x; cases y) (auto simp: less_eq_date_def)
qed

end

definition is_leap :: "nat \<Rightarrow> bool" where
  "is_leap y \<longleftrightarrow> y mod 4 = 0 \<and> (y mod 100 \<noteq> 0 \<or> y mod 400 = 0)"

definition days_in_month :: "nat \<Rightarrow> nat \<Rightarrow> nat" where
  "days_in_month y m =
     (if m = 2 then if is_leap y then 29 else 28 else if m \<in> {4, 6, 9, 11} then 30 else 31)"

definition valid_date :: "date \<Rightarrow> bool" where
  "valid_date d \<longleftrightarrow> 1 \<le> year d \<and> year d \<le> 9999 \<and> 1 \<le> month d \<and> month d \<le> 12
     \<and> 1 \<le> day d \<and> day d \<le> days_in_month (year d) (month d)"

definition next_day :: "date \<Rightarrow> date result" where
  "next_day d =
     (if day d < days_in_month (year d) (month d) then Inr (Date (year d) (month d) (day d + 1))
      else if month d < 12 then Inr (Date (year d) (month d + 1) 1)
      else if year d < 9999 then Inr (Date (year d + 1) 1 1)
      else Inl (OverflowError ''date value out of range''))"

lemma days_in_month_bounds: "28 \<le> days_in_month y m" "days_in_month y m \<le> 31"
  by (simp_all add: days_in_month_def)

lemma days_in_month_pos [simp]: "Suc 0 \<le> days_in_month y m"
  using days_in_month_bounds(1) [of y m] by linarith

lemma next_day_valid: "valid_date d \<Longrightarrow> next_day d = Inr e \<Longrightarrow> valid_date e \<and> d < e"
  by (cases d) (auto simp: next_day_def valid_date_def less_date_def split: if_splits)

lemma next_day_least:
  assumes "valid_date d" "next_day d = Inr e" "valid_date x" "d < x"
  shows "e \<le> x"
  using assms
  by (cases d; cases x) (auto simp: next_day_def valid_date_def less_date_def less_eq_date_def split: if_splits)

lemma next_day_last: "valid_date d \<Longrightarrow> next_day d = Inl err \<Longrightarrow> valid_date x \<Longrightarrow> x \<le> d"
  using days_in_month_bounds [of 9999 12]
  by (cases d; cases x) (auto simp: next_day_def valid_date_def less_eq_date_def split: if_splits)

text \<open>
  The days from one date to another, by repeated increment; the error is the
  one raised when the increment after the last day leaves the calendar.
\<close>

function day_range :: "date \<Rightarrow> date \<Rightarrow> date list \<times> pyerr option" where
  "day_range d e =
     (if e < d then ([], None)
      else case next_day d of
             Inl err \<Rightarrow> ([d], Some err)
           | Inr d' \<Rightarrow> (case day_range d' e of (ds, x) \<Rightarrow> (d # ds, x)))"
  by pat_completeness auto

termination
proof (relation "measures [\<lambda>(d, _). 9999 - year d, \<lambda>(d, _). 12 - month d, \<lambda>(d, _). 31 - day d]")
  show "((d', e), (d, e)) \<in> measures [\<lambda>(d, _). 9999 - year d, \<lambda>(d, _). 12 - month d, \<lambda>(d, _). 31 - day d]"
    if "next_day d = Inr d'" for d e d' :: date
    using that days_in_month_bounds(2) [of "year d" "month d"]
    by (auto simp: next_day_def split: if_splits)
qed simp

declare day_range.simps [simp del]

lemma day_range_spec:
  "valid_date d \<Longrightarrow> set (fst (day_range d e)) = {x. valid_date x \<and> d \<le> x \<and> x \<le> e}
     \<and> sorted_wrt (<) (fst (day_range d e))"
proof (induction d e rule: day_range.induct)
  case (1 d e)
  show ?case
  proof (cases "e < d")
    case True
    then show ?thesis by (subst day_range.simps, subst day_range.simps) auto
  next
    case False
    show ?thesis
    proof (cases "next_day d")
      case (Inl err)
      then have "day_range d e = ([d], Some err)" using False by (simp add: day_range.simps)
      moreover have "x = d" if "valid_date x" "d \<le> x" for x
        using next_day_last [OF 1(2) Inl that(1)] that(2) by simp
      ultimately show ?thesis using False 1(2) by auto
    next
      case (Inr d')
      obtain ds x where r: "day_range d' e = (ds, x)" by (cases "day_range d' e")
      note v = next_day_valid [OF 1(2) Inr]
      have ih: "set ds = {x. valid_date x \<and> d' \<le> x \<and> x \<le> e}" "sorted_wrt (<) ds"
        using 1(1) [OF False Inr] v r by auto
      have eq: "day_range d e = (d # ds, x)" using False Inr r by (simp add: day_range.simps)
      have "{x. valid_date x \<and> d \<le> x \<and> x \<le> e} = insert d {x. valid_date x \<and> d' \<le> x \<and> x \<le> e}"
        using next_day_least [OF 1(2) Inr] v False 1(2) by (auto simp: order.order_iff_strict)
      moreover have "\<forall>y\<in>set ds. d < y" using ih(1) v by auto
      ultimately show ?thesis using eq ih by simp
    qed
  qed
qed

lemma day_range_error: "snd (day_range d e) \<noteq> None \<Longrightarrow> d \<le> e \<and> 9999 \<le> year e"
proof (induction d e rule: day_range.induct)
  case (1 d e)
  then have le: "\<not> e < d" by (auto simp: day_range.simps)
  show ?case
  proof (cases "next_day d")
    case (Inl err)
    then have "9999 \<le> year d" by (auto simp: next_day_def split: if_splits)
    then show ?thesis using le by (auto simp: less_date_def not_less less_eq_date_def)
  next
    case (Inr d')
    then have "snd (day_range d' e) \<noteq> None"
      using 1(2) le by (simp add: day_range.simps [of d] split: prod.splits)
    then show ?thesis using 1(1) [OF le Inr] le by simp
  qed
qed

section \<open>ISO text\<close>

definition isoformat :: "date \<Rightarrow> string" where
  "isoformat d = pad 4 (year d) @ ''-'' @ pad 2 (month d) @ ''-'' @ pad 2 (day d)"

definition iso_pattern :: "pat list" where
  "iso_pattern = [Digit, Digit, Digit, Digit, Ch (CHR ''-''), Digit, Digit, Ch (CHR ''-''), Digit, Digit]"

text \<open>\<open>date.fromisoformat\<close> on a text of the shape \<open>YYYY-MM-DD\<close>.\<close>

definition fromisoformat :: "string \<Rightarrow> date result" where
  "fromisoformat s =
     (let d = Date (int_of_digits 0 (take 4 s)) (int_of_digits 0 (take 2 (drop 5 s))) (int_of_digits 0 (take 2 (drop 8 s))) in
      if length s = 10 \<and> pmatch iso_pattern s \<and> valid_date d then Inr d
      else Inl (ValueError ''Invalid isoformat string''))"

lemma valid_date_bounds: "valid_date d \<Longrightarrow> year d < 10000 \<and> month d < 100 \<and> day d < 100"
  using days_in_month_bounds(2) [of "year d" "month d"] by (auto simp: valid_date_def)

lemma length_pad: "n < 100 \<Longrightarrow> length (pad 2 n) = 2" "m < 10000 \<Longrightarrow> length (pad 4 m) = 4"
  by (simp_all add: pad2 pad4)

lemma fromisoformat_isoformat:
  assumes "valid_date d"
  shows "fromisoformat (isoformat d) = Inr d"
proof -
  note b = valid_date_bounds [OF assms]
  have digits: "year d div 1000 < 10" "month d div 10 < 10" "day d div 10 < 10" using b by auto
  have len: "length (pad 4 (year d)) = 4" "length (pad 2 (month d)) = 2" "length (pad 2 (day d)) = 2"
    using b length_pad by auto
  have parts: "take 4 (isoformat d) = pad 4 (year d)" "take 2 (drop 5 (isoformat d)) = pad 2 (month d)"
    "take 2 (drop 8 (isoformat d)) = pad 2 (day d)" "length (isoformat d) = 10"
    using len by (simp_all add: isoformat_def)
  have "pmatch iso_pattern (isoformat d)"
    using b digits by (simp add: iso_pattern_def isoformat_def pad2 pad4)
  then show ?thesis
    using assms parts b len by (simp add: fromisoformat_def digits_value2 digits_value4 Let_def)
qed

end
