(* ===== verification/Hive_Uris.thy ===== *)
theory Hive_Uris
  imports Calendar
begin

text \<open>
  Model of \<^verbatim>\<open>core_impl/hive_uris.py\<close>: partition directories and file names
  under a URI prefix, placeholders in URI templates, the dates and hours found
  in existing URIs, and rolling such a URI to another partition.  The regular
  expressions are patterns of \<open>Py_Strings\<close>; the two searches with
  boundary conditions are functions of their own.  Cached functions are modelled
  without their cache.
\<close>

section \<open>Template values\<close>

definition TEMPLATE_FIELD_NAMES :: "string list" where
  "TEMPLATE_FIELD_NAMES =
     [''date'', ''yyyymmdd'', ''yyyy'', ''year'', ''mm'', ''month'', ''dd'', ''day'', ''hour'', ''hh'', ''yyyymmddhh'']"

definition HOURLY_TEMPLATE_FIELDS :: "string list" where
  "HOURLY_TEMPLATE_FIELDS = [''hour'', ''hh'', ''yyyymmddhh'']"

definition uri_template_values :: "date \<Rightarrow> nat option \<Rightarrow> (string \<times> string) list" where
  "uri_template_values logical_date logical_hour =
     (let y = pad 4 (year logical_date); m = pad 2 (month logical_date); d = pad 2 (day logical_date);
          iso_date = y @ ''-'' @ m @ ''-'' @ d; compact_date = y @ m @ d in
      [(''date'', iso_date), (''yyyymmdd'', compact_date), (''yyyy'', y), (''year'', y), (''mm'', m),
       (''month'', m), (''dd'', d), (''day'', d)]
      @ (case logical_hour of
           None \<Rightarrow> []
         | Some h \<Rightarrow> let hour = pad 2 h in
             [(''hour'', hour), (''hh'', hour), (''yyyymmddhh'', compact_date @ hour)]))"

text \<open>\<open>values[key]\<close>, for keys that are present.\<close>

definition field :: "(string \<times> string) list \<Rightarrow> string \<Rightarrow> string" where
  "field vs k = (case map_of vs k of Some v \<Rightarrow> v | None \<Rightarrow> [])"

section \<open>Normalisation\<close>

definition normalize_file_extension :: "string \<Rightarrow> string result" where
  "normalize_file_extension extension =
     (let normalized = lstrip (\<lambda>c. c = CHR ''.'') (strip extension) in
      if normalized = [] \<or> CHR ''/'' \<in> set normalized
      then Inl (ValueError ''Invalid file extension'') else Inr normalized)"

definition normalize_uri_prefix :: "string \<Rightarrow> string result" where
  "normalize_uri_prefix prefix =
     (let normalized = rstrip (\<lambda>c. c = CHR ''/'') (strip prefix) in
      if \<not> contains ''://'' normalized then Inl (ValueError ''Expected a URI prefix'') else Inr normalized)"

definition uri_path_segments :: "string \<Rightarrow> string list" where
  "uri_path_segments uri =
     (case split_once ''://'' uri of
        None \<Rightarrow> []
      | Some (_, without_scheme) \<Rightarrow>
          (case split_once ''/'' without_scheme of
             None \<Rightarrow> []
           | Some (_, path) \<Rightarrow> filter (\<lambda>segment. segment \<noteq> []) (split_char (CHR ''/'') path)))"

definition gcs_uri_path_segments :: "string \<Rightarrow> string list" where
  "gcs_uri_path_segments uri = (if starts_with ''gs://'' uri then uri_path_segments uri else [])"

section \<open>Building partition URIs\<close>

definition partition_directory_uri :: "string \<Rightarrow> (string \<times> string) list \<Rightarrow> bool \<Rightarrow> string result" where
  "partition_directory_uri prefix vs include_hour =
     rlift (\<lambda>p. let uri = p @ ''/year='' @ field vs ''year'' @ ''/month='' @ field vs ''month''
                         @ ''/date='' @ field vs ''date'' in
              if include_hour then uri @ ''/hour='' @ field vs ''hour'' else uri)
       (normalize_uri_prefix prefix)"

definition build_partition_directory_uri :: "string \<Rightarrow> date \<Rightarrow> nat option \<Rightarrow> string result" where
  "build_partition_directory_uri prefix logical_date logical_hour =
     partition_directory_uri prefix (uri_template_values logical_date logical_hour) (logical_hour \<noteq> None)"

definition build_partitioned_file_uri ::
  "string \<Rightarrow> date \<Rightarrow> nat option \<Rightarrow> string \<Rightarrow> string \<Rightarrow> string result" where
  "build_partitioned_file_uri prefix logical_date logical_hour file_name_prefix extension =
     (let vs = uri_template_values logical_date logical_hour in
      rbind (partition_directory_uri prefix vs (logical_hour \<noteq> None)) (\<lambda>partition_uri.
        let suffix = field vs ''yyyymmdd'' @ (if logical_hour \<noteq> None then ''_'' @ field vs ''hour'' else []) in
        rlift (\<lambda>ext. partition_uri @ ''/'' @ file_name_prefix @ ''_'' @ suffix @ ''.'' @ ext)
          (normalize_file_extension extension)))"

section \<open>Explicit placeholders\<close>

definition placeholder :: "string \<Rightarrow> string" where
  "placeholder name = ''{'' @ name @ ''}''"

definition template_fields :: "string \<Rightarrow> string list" where
  "template_fields uri_template = filter (\<lambda>name. contains (placeholder name) uri_template) TEMPLATE_FIELD_NAMES"

fun render_fields :: "(string \<times> string) list \<Rightarrow> string list \<Rightarrow> string \<times> bool \<Rightarrow> string \<times> bool" where
  "render_fields vs [] (rendered, changed) = (rendered, changed)"
| "render_fields vs (name # names) (rendered, changed) =
     render_fields vs names
       (case map_of vs name of
          None \<Rightarrow> (rendered, changed)
        | Some v \<Rightarrow> (replace_str (placeholder name) v rendered, True))"

definition render_explicit_partition_placeholders :: "string \<Rightarrow> date \<Rightarrow> nat option \<Rightarrow> string \<times> bool" where
  "render_explicit_partition_placeholders uri_template logical_date logical_hour =
     (let fields = template_fields uri_template in
      if fields = [] then (uri_template, False)
      else render_fields (uri_template_values logical_date logical_hour) fields (uri_template, False))"

section \<open>Dates and hours in existing URIs\<close>

text \<open>A match that ends at a slash, at the end, or before a final line break (\<open>(?:/|$)\<close>).\<close>

definition segment_match :: "pat list \<Rightarrow> string \<Rightarrow> bool" where
  "segment_match ps s \<longleftrightarrow> pmatch ps s \<and>
     (let rest = drop (length ps) s in rest = [] \<or> hd rest = CHR ''/'' \<or> rest = [char_of (10 :: nat)])"

fun search_slash :: "pat list \<Rightarrow> string \<Rightarrow> string option" where
  "search_slash ps [] = None"
| "search_slash ps (c # s) =
     (if c = CHR ''/'' \<and> segment_match ps s then Some (take (length ps) s) else search_slash ps s)"

definition search_segment :: "pat list \<Rightarrow> string \<Rightarrow> string option" where
  "search_segment ps s = (if segment_match ps s then Some (take (length ps) s) else search_slash ps s)"

text \<open>The search with \<open>(?<!\d)\<close> before and \<open>(?!\d)\<close> after the match.\<close>

fun search_isolated :: "pat list \<Rightarrow> bool \<Rightarrow> string \<Rightarrow> string option" where
  "search_isolated ps after_digit [] = None"
| "search_isolated ps after_digit (c # s) =
     (let rest = drop (length ps) (c # s) in
      if \<not> after_digit \<and> pmatch ps (c # s) \<and> \<not> (rest \<noteq> [] \<and> isdigit (hd rest))
      then Some (take (length ps) (c # s)) else search_isolated ps (isdigit c) s)"

definition HIVE_DATE_RE :: "pat list" where "HIVE_DATE_RE = lit ''date='' @ iso_pattern"
definition HIVE_HOUR_RE :: "pat list" where "HIVE_HOUR_RE = lit ''hour='' @ [Digit, Digit]"
definition HIVE_YEAR_RE :: "pat list" where "HIVE_YEAR_RE = lit ''year='' @ [Digit, Digit, Digit, Digit]"
definition HIVE_MONTH_RE :: "pat list" where "HIVE_MONTH_RE = lit ''month='' @ [Digit, Digit]"

definition infer_anchor_date_from_uri :: "string \<Rightarrow> date option result" where
  "infer_anchor_date_from_uri uri =
     (case search_segment HIVE_DATE_RE uri of
        Some m \<Rightarrow> rlift Some (fromisoformat (drop 5 m))
      | None \<Rightarrow>
          (case search_isolated iso_pattern False uri of
             Some m \<Rightarrow> rlift Some (fromisoformat m)
           | None \<Rightarrow> Inr None))"

definition infer_anchor_hour_from_uri :: "string \<Rightarrow> nat option" where
  "infer_anchor_hour_from_uri uri =
     (case search_segment HIVE_HOUR_RE uri of
        None \<Rightarrow> None
      | Some m \<Rightarrow> let hour = int_of_digits 0 (drop 5 m) in if hour \<le> 23 then Some hour else None)"

section \<open>Rolling\<close>

definition roll_hive_partition_uri :: "string \<Rightarrow> date \<Rightarrow> nat option \<Rightarrow> string result" where
  "roll_hive_partition_uri uri_template logical_date logical_hour =
     rbind (infer_anchor_date_from_uri uri_template) (\<lambda>anchor.
       case anchor of
         None \<Rightarrow> Inl (ValueError ''no date to roll'')
       | Some anchor_date \<Rightarrow>
           let target = uri_template_values logical_date logical_hour;
               anchor_compact = pad 4 (year anchor_date) @ pad 2 (month anchor_date) @ pad 2 (day anchor_date);
               r1 = sub HIVE_YEAR_RE (''year='' @ field target ''year'') uri_template;
               r2 = sub HIVE_MONTH_RE (''month='' @ field target ''month'') r1;
               r3 = sub HIVE_DATE_RE (''date='' @ field target ''date'') r2;
               r4 = replace_str (isoformat anchor_date) (field target ''date'') r3 in
           rlift (\<lambda>r. replace_str anchor_compact (field target ''yyyymmdd'') r)
             (case logical_hour of
                None \<Rightarrow> Inr r4
              | Some _ \<Rightarrow>
                  (case infer_anchor_hour_from_uri uri_template of
                     None \<Rightarrow> Inl (ValueError ''no hour to roll'')
                   | Some anchor_hour \<Rightarrow>
                       let r5 = replace_str (anchor_compact @ pad 2 anchor_hour) (field target ''yyyymmddhh'') r4 in
                       Inr (sub HIVE_HOUR_RE (''hour='' @ field target ''hour'') r5))))"

definition render_uri_for_partition :: "string \<Rightarrow> date \<Rightarrow> nat option \<Rightarrow> string result" where
  "render_uri_for_partition uri_template logical_date logical_hour =
     (case render_explicit_partition_placeholders uri_template logical_date logical_hour of
        (rendered, used_placeholders) \<Rightarrow>
          if used_placeholders
          then if logical_hour \<noteq> None \<and> list_all (\<lambda>f. f \<notin> set (template_fields uri_template)) HOURLY_TEMPLATE_FIELDS
               then Inl (ValueError ''Hourly URI templates must include {hour}, {hh}, or {yyyymmddhh}.'')
               else Inr rendered
          else roll_hive_partition_uri uri_template logical_date logical_hour)"

section \<open>Substitution around clean parts\<close>

text \<open>
  A part of a URI without digits, equals signs and braces takes no part in
  rolling: no match of any of the patterns starts in it.
\<close>

definition clean :: "string \<Rightarrow> bool" where
  "clean u \<longleftrightarrow> list_all (\<lambda>c. \<not> isdigit c \<and> c \<noteq> CHR ''='' \<and> c \<noteq> CHR ''{'') u"

lemma clean_simps:
  assumes "clean u"
  shows "CHR ''='' \<notin> set u" "isdigit a \<Longrightarrow> a \<notin> set u" "CHR ''{'' \<notin> set u"
  using assms by (auto simp: clean_def list_all_iff)

lemma no_match_in:
  assumes "i < length ps" "ps ! i = Ch x" "x \<notin> set u" "x \<notin> set (take i s)" "u \<noteq> []"
  shows "\<not> pmatch ps (u @ s)"
proof
  assume m: "pmatch ps (u @ s)"
  have x: "(u @ s) ! i = x" using pmatch_nth [OF m assms(1)] assms(2) by simp
  have len: "i < length (u @ s)" using pmatch_length [OF m] assms(1) by linarith
  show False
  proof (cases "i < length u")
    case True
    then have "x \<in> set u" using x by (metis nth_append nth_mem)
    then show ?thesis using assms(3) by simp
  next
    case False
    then have "s ! (i - length u) = x" using x by (simp add: nth_append)
    moreover have "i - length u < length (take i s)" using False len assms(5) by (cases u) (auto simp: not_less)
    ultimately show ?thesis using assms(4) by (metis nth_mem nth_take length_take min_less_iff_conj)
  qed
qed

lemma sub_skip_at:
  assumes "i < length ps" "ps ! i = Ch x" "x \<notin> set u" "x \<notin> set (take i s)"
  shows "sub ps r (u @ s) = u @ sub ps r s"
  by (rule sub_skip, rule no_match_in [OF assms(1,2) _ assms(4)]) (use assms(3) in auto)

lemma sub_skip_digit: "a \<notin> set u \<Longrightarrow> sub (Ch a # ps) r (u @ s) = u @ sub (Ch a # ps) r s"
  by (rule sub_skip_at [where i = 0 and x = a]) simp_all

lemma sub_clean_digit: "a \<notin> set u \<Longrightarrow> sub (Ch a # ps) r u = u"
  using sub_skip_digit [of a u ps r "[]"] by simp

lemma isdigit_neq:
  assumes "isdigit c"
  shows "c \<noteq> CHR ''/''" "c \<noteq> CHR ''-''" "c \<noteq> CHR ''_''" "c \<noteq> CHR ''.''" "c \<noteq> CHR ''=''" "c \<noteq> CHR ''y''"
    "c \<noteq> CHR ''m''" "c \<noteq> CHR ''d''" "c \<noteq> CHR ''h''" "c \<noteq> CHR ''{''" "CHR ''/'' \<noteq> c" "CHR ''-'' \<noteq> c" "CHR ''_'' \<noteq> c" "CHR ''.'' \<noteq> c"
    "CHR ''='' \<noteq> c" "CHR ''y'' \<noteq> c" "CHR ''m'' \<noteq> c" "CHR ''d'' \<noteq> c" "CHR ''h'' \<noteq> c" "CHR ''{'' \<noteq> c"
  using assms by (auto simp: isdigit_def)

lemma not_digit [simp]:
  "\<not> isdigit CHR ''/''" "\<not> isdigit CHR ''-''" "\<not> isdigit CHR ''_''" "\<not> isdigit CHR ''.''" "\<not> isdigit CHR ''=''"
  "\<not> isdigit CHR ''y''" "\<not> isdigit CHR ''e''" "\<not> isdigit CHR ''a''" "\<not> isdigit CHR ''r''" "\<not> isdigit CHR ''m''"
  "\<not> isdigit CHR ''o''" "\<not> isdigit CHR ''n''" "\<not> isdigit CHR ''t''" "\<not> isdigit CHR ''h''" "\<not> isdigit CHR ''d''" "\<not> isdigit CHR ''u''"
  by (simp_all add: isdigit_def)

text \<open>A partition URI as text, with the hour of the directory and of the file name when there is one.\<close>

definition digits :: "nat \<Rightarrow> string \<Rightarrow> bool" where
  "digits n s \<longleftrightarrow> length s = n \<and> list_all isdigit s"

definition iso_text :: "string \<Rightarrow> bool" where
  "iso_text i \<longleftrightarrow> (\<exists>y m d. digits 4 y \<and> digits 2 m \<and> digits 2 d \<and> i = y @ ''-'' @ m @ ''-'' @ d)"

definition hive_text ::
  "string \<Rightarrow> string \<Rightarrow> string \<Rightarrow> string \<Rightarrow> (string \<times> string) option \<Rightarrow> string \<Rightarrow> string \<Rightarrow> string \<Rightarrow> string" where
  "hive_text p y m i h name c ext =
     p @ ''/year='' @ y @ ''/month='' @ m @ ''/date='' @ i @ (case h of None \<Rightarrow> [] | Some (x, _) \<Rightarrow> ''/hour='' @ x)
     @ ''/'' @ name @ ''_'' @ c @ (case h of None \<Rightarrow> [] | Some (_, x) \<Rightarrow> ''_'' @ x) @ ''.'' @ ext"

definition hive_shape ::
  "string \<Rightarrow> string \<Rightarrow> string \<Rightarrow> string \<Rightarrow> (string \<times> string) option \<Rightarrow> string \<Rightarrow> string \<Rightarrow> string \<Rightarrow> bool" where
  "hive_shape p y m i h name c ext \<longleftrightarrow> clean p \<and> clean name \<and> clean ext \<and> digits 4 y \<and> digits 2 m \<and> iso_text i
     \<and> (case h of None \<Rightarrow> True | Some (x, z) \<Rightarrow> digits 2 x \<and> digits 2 z) \<and> digits 8 c"

lemma digits2: "digits 2 s \<longleftrightarrow> (\<exists>a b. s = [a, b] \<and> isdigit a \<and> isdigit b)"
  by (auto simp: digits_def length_Suc_conv numeral_eq_Suc)

lemma digits4: "digits 4 s \<longleftrightarrow> (\<exists>a b c d. s = [a, b, c, d] \<and> isdigit a \<and> isdigit b \<and> isdigit c \<and> isdigit d)"
  by (auto simp: digits_def length_Suc_conv numeral_eq_Suc)

lemma digits8: "digits 8 s \<longleftrightarrow> (\<exists>x y. s = x @ y \<and> digits 4 x \<and> digits 4 y)"
proof
  assume "digits 8 s"
  then have "s = take 4 s @ drop 4 s" "digits 4 (take 4 s)" "digits 4 (drop 4 s)"
    by (auto simp: digits_def list_all_iff dest: in_set_takeD in_set_dropD)
  then show "\<exists>x y. s = x @ y \<and> digits 4 x \<and> digits 4 y" by blast
qed (auto simp: digits_def)

lemma hive_shapeE:
  assumes "hive_shape p y m i h name c ext"
  obtains y1 y2 y3 y4 m1 m2 a1 a2 a3 a4 b1 b2 b3 b4 c1 c2 c3 c4 c5 c6 c7 c8 where
    "clean p" "clean name" "clean ext" "y = [y1, y2, y3, y4]" "m = [m1, m2]"
    "i = [a1, a2, a3, a4, CHR ''-'', b1, b2, CHR ''-'', b3, b4]" "c = [c1, c2, c3, c4, c5, c6, c7, c8]"
    "isdigit y1" "isdigit y2" "isdigit y3" "isdigit y4" "isdigit m1" "isdigit m2"
    "isdigit a1" "isdigit a2" "isdigit a3" "isdigit a4" "isdigit b1" "isdigit b2" "isdigit b3" "isdigit b4"
    "isdigit c1" "isdigit c2" "isdigit c3" "isdigit c4" "isdigit c5" "isdigit c6" "isdigit c7" "isdigit c8"
  using assms unfolding hive_shape_def iso_text_def digits8 digits2 digits4 by auto

lemma hive_text_nohour:
  "hive_text p y m i None name c ext =
     p @ ''/year='' @ y @ ''/month='' @ m @ ''/date='' @ i @ ''/'' @ name @ ''_'' @ c @ ''.'' @ ext"
  by (simp add: hive_text_def)

lemma hive_text_hour:
  "hive_text p y m i (Some ([h1, h2], [g1, g2])) name c ext =
     p @ ''/year='' @ y @ ''/month='' @ m @ ''/date='' @ i @ ''/hour='' @ [h1, h2]
     @ ''/'' @ name @ ''_'' @ c @ ''_'' @ [g1, g2] @ ''.'' @ ext"
  by (simp add: hive_text_def)

lemma skip_eq:
  assumes "i < length ps" "ps ! i = Ch (CHR ''='')" "clean u" "CHR ''='' \<notin> set (take i s)"
  shows "sub ps r (u @ s) = u @ sub ps r s"
  by (rule sub_skip_at [OF assms(1,2) _ assms(4)]) (use assms(3) in \<open>simp add: clean_simps\<close>)

lemma hive_shape_hour:
  "hive_shape p y m i (Some x) name c ext \<Longrightarrow> \<exists>h1 h2 g1 g2. x = ([h1, h2], [g1, g2])
     \<and> isdigit h1 \<and> isdigit h2 \<and> isdigit g1 \<and> isdigit g2"
  by (cases x) (auto simp: hive_shape_def digits2)

lemma clean_eq:
  assumes "i < length ps" "ps ! i = Ch (CHR ''='')" "clean u"
  shows "sub ps r u = u"
  using skip_eq [OF assms, of "[]"] by simp

lemma clean_digit: "isdigit a \<Longrightarrow> clean u \<Longrightarrow> sub (Ch a # ps) r u = u"
  "isdigit a \<Longrightarrow> clean u \<Longrightarrow> sub (Ch a # ps) r (u @ s) = u @ sub (Ch a # ps) r s"
  by (simp_all add: clean_simps sub_skip_digit sub_clean_digit)

text \<open>The facts that let the simplifier walk along a partition URI.\<close>

lemmas walk = hive_text_nohour hive_text_hour HIVE_YEAR_RE_def HIVE_MONTH_RE_def HIVE_DATE_RE_def HIVE_HOUR_RE_def
  iso_pattern_def replace_str_def lit_def isdigit_neq

lemma sub_year:
  assumes "hive_shape p y m i h name c ext"
  shows "sub HIVE_YEAR_RE (''year='' @ y') (hive_text p y m i h name c ext) = hive_text p y' m i h name c ext"
  using assms
  by (cases rule: hive_shapeE; cases h)
    (auto dest!: hive_shape_hour simp: walk skip_eq [where i = 4] clean_eq [where i = 4])

lemma sub_month:
  assumes "hive_shape p y m i h name c ext"
  shows "sub HIVE_MONTH_RE (''month='' @ m') (hive_text p y m i h name c ext) = hive_text p y m' i h name c ext"
  using assms
  by (cases rule: hive_shapeE; cases h)
    (auto dest!: hive_shape_hour simp: walk skip_eq [where i = 5] clean_eq [where i = 5])

lemma sub_date:
  assumes "hive_shape p y m i h name c ext"
  shows "sub HIVE_DATE_RE (''date='' @ i') (hive_text p y m i h name c ext) = hive_text p y m i' h name c ext"
  using assms
  by (cases rule: hive_shapeE; cases h)
    (auto dest!: hive_shape_hour simp: walk skip_eq [where i = 4] clean_eq [where i = 4])

lemma replace_compact:
  assumes "hive_shape p y m i h name c ext"
  shows "replace_str c c' (hive_text p y m i h name c ext) = hive_text p y m i h name c' ext"
  using assms
  by (cases rule: hive_shapeE; cases h) (auto dest!: hive_shape_hour simp: walk clean_digit)

lemma replace_compact_hour:
  assumes "hive_shape p y m i h name c ext" "digits 2 x"
  shows "replace_str (c @ x) r (hive_text p y m i h name c ext) = hive_text p y m i h name c ext"
  using assms
  by (cases rule: hive_shapeE; cases h) (auto dest!: hive_shape_hour simp: walk clean_digit digits2)

lemma replace_iso:
  assumes "hive_shape p y m i h name c ext" "iso_text j"
  shows "replace_str j i (hive_text p y m i h name c ext) = hive_text p y m i h name c ext"
proof -
  obtain j1 j2 j3 j4 k1 k2 k3 k4 where j: "j = [j1, j2, j3, j4, CHR ''-'', k1, k2, CHR ''-'', k3, k4]"
    "isdigit j1" "isdigit j2" "isdigit j3" "isdigit j4" "isdigit k1" "isdigit k2" "isdigit k3" "isdigit k4"
    using assms(2) unfolding iso_text_def digits2 digits4 by auto
  show ?thesis using assms(1)
    by (cases rule: hive_shapeE; cases h) (auto dest!: hive_shape_hour simp: j walk clean_digit)
qed

lemma sub_hour:
  assumes "hive_shape p y m i (Some (x, z)) name c ext" "digits 2 x'"
  shows "sub HIVE_HOUR_RE (''hour='' @ x') (hive_text p y m i (Some (x, z)) name c ext)
    = hive_text p y m i (Some (x', z)) name c ext"
  using assms(1) hive_shape_hour [OF assms(1)] assms(2)
  by - (erule hive_shapeE, auto simp: digits2 walk skip_eq [where i = 4] clean_eq [where i = 4])

section \<open>Reading the anchor back\<close>

lemma search_skip:
  assumes "i < length ps" "ps ! i = Ch x" "x \<notin> set u" "x \<notin> set (take i s)" "\<not> pmatch ps s"
  shows "search_slash ps (u @ s) = search_slash ps s"
  using assms(3)
proof (induction u)
  case (Cons c u)
  have "\<not> pmatch ps (u @ s)"
    using no_match_in [OF assms(1,2) _ assms(4), of u] assms(5) Cons.prems by (cases "u = []") auto
  then show ?case using Cons by (simp add: segment_match_def)
qed simp

lemma search_segment_skip:
  assumes "i < length ps" "ps ! i = Ch (CHR ''='')" "clean u" "CHR ''='' \<notin> set (take i s)" "\<not> pmatch ps s"
  shows "search_segment ps (u @ s) = search_slash ps s"
proof -
  have "\<not> pmatch ps (u @ s)"
    using no_match_in [OF assms(1,2) _ assms(4), of u] assms(3,5) clean_simps(1) by (cases "u = []") auto
  then show ?thesis
    using search_skip [OF assms(1,2) _ assms(4,5), of u] assms(3) clean_simps(1)
    by (simp add: search_segment_def segment_match_def)
qed

lemma search_date:
  assumes "hive_shape p y m i h name c ext"
  shows "search_segment HIVE_DATE_RE (hive_text p y m i h name c ext) = Some (''date='' @ i)"
  using assms
  by (cases rule: hive_shapeE; cases h)
    (auto dest!: hive_shape_hour simp: walk search_segment_skip [where i = 4] segment_match_def)

lemma search_hour:
  assumes "hive_shape p y m i (Some (x, z)) name c ext"
  shows "search_segment HIVE_HOUR_RE (hive_text p y m i (Some (x, z)) name c ext) = Some (''hour='' @ x)"
  using assms hive_shape_hour [OF assms]
  by - (erule hive_shapeE, auto simp: walk search_segment_skip [where i = 4] segment_match_def)

lemma infer_date_text:
  assumes "hive_shape p y m (isoformat d) h name c ext" "valid_date d"
  shows "infer_anchor_date_from_uri (hive_text p y m (isoformat d) h name c ext) = Inr (Some d)"
  using search_date [OF assms(1)] fromisoformat_isoformat [OF assms(2)]
  by (simp add: infer_anchor_date_from_uri_def)

lemma infer_hour_text:
  assumes "hive_shape p y m i (Some (pad 2 k, z)) name c ext" "k \<le> 23"
  shows "infer_anchor_hour_from_uri (hive_text p y m i (Some (pad 2 k, z)) name c ext) = Some k"
  using search_hour [OF assms(1)] assms(2) by (simp add: infer_anchor_hour_from_uri_def digits_value2)

section \<open>Generated URIs\<close>

definition compact :: "date \<Rightarrow> string" where
  "compact d = pad 4 (year d) @ pad 2 (month d) @ pad 2 (day d)"

definition hour_text :: "nat option \<Rightarrow> (string \<times> string) option" where
  "hour_text h = map_option (\<lambda>k. (pad 2 k, pad 2 k)) h"

definition valid_hour :: "nat option \<Rightarrow> bool" where
  "valid_hour h = (case h of None \<Rightarrow> True | Some k \<Rightarrow> k \<le> 23)"

lemma field_simps_hive [simp]:
  "field (uri_template_values d h) ''year'' = pad 4 (year d)"
  "field (uri_template_values d h) ''month'' = pad 2 (month d)"
  "field (uri_template_values d h) ''date'' = isoformat d"
  "field (uri_template_values d h) ''yyyymmdd'' = compact d"
  "field (uri_template_values d (Some k)) ''hour'' = pad 2 k"
  "field (uri_template_values d (Some k)) ''yyyymmddhh'' = compact d @ pad 2 k"
  by (simp_all add: field_def uri_template_values_def Let_def isoformat_def compact_def)

lemma build_file_text:
  assumes "build_partitioned_file_uri prefix d h name extension = Inr u"
  obtains p ext where "normalize_uri_prefix prefix = Inr p" "normalize_file_extension extension = Inr ext"
    "u = hive_text p (pad 4 (year d)) (pad 2 (month d)) (isoformat d) (hour_text h) name (compact d) ext"
  using assms
  by (cases h) (auto simp: build_partitioned_file_uri_def partition_directory_uri_def ok_iff Let_def
      hive_text_def hour_text_def)

lemma build_file_ok:
  "normalize_uri_prefix prefix = Inr p \<Longrightarrow> normalize_file_extension extension = Inr ext \<Longrightarrow>
   build_partitioned_file_uri prefix d h name extension =
     Inr (hive_text p (pad 4 (year d)) (pad 2 (month d)) (isoformat d) (hour_text h) name (compact d) ext)"
  by (cases h) (auto simp: build_partitioned_file_uri_def partition_directory_uri_def Let_def
      hive_text_def hour_text_def)

lemma clean_subset: "clean u \<Longrightarrow> set v \<subseteq> set u \<Longrightarrow> clean v"
  by (auto simp: clean_def list_all_iff)

lemma set_strip: "set (strip s) \<subseteq> set s" "set (rstrip P s) \<subseteq> set s" "set (lstrip P s) \<subseteq> set s"
proof -
  show l: "set (lstrip P s) \<subseteq> set s" for P s by (auto simp: lstrip_def dest: set_dropWhileD)
  show r: "set (rstrip P s) \<subseteq> set s" for P s by (auto simp: rstrip_def dest: set_dropWhileD)
  show "set (strip s) \<subseteq> set s" unfolding strip_def using l r by (meson subset_trans)
qed

lemma clean_normalized:
  "normalize_uri_prefix prefix = Inr p \<Longrightarrow> clean prefix \<Longrightarrow> clean p"
  "normalize_file_extension extension = Inr ext \<Longrightarrow> clean extension \<Longrightarrow> clean ext"
proof -
  show "clean p" if "normalize_uri_prefix prefix = Inr p" "clean prefix"
  proof -
    have "p = rstrip (\<lambda>c. c = CHR ''/'') (strip prefix)"
      using that(1) by (simp add: normalize_uri_prefix_def Let_def split: if_splits)
    then show ?thesis using that(2) set_strip(2) set_strip(1) clean_subset by metis
  qed
  show "clean ext" if "normalize_file_extension extension = Inr ext" "clean extension"
  proof -
    have "ext = lstrip (\<lambda>c. c = CHR ''.'') (strip extension)"
      using that(1) by (simp add: normalize_file_extension_def Let_def split: if_splits)
    then show ?thesis using that(2) set_strip(3) set_strip(1) clean_subset by metis
  qed
qed

lemma digits_pad: "n < 100 \<Longrightarrow> digits 2 (pad 2 n)" "m < 10000 \<Longrightarrow> digits 4 (pad 4 m)"
proof -
  show "digits 2 (pad 2 n)" if "n < 100"
  proof -
    have "n div 10 < 10" using that by simp
    then show ?thesis using that by (simp add: digits_def pad2)
  qed
  show "digits 4 (pad 4 m)" if "m < 10000"
  proof -
    have "m div 1000 < 10" using that by simp
    then show ?thesis using that by (simp add: digits_def pad4)
  qed
qed

lemma date_texts:
  assumes "valid_date d"
  shows "digits 4 (pad 4 (year d))" "digits 2 (pad 2 (month d))" "iso_text (isoformat d)" "digits 8 (compact d)"
proof -
  note b = valid_date_bounds [OF assms]
  show y: "digits 4 (pad 4 (year d))" and m: "digits 2 (pad 2 (month d))" using b digits_pad by auto
  have d: "digits 2 (pad 2 (day d))" using b digits_pad by auto
  show "iso_text (isoformat d)" unfolding iso_text_def isoformat_def using y m d by blast
  show "digits 8 (compact d)" using y m d by (simp add: digits_def compact_def)
qed

lemma hive_shape_dates:
  assumes "valid_date d1" "valid_date d2" "valid_date d3" "valid_date d4" "valid_hour h"
    and "clean p" "clean name" "clean ext"
  shows "hive_shape p (pad 4 (year d1)) (pad 2 (month d2)) (isoformat d3) (hour_text h) name (compact d4) ext"
  using date_texts [OF assms(1)] date_texts [OF assms(2)] date_texts [OF assms(3)] date_texts [OF assms(4)] assms(5-)
  by (cases h) (simp_all add: hive_shape_def hour_text_def valid_hour_def digits_pad)

lemma search_no_hour:
  assumes "hive_shape p y m i None name c ext"
  shows "search_segment HIVE_HOUR_RE (hive_text p y m i None name c ext) = None"
  using assms
proof (cases rule: hive_shapeE)
  case (1 y1 y2 y3 y4 m1 m2 a1 a2 a3 a4 b1 b2 b3 b4 c1 c2 c3 c4 c5 c6 c7 c8)
  have skip: "search_slash HIVE_HOUR_RE (u @ s) = search_slash HIVE_HOUR_RE s"
    if "clean u" "CHR ''='' \<notin> set (take 4 s)" "\<not> pmatch HIVE_HOUR_RE s" for u s
    by (rule search_skip [where i = 4 and x = "CHR ''=''"])
      (use that in \<open>simp_all add: clean_simps HIVE_HOUR_RE_def lit_def\<close>)
  have fin: "search_slash HIVE_HOUR_RE ext = None" using skip [of ext "[]"] 1 by (simp add: HIVE_HOUR_RE_def lit_def)
  have nm: "\<not> pmatch HIVE_HOUR_RE (name @ CHR ''_'' # s)" if "CHR ''='' \<notin> set (take 3 s)" for s
    using no_match_in [of 4 HIVE_HOUR_RE "CHR ''=''" name "CHR ''_'' # s"] that 1(2)
    by (cases "name = []") (simp_all add: clean_simps HIVE_HOUR_RE_def lit_def numeral_eq_Suc)
  note U = HIVE_HOUR_RE_def lit_def list.map append.simps
  show ?thesis using 1(8-) 1(1)
    by (simp add: 1(4-7) walk nm [unfolded U] skip [OF 1(2), unfolded U] fin [unfolded U] search_segment_skip [where i = 4] segment_match_def)
qed

lemma no_brace: "CHR ''{'' \<notin> set u \<Longrightarrow> \<not> contains (placeholder name) u"
  by (induction u) (auto simp: placeholder_def starts_with_def)

lemma hive_text_no_brace:
  assumes "hive_shape p y m i h name c ext"
  shows "CHR ''{'' \<notin> set (hive_text p y m i h name c ext)"
  using assms
  by (cases rule: hive_shapeE; cases h)
    (auto dest!: hive_shape_hour simp: hive_text_nohour hive_text_hour clean_simps isdigit_neq)

lemma render_hive_text:
  "hive_shape p y m i h name c ext \<Longrightarrow>
   render_uri_for_partition (hive_text p y m i h name c ext) d k = roll_hive_partition_uri (hive_text p y m i h name c ext) d k"
  by (simp add: render_uri_for_partition_def render_explicit_partition_placeholders_def template_fields_def
      no_brace hive_text_no_brace)

lemma roll_hive_text:
  assumes v: "valid_date d" "valid_date e" "valid_hour h" "valid_hour k" and c: "clean p" "clean name" "clean ext"
    and hk: "k \<noteq> None \<longrightarrow> h \<noteq> None"
  shows "roll_hive_partition_uri
      (hive_text p (pad 4 (year d)) (pad 2 (month d)) (isoformat d) (hour_text h) name (compact d) ext) e k =
    Inr (hive_text p (pad 4 (year e)) (pad 2 (month e)) (isoformat e)
      (case k of None \<Rightarrow> hour_text h | Some x \<Rightarrow> Some (pad 2 x, pad 2 (the h))) name (compact e) ext)"
proof -
  note sh = hive_shape_dates [OF _ _ _ _ v(3) c]
  have r1: "sub HIVE_YEAR_RE (''year='' @ pad 4 (year e))
      (hive_text p (pad 4 (year d)) (pad 2 (month d)) (isoformat d) (hour_text h) name (compact d) ext) =
      hive_text p (pad 4 (year e)) (pad 2 (month d)) (isoformat d) (hour_text h) name (compact d) ext"
    by (rule sub_year, rule sh) (rule v)+
  have r2: "sub HIVE_MONTH_RE (''month='' @ pad 2 (month e))
      (hive_text p (pad 4 (year e)) (pad 2 (month d)) (isoformat d) (hour_text h) name (compact d) ext) =
      hive_text p (pad 4 (year e)) (pad 2 (month e)) (isoformat d) (hour_text h) name (compact d) ext"
    by (rule sub_month, rule sh) (rule v)+
  have r3: "sub HIVE_DATE_RE (''date='' @ isoformat e)
      (hive_text p (pad 4 (year e)) (pad 2 (month e)) (isoformat d) (hour_text h) name (compact d) ext) =
      hive_text p (pad 4 (year e)) (pad 2 (month e)) (isoformat e) (hour_text h) name (compact d) ext"
    by (rule sub_date, rule sh) (rule v)+
  have r4: "replace_str (isoformat d) (isoformat e)
      (hive_text p (pad 4 (year e)) (pad 2 (month e)) (isoformat e) (hour_text h) name (compact d) ext) =
      hive_text p (pad 4 (year e)) (pad 2 (month e)) (isoformat e) (hour_text h) name (compact d) ext"
    by (rule replace_iso, rule sh) (rule v date_texts)+
  have r6: "replace_str (compact d) (compact e)
      (hive_text p (pad 4 (year e)) (pad 2 (month e)) (isoformat e) (hour_text h) name (compact d) ext) =
      hive_text p (pad 4 (year e)) (pad 2 (month e)) (isoformat e) (hour_text h) name (compact e) ext"
    by (rule replace_compact, rule sh) (rule v)+
  have anchor: "infer_anchor_date_from_uri
      (hive_text p (pad 4 (year d)) (pad 2 (month d)) (isoformat d) (hour_text h) name (compact d) ext) = Inr (Some d)"
    by (rule infer_date_text [OF sh]) (rule v)+
  show ?thesis
  proof (cases k)
    case None
    then show ?thesis
      using anchor r1 r2 r3 r4 r6 by (simp add: roll_hive_partition_uri_def Let_def compact_def [symmetric])
  next
    case (Some x)
    then obtain j where j: "h = Some j" using hk by auto
    have jx: "j \<le> 23" "x \<le> 23" "digits 2 (pad 2 j)" "digits 2 (pad 2 x)"
      using v j Some digits_pad by (auto simp: valid_hour_def)
    have ht: "hour_text h = Some (pad 2 j, pad 2 j)" by (simp add: j hour_text_def)
    have sh': "hive_shape p (pad 4 (year e)) (pad 2 (month e)) (isoformat e) (Some (pad 2 z, pad 2 j)) name (compact d) ext"
      if "digits 2 (pad 2 z)" for z
      using sh [OF v(2) v(2) v(2) v(1)] jx that unfolding ht by (simp add: hive_shape_def)
    have r5: "replace_str (compact d @ pad 2 j) r
        (hive_text p (pad 4 (year e)) (pad 2 (month e)) (isoformat e) (hour_text h) name (compact d) ext) =
        hive_text p (pad 4 (year e)) (pad 2 (month e)) (isoformat e) (hour_text h) name (compact d) ext" for r
      by (rule replace_compact_hour, rule sh) (rule v jx)+
    have rh: "sub HIVE_HOUR_RE (''hour='' @ pad 2 x)
        (hive_text p (pad 4 (year e)) (pad 2 (month e)) (isoformat e) (hour_text h) name (compact d) ext) =
        hive_text p (pad 4 (year e)) (pad 2 (month e)) (isoformat e) (Some (pad 2 x, pad 2 j)) name (compact d) ext"
      unfolding ht by (rule sub_hour [OF sh'], rule jx, rule jx)
    have r7: "replace_str (compact d) (compact e)
        (hive_text p (pad 4 (year e)) (pad 2 (month e)) (isoformat e) (Some (pad 2 x, pad 2 j)) name (compact d) ext) =
        hive_text p (pad 4 (year e)) (pad 2 (month e)) (isoformat e) (Some (pad 2 x, pad 2 j)) name (compact e) ext"
      by (rule replace_compact, rule sh', rule jx)
    have hr: "infer_anchor_hour_from_uri
        (hive_text p (pad 4 (year d)) (pad 2 (month d)) (isoformat d) (hour_text h) name (compact d) ext) = Some j"
      using sh [OF v(1) v(1) v(1) v(1)] jx(1) unfolding ht by (rule infer_hour_text)
    show ?thesis
      using anchor r1 r2 r3 r4 r5 rh r7 hr Some j
      by (simp add: roll_hive_partition_uri_def Let_def compact_def [symmetric])
  qed
qed

section \<open>Properties\<close>



text \<open>
  The date and the hour in a generated URI are read back: the anchor found in
  it is the partition it was generated for, and none is found for the hour of a
  daily one.
\<close>

theorem anchor_round_trip:
  assumes "valid_date d" and "valid_hour h" and "clean prefix" and "clean name" and "clean extension"
    and "build_partitioned_file_uri prefix d h name extension = Inr u"
  shows "infer_anchor_date_from_uri u = Inr (Some d) \<and> infer_anchor_hour_from_uri u = h"
proof -
  obtain p ext where n: "normalize_uri_prefix prefix = Inr p" "normalize_file_extension extension = Inr ext"
    and u: "u = hive_text p (pad 4 (year d)) (pad 2 (month d)) (isoformat d) (hour_text h) name (compact d) ext"
    by (rule build_file_text [OF assms(6)])
  have c: "clean p" "clean ext" using clean_normalized n assms by blast+
  have s: "hive_shape p (pad 4 (year d)) (pad 2 (month d)) (isoformat d) (hour_text h) name (compact d) ext"
    using assms c by (intro hive_shape_dates)
  have "infer_anchor_hour_from_uri u = h"
  proof (cases h)
    case None
    then show ?thesis
      using search_no_hour s u by (simp add: infer_anchor_hour_from_uri_def hour_text_def)
  next
    case (Some k)
    then show ?thesis
      using infer_hour_text [of p _ _ _ k "pad 2 k"] s u assms(2) by (simp add: hour_text_def valid_hour_def)
  qed
  then show ?thesis using infer_date_text [OF s assms(1)] u by simp
qed

theorem anchor_round_trip_witness:
  "infer_anchor_hour_from_uri ''gs://b/ev/year=2024/month=02/date=2024-02-29/hour=07/ev_20240229_07.json'' = Some 7"
proof -
  have b: "build_partitioned_file_uri ''gs://b/ev'' (Date 2024 2 29) (Some 7) ''ev'' ''json'' =
      Inr ''gs://b/ev/year=2024/month=02/date=2024-02-29/hour=07/ev_20240229_07.json''" by code_simp
  have "valid_date (Date 2024 2 29)" "valid_hour (Some 7)" "clean ''gs://b/ev''" "clean ''ev''" "clean ''json''"
    by code_simp+
  from anchor_round_trip [OF this b] show ?thesis by simp
qed



text \<open>
  The order of the literal replacements matters as well: the text of the target
  hour may contain the text of the anchor date, and the last replacement then
  rewrites what an earlier one wrote.
\<close>

lemma roll_rewrites_target:
  "roll_hive_partition_uri ''gs://b/date=2011-12-01/hour=01/e_2011120101'' (Date 2020 11 12) (Some 1)
   = Inr ''gs://b/date=2020-11-12/hour=01/e_2020201112''"
  by code_simp

end
