(* ===== verification/Hive_Plan.thy ===== *)
theory Hive_Plan
  imports Hive_Uris
begin

text \<open>
  Model of \<^verbatim>\<open>pipeline/hive.py\<close>: the configuration of a partition range, the
  points of the range, the choice between URI templates and prefixes, and the
  plan, one run per partition with distinct outputs.  The generator of points is
  the list of its points together with the exception that ends it, so that the
  comprehension that consumes it raises what the code raises first.
\<close>

section \<open>Configuration\<close>

record hive_range_config =
  source_prefix :: "string option"
  output_prefix :: "string option"
  source_uri :: "string option"
  output_uri :: "string option"
  start_date :: "date option"
  end_date :: "date option"
  start_hour :: int
  end_hour :: int
  partition_granularity :: string
  input_format :: string
  input_mode :: string
  file_name_prefix :: "string option"
  source_file_extension :: "string option"
  output_file_extension :: string

record partition_run_plan =
  logical_date :: "date option"
  logical_hour :: "nat option"
  plan_source_uri :: string
  plan_output_uri :: string

text \<open>The truth value of an optional string.\<close>

definition truthy :: "string option \<Rightarrow> bool" where
  "truthy v = (case v of None \<Rightarrow> False | Some s \<Rightarrow> s \<noteq> [])"

section \<open>Points of the range\<close>

definition hours_of :: "string \<Rightarrow> int \<Rightarrow> int \<Rightarrow> nat option list" where
  "hours_of granularity sh eh =
     (if granularity = ''daily'' then [None] else map (\<lambda>h. Some (nat h)) [sh..eh])"

definition iter_partition_points ::
  "date \<Rightarrow> date \<Rightarrow> string \<Rightarrow> int \<Rightarrow> int \<Rightarrow> (date \<times> nat option) list \<times> pyerr option" where
  "iter_partition_points sd ed granularity sh eh =
     (if ed < sd then ([], Some (ValueError ''--start-date must be <= --end-date.''))
      else if granularity \<noteq> ''daily'' \<and> granularity \<noteq> ''hourly''
      then ([], Some (ValueError ''Unsupported partition granularity''))
      else if granularity = ''hourly'' \<and> (\<not> (0 \<le> sh \<and> sh \<le> 23) \<or> \<not> (0 \<le> eh \<and> eh \<le> 23))
      then ([], Some (ValueError ''Hourly partition bounds must be between 0 and 23.''))
      else if granularity = ''hourly'' \<and> eh < sh
      then ([], Some (ValueError ''--start-hour must be <= --end-hour.''))
      else case day_range sd ed of
             (days, err) \<Rightarrow> (concat (map (\<lambda>d. map (\<lambda>h. (d, h)) (hours_of granularity sh eh)) days), err))"

section \<open>Selection\<close>

definition FORMAT_SUFFIXES :: "(string \<times> string list) list" where
  "FORMAT_SUFFIXES =
     [(''csv'', [''.csv'']), (''json'', [''.json'']), (''json_array'', [''.json'']), (''jsonl'', [''.jsonl'']),
      (''xml'', [''.xml'']), (''parquet'', [''.parquet''])]"

definition removeprefix :: "string \<Rightarrow> string \<Rightarrow> string" where
  "removeprefix p s = (if starts_with p s then drop (length p) s else s)"

definition input_format_extensions :: "string \<Rightarrow> string list result" where
  "input_format_extensions format_name =
     (case map_of FORMAT_SUFFIXES format_name of
        None \<Rightarrow> Inl (KeyError format_name)
      | Some suffixes \<Rightarrow> Inr (map (removeprefix ''.'') suffixes))"

definition source_file_extensions :: "hive_range_config \<Rightarrow> string list result" where
  "source_file_extensions config =
     rbind (input_format_extensions (input_format config)) (\<lambda>valid_extensions.
       if \<not> truthy (source_file_extension config) then Inr valid_extensions
       else rbind (normalize_file_extension (the (source_file_extension config))) (\<lambda>extension.
         if extension \<notin> set valid_extensions then Inl (ValueError ''--input-format requires another extension'')
         else Inr [extension]))"

definition mode_like_segments :: "string list" where
  "mode_like_segments = [''rt'', ''full'', ''batch'', ''daily'', ''hourly'', ''streaming'']"

definition file_name_prefix_of :: "hive_range_config \<Rightarrow> string result" where
  "file_name_prefix_of config =
     (if truthy (file_name_prefix config) then Inr (strip (the (file_name_prefix config)))
      else if \<not> truthy (source_prefix config)
      then Inl (ValueError ''--file-name-prefix is required when no source prefix is configured'')
      else let segments = uri_path_segments (the (source_prefix config)) in
        if segments = [] then Inl (ValueError ''Could not infer --file-name-prefix'')
        else if length segments \<ge> 2 \<and> lower (last segments) \<in> set mode_like_segments
        then Inr (segments ! (length segments - 2))
        else Inr (last segments))"

datatype selection_mode = Uri_Mode | Prefix_Mode

definition uri_selection_mode :: "hive_range_config \<Rightarrow> selection_mode result" where
  "uri_selection_mode config =
     (let has_uri = truthy (source_uri config) \<or> truthy (output_uri config);
          has_prefix = truthy (source_prefix config) \<or> truthy (output_prefix config) in
      if has_uri \<and> has_prefix then Inl (ValueError ''Use either full URI arguments or prefix arguments, not both.'')
      else if has_prefix
      then if \<not> truthy (source_prefix config) \<or> \<not> truthy (output_prefix config)
           then Inl (ValueError ''Prefix mode requires both prefixes'') else Inr Prefix_Mode
      else if \<not> truthy (source_uri config) \<or> \<not> truthy (output_uri config)
           then Inl (ValueError ''URI mode requires both URIs'') else Inr Uri_Mode)"

section \<open>The plan\<close>

fun scan_duplicates :: "string set \<Rightarrow> string list \<Rightarrow> string list \<Rightarrow> string list" where
  "scan_duplicates seen duplicates [] = duplicates"
| "scan_duplicates seen duplicates (u # us) =
     (if u \<in> seen then scan_duplicates seen (u # duplicates) us
      else scan_duplicates (insert u seen) duplicates us)"

definition validate_unique_outputs :: "partition_run_plan list \<Rightarrow> unit result" where
  "validate_unique_outputs plans =
     guard_raise (scan_duplicates {} [] (map plan_output_uri plans) \<noteq> [])
       (ValueError ''Partition range produced duplicate output Parquet URIs.'')"

fun collect :: "('a \<Rightarrow> 'b result) \<Rightarrow> 'a list \<Rightarrow> pyerr option \<Rightarrow> 'b list result" where
  "collect f [] err = (case err of None \<Rightarrow> Inr [] | Some e \<Rightarrow> Inl e)"
| "collect f (x # xs) err = rbind (f x) (\<lambda>y. rlift (\<lambda>ys. y # ys) (collect f xs err))"

definition uri_plan :: "string \<Rightarrow> string \<Rightarrow> date \<times> nat option \<Rightarrow> partition_run_plan result" where
  "uri_plan src out point =
     (case point of (d, h) \<Rightarrow>
        rbind (render_uri_for_partition src d h) (\<lambda>s.
        rlift (\<lambda>t. \<lparr>logical_date = Some d, logical_hour = h, plan_source_uri = s, plan_output_uri = t\<rparr>)
          (render_uri_for_partition out d h)))"

definition prefix_plan ::
  "hive_range_config \<Rightarrow> string \<Rightarrow> string \<Rightarrow> string \<Rightarrow> date \<times> nat option \<Rightarrow> partition_run_plan result" where
  "prefix_plan config name source_extension output_extension point =
     (case point of (d, h) \<Rightarrow>
        rbind (if input_mode config = ''directory''
               then build_partition_directory_uri (the (source_prefix config)) d h
               else build_partitioned_file_uri (the (source_prefix config)) d h name source_extension) (\<lambda>s.
        rlift (\<lambda>t. \<lparr>logical_date = Some d, logical_hour = h, plan_source_uri = s, plan_output_uri = t\<rparr>)
          (build_partitioned_file_uri (the (output_prefix config)) d h name output_extension)))"

definition build_hive_range_plan :: "hive_range_config \<Rightarrow> partition_run_plan list result" where
  "build_hive_range_plan config =
     rbind (source_file_extensions config) (\<lambda>source_extensions.
     if input_mode config = ''directory'' \<and> truthy (source_file_extension config)
     then Inl (ValueError ''--source-file-extension is only valid with --input-mode=single_file.'')
     else rbind (uri_selection_mode config) (\<lambda>mode.
     if mode = Uri_Mode \<and> start_date config = None \<and> end_date config = None
     then Inr [\<lparr>logical_date = None, logical_hour = None, plan_source_uri = the (source_uri config),
                plan_output_uri = the (output_uri config)\<rparr>]
     else case (start_date config, end_date config) of
            (Some sd, Some ed) \<Rightarrow>
              (case iter_partition_points sd ed (partition_granularity config) (start_hour config) (end_hour config) of
                 (points, err) \<Rightarrow>
                   rbind (if mode = Uri_Mode
                          then collect (uri_plan (the (source_uri config)) (the (output_uri config))) points err
                          else rbind (file_name_prefix_of config) (\<lambda>name.
                               rbind (normalize_file_extension (output_file_extension config)) (\<lambda>output_extension.
                               collect (prefix_plan config name (hd source_extensions) output_extension) points err)))
                     (\<lambda>plans. rlift (\<lambda>_. plans) (validate_unique_outputs plans)))
          | _ \<Rightarrow> Inl (ValueError (if mode = Prefix_Mode
                                 then ''Prefix mode requires both --start-date and --end-date so Hive partition paths can be generated.''
                                 else ''Pass both --start-date and --end-date, or neither.''))))"

section \<open>Command line\<close>

text \<open>The attributes of the argument namespace that planning reads; an absent one is \<open>None\<close>.\<close>

record hive_namespace =
  ns_source_prefix :: "string option"
  ns_output_prefix :: "string option"
  ns_source_uri :: "string option"
  ns_output_uri :: "string option"
  ns_start_date :: "date option"
  ns_end_date :: "date option"
  ns_start_hour :: "int option"
  ns_end_hour :: "int option"
  ns_partition_granularity :: "string option"
  ns_input_format :: "string option"
  ns_input_mode :: "string option"
  ns_file_name_prefix :: "string option"
  ns_source_file_extension :: "string option"
  ns_output_extension :: "string option"
  ns_start_date_warm_up :: "date option"
  ns_end_date_warm_up :: "date option"
  ns_start_hour_warm_up :: "int option"
  ns_end_hour_warm_up :: "int option"

definition default :: "'a \<Rightarrow> 'a option \<Rightarrow> 'a" where
  "default d v = (case v of None \<Rightarrow> d | Some x \<Rightarrow> x)"

definition hive_config_from_namespace :: "hive_namespace \<Rightarrow> hive_range_config" where
  "hive_config_from_namespace args =
     \<lparr>source_prefix = ns_source_prefix args, output_prefix = ns_output_prefix args,
      source_uri = ns_source_uri args, output_uri = ns_output_uri args,
      start_date = ns_start_date args, end_date = ns_end_date args,
      start_hour = default 0 (ns_start_hour args), end_hour = default 23 (ns_end_hour args),
      partition_granularity = default ''daily'' (ns_partition_granularity args),
      input_format = default ''json_array'' (ns_input_format args),
      input_mode = default ''single_file'' (ns_input_mode args),
      file_name_prefix = ns_file_name_prefix args, source_file_extension = ns_source_file_extension args,
      output_file_extension = default ''parquet'' (ns_output_extension args)\<rparr>"

definition build_hive_range_plan_from_namespace :: "hive_namespace \<Rightarrow> partition_run_plan list result" where
  "build_hive_range_plan_from_namespace args = build_hive_range_plan (hive_config_from_namespace args)"

definition build_warm_up_hive_range_plan_from_namespace :: "hive_namespace \<Rightarrow> partition_run_plan list result" where
  "build_warm_up_hive_range_plan_from_namespace args =
     (case (ns_start_date_warm_up args, ns_end_date_warm_up args) of
        (None, None) \<Rightarrow> Inr []
      | (Some sd, Some ed) \<Rightarrow>
          build_hive_range_plan_from_namespace
            (args\<lparr>ns_start_date := Some sd, ns_end_date := Some ed,
                  ns_start_hour := ns_start_hour_warm_up args, ns_end_hour := ns_end_hour_warm_up args\<rparr>)
      | _ \<Rightarrow> Inl (ValueError ''Pass both --start-date-warm-up and --end-date-warm-up, or neither.''))"

definition plan_label :: "partition_run_plan \<Rightarrow> string" where
  "plan_label plan =
     (case logical_date plan of
        None \<Rightarrow> ''single-file''
      | Some d \<Rightarrow>
          (case logical_hour plan of
             Some h \<Rightarrow> isoformat d @ ''/hour='' @ pad 2 h
           | None \<Rightarrow> isoformat d))"

section \<open>Lemmas\<close>

lemma collect_Inr [ok_iff]:
  "collect f xs err = Inr ys \<longleftrightarrow> err = None \<and> list_all2 (\<lambda>x y. f x = Inr y) xs ys"
  by (induction xs arbitrary: ys) (auto simp: ok_iff list_all2_Cons1 split: option.splits)

lemma collect_all:
  assumes "\<And>x. x \<in> set xs \<Longrightarrow> f x = Inr (g x)"
  shows "collect f xs err = (case err of None \<Rightarrow> Inr (map g xs) | Some e \<Rightarrow> Inl e)"
  using assms by (induction xs) (auto split: option.splits)

lemma scan_duplicates_Nil:
  "scan_duplicates seen dups us = [] \<longleftrightarrow> dups = [] \<and> distinct us \<and> set us \<inter> seen = {}"
  by (induction seen dups us rule: scan_duplicates.induct) auto

lemma validate_unique_outputs_ok [ok_iff]:
  "validate_unique_outputs plans = Inr u \<longleftrightarrow> distinct (map plan_output_uri plans)"
  by (simp add: validate_unique_outputs_def scan_duplicates_Nil)

definition plan_key :: "partition_run_plan \<Rightarrow> date option \<times> nat option" where
  "plan_key p = (logical_date p, logical_hour p)"

fun hour_less :: "nat option \<Rightarrow> nat option \<Rightarrow> bool" where
  "hour_less (Some a) (Some b) = (a < b)"
| "hour_less _ _ = False"

definition point_less :: "date \<times> nat option \<Rightarrow> date \<times> nat option \<Rightarrow> bool" where
  "point_less p q \<longleftrightarrow> fst p < fst q \<or> (fst p = fst q \<and> hour_less (snd p) (snd q))"

lemma uri_plan_key: "uri_plan src out pt = Inr p \<Longrightarrow> plan_key p = (Some (fst pt), snd pt)"
  by (cases pt) (auto simp: uri_plan_def ok_iff plan_key_def)

lemma prefix_plan_key: "prefix_plan config name e1 e2 pt = Inr p \<Longrightarrow> plan_key p = (Some (fst pt), snd pt)"
  by (cases pt) (auto simp: prefix_plan_def ok_iff plan_key_def)

lemma hours_sorted: "0 \<le> sh \<Longrightarrow> sorted_wrt hour_less (hours_of g sh eh)"
proof (induction "nat (eh + 1 - sh)" arbitrary: sh)
  case 0
  then show ?case by (simp add: hours_of_def)
next
  case (Suc n)
  show ?case
  proof (cases "g = ''daily''")
    case False
    have "[sh..eh] = sh # [sh + 1..eh]" using Suc(2) by (subst upto.simps) simp
    moreover have "sorted_wrt hour_less (hours_of g (sh + 1) eh)" using Suc by (intro Suc(1)) auto
    ultimately show ?thesis using False Suc(3) by (auto simp: hours_of_def)
  qed (simp add: hours_of_def)
qed

lemma sorted_product:
  assumes "sorted_wrt (<) ds" "sorted_wrt hour_less hs"
  shows "sorted_wrt point_less (concat (map (\<lambda>d. map (\<lambda>h. (d, h)) hs) ds))"
  using assms(1)
proof (induction ds)
  case (Cons d ds)
  have "sorted_wrt point_less (map (\<lambda>h. (d, h)) hs)"
    using assms(2) by (simp add: sorted_wrt_map point_less_def)
  moreover have "\<forall>x\<in>set (map (\<lambda>h. (d, h)) hs). \<forall>y\<in>set (concat (map (\<lambda>d. map (\<lambda>h. (d, h)) hs) ds)). point_less x y"
    using Cons.prems by (auto simp: point_less_def)
  ultimately show ?case using Cons by (simp add: sorted_wrt_append)
qed simp

lemma points_spec:
  assumes "iter_partition_points sd ed g sh eh = (points, None)" "valid_date sd"
  shows "set points = {(d, h). valid_date d \<and> sd \<le> d \<and> d \<le> ed \<and> h \<in> set (hours_of g sh eh)}"
    and "sorted_wrt point_less points"
proof -
  obtain days where r: "day_range sd ed = (days, None)"
    and p: "points = concat (map (\<lambda>d. map (\<lambda>h. (d, h)) (hours_of g sh eh)) days)"
    and g: "g = ''daily'' \<or> 0 \<le> sh"
    using assms(1) by (auto simp: iter_partition_points_def split: if_splits prod.splits)
  have d: "set days = {x. valid_date x \<and> sd \<le> x \<and> x \<le> ed}" "sorted_wrt (<) days"
    using day_range_spec [OF assms(2), of ed] r by auto
  show "set points = {(d, h). valid_date d \<and> sd \<le> d \<and> d \<le> ed \<and> h \<in> set (hours_of g sh eh)}"
    using d(1) by (auto simp: p)
  have "sorted_wrt hour_less (hours_of g sh eh)"
    using g hours_sorted [of sh g eh] by (cases "g = ''daily''") (simp_all add: hours_of_def [of "''daily''"])
  then show "sorted_wrt point_less points" using sorted_product [OF d(2)] p by simp
qed

lemma list_all2_map_eq: "list_all2 (\<lambda>x y. f x = Inr y) xs ys \<Longrightarrow> (\<And>x y. f x = Inr y \<Longrightarrow> k y = g x) \<Longrightarrow> map k ys = map g xs"
  by (induction rule: list_all2_induct) auto

lemma plan_keys:
  "list_all2 (\<lambda>x y. uri_plan src out x = Inr y) pts ps \<Longrightarrow> map plan_key ps = map (\<lambda>p. (Some (fst p), snd p)) pts"
  "list_all2 (\<lambda>x y. prefix_plan config name e1 e2 x = Inr y) pts ps \<Longrightarrow> map plan_key ps = map (\<lambda>p. (Some (fst p), snd p)) pts"
  by (erule list_all2_map_eq, erule uri_plan_key) (erule list_all2_map_eq, erule prefix_plan_key)

lemma range_planE:
  assumes "build_hive_range_plan config = Inr plans" "start_date config = Some sd" "end_date config = Some ed"
  obtains points where
    "iter_partition_points sd ed (partition_granularity config) (start_hour config) (end_hour config) = (points, None)"
    "map plan_key plans = map (\<lambda>p. (Some (fst p), snd p)) points" "distinct (map plan_output_uri plans)"
proof -
  obtain points err where it: "iter_partition_points sd ed (partition_granularity config) (start_hour config) (end_hour config) = (points, err)"
    by (cases "iter_partition_points sd ed (partition_granularity config) (start_hour config) (end_hour config)")
  have "err = None \<and> map plan_key plans = map (\<lambda>p. (Some (fst p), snd p)) points \<and> distinct (map plan_output_uri plans)"
    using assms it
    by (auto simp: build_hive_range_plan_def ok_iff plan_keys split: if_splits)
  then show ?thesis using that it by blast
qed


text \<open>Running off the end of the calendar.\<close>

lemma day_range_end:
  "valid_date d \<Longrightarrow> valid_date e \<Longrightarrow> d \<le> e \<Longrightarrow> snd (day_range d e) =
     (if e = Date 9999 12 31 then Some (OverflowError ''date value out of range'') else None)"
proof (induction d e rule: day_range.induct)
  case (1 d e)
  show ?case
  proof (cases "next_day d")
    case (Inl err)
    then have "d = Date 9999 12 31" "err = OverflowError ''date value out of range''"
      using 1(2) by (cases d; auto simp: next_day_def valid_date_def days_in_month_def split: if_splits)+
    moreover have "e = d" using next_day_last [OF 1(2) Inl 1(3)] 1(4) by simp
    ultimately show ?thesis using Inl by (simp add: day_range.simps)
  next
    case (Inr d')
    obtain ds x where r: "day_range d' e = (ds, x)" by (cases "day_range d' e")
    have "\<not> e < d" using 1(4) by (simp add: not_less)
    then have s: "snd (day_range d e) = x" using Inr r by (simp add: day_range.simps [of d])
    note v = next_day_valid [OF 1(2) Inr]
    show ?thesis
    proof (cases "d' \<le> e")
      case True
      then show ?thesis using 1(1) [OF _ Inr] v 1(3,4) r s by (simp add: not_less)
    next
      case False
      then have "e < d'" by (simp add: not_le)
      then have "x = None" using r by (simp add: day_range.simps [of d'])
      moreover have "e = d" using False next_day_least [OF 1(2) Inr 1(3)] 1(4) by force
      moreover have "d \<noteq> Date 9999 12 31" using Inr by (auto simp: next_day_def days_in_month_def)
      ultimately show ?thesis using s by simp
    qed
  qed
qed

lemma length_isoformat: "valid_date d \<Longrightarrow> length (isoformat d) = 10"
  using valid_date_bounds [of d] by (simp add: isoformat_def length_pad)

lemma isoformat_inj: "valid_date d \<Longrightarrow> valid_date e \<Longrightarrow> isoformat d = isoformat e \<Longrightarrow> d = e"
  using fromisoformat_isoformat by (metis Inr_inject)

lemma hive_text_inj:
  assumes "valid_date d" "valid_date e" "valid_hour h" "valid_hour k" "h = None \<longleftrightarrow> k = None"
    and "hive_text p (pad 4 (year d)) (pad 2 (month d)) (isoformat d) (hour_text h) name (compact d) ext =
         hive_text p (pad 4 (year e)) (pad 2 (month e)) (isoformat e) (hour_text k) name (compact e) ext"
  shows "d = e \<and> h = k"
proof -
  note b = valid_date_bounds [OF assms(1)] valid_date_bounds [OF assms(2)]
  have len: "length (pad 4 (year d)) = length (pad 4 (year e))" "length (pad 2 (month d)) = length (pad 2 (month e))"
    "length (isoformat d) = length (isoformat e)"
    using b length_pad length_isoformat assms by auto
  then have "isoformat d = isoformat e" using assms(6) by (simp add: hive_text_def)
  then have de: "d = e" using isoformat_inj assms by blast
  show ?thesis
  proof (cases h)
    case None
    then show ?thesis using de assms(5) by simp
  next
    case (Some j)
    then obtain l where l: "k = Some l" using assms(5) by auto
    have jl: "j < 100" "l < 100" using assms(3,4) Some l by (simp_all add: valid_hour_def)
    then have "pad 2 j = pad 2 l" using assms(6) Some l de by (simp add: hive_text_def hour_text_def length_pad)
    then have "j = l" using digits_value2 [OF jl(1)] digits_value2 [OF jl(2)] by metis
    then show ?thesis using de Some l by simp
  qed
qed


lemma source_extension_ok:
  assumes "source_file_extensions config = Inr exts"
  shows "is_ok (normalize_file_extension (hd exts))"
proof -
  obtain valid where v: "input_format_extensions (input_format config) = Inr valid"
    and h: "hd exts \<in> set valid"
    using assms by (auto simp: source_file_extensions_def ok_iff input_format_extensions_def FORMAT_SUFFIXES_def
        split: if_splits option.splits)
  then have "hd exts \<in> {''csv'', ''json'', ''jsonl'', ''xml'', ''parquet''}"
    by (auto simp: input_format_extensions_def FORMAT_SUFFIXES_def removeprefix_def starts_with_def
        split: if_splits option.splits)
  moreover have "list_all (\<lambda>e. is_ok (normalize_file_extension e)) [''csv'', ''json'', ''jsonl'', ''xml'', ''parquet'']"
    by code_simp
  ultimately show ?thesis by auto
qed

text \<open>A configuration of prefixes in which every single option is acceptable.\<close>

definition prefix_ready :: "hive_range_config \<Rightarrow> bool" where
  "prefix_ready config \<longleftrightarrow> is_ok (source_file_extensions config)
     \<and> \<not> (input_mode config = ''directory'' \<and> truthy (source_file_extension config))
     \<and> uri_selection_mode config = Inr Prefix_Mode
     \<and> is_ok (normalize_uri_prefix (the (source_prefix config)))
     \<and> is_ok (normalize_uri_prefix (the (output_prefix config)))
     \<and> is_ok (file_name_prefix_of config)
     \<and> is_ok (rbind (normalize_file_extension (output_file_extension config)) normalize_file_extension)
     \<and> (partition_granularity config = ''daily''
        \<or> partition_granularity config = ''hourly''
          \<and> 0 \<le> start_hour config \<and> start_hour config \<le> end_hour config \<and> end_hour config \<le> 23)"

lemma is_ok_iff: "is_ok r \<longleftrightarrow> (\<exists>x. r = Inr x)"
  by (cases r) auto

lemma is_okE: "is_ok r \<Longrightarrow> (\<And>x. r = Inr x \<Longrightarrow> P) \<Longrightarrow> P"
  by (cases r) auto


lemma prefix_planE:
  assumes "prefix_ready config"
  obtains exts name ext p o_ext src where "source_file_extensions config = Inr exts" "file_name_prefix_of config = Inr name"
    "normalize_file_extension (output_file_extension config) = Inr ext"
    "normalize_uri_prefix (the (output_prefix config)) = Inr p" "normalize_file_extension ext = Inr o_ext"
    "\<And>d h. prefix_plan config name (hd exts) ext (d, h) =
       Inr \<lparr>logical_date = Some d, logical_hour = h, plan_source_uri = src (d, h),
           plan_output_uri = hive_text p (pad 4 (year d)) (pad 2 (month d)) (isoformat d) (hour_text h) name (compact d) o_ext\<rparr>"
proof -
  obtain exts name ext p q o_ext where eq: "source_file_extensions config = Inr exts" "file_name_prefix_of config = Inr name"
    "normalize_file_extension (output_file_extension config) = Inr ext" "normalize_uri_prefix (the (output_prefix config)) = Inr p"
    "normalize_uri_prefix (the (source_prefix config)) = Inr q" "normalize_file_extension ext = Inr o_ext"
    using assms unfolding prefix_ready_def is_ok_iff by (auto simp: ok_iff)
  obtain s_ext where s_ext: "normalize_file_extension (hd exts) = Inr s_ext"
    using source_extension_ok [OF eq(1)] by (rule is_okE)
  define src where "src = (\<lambda>(d, h). projr (if input_mode config = ''directory''
      then build_partition_directory_uri (the (source_prefix config)) d h
      else build_partitioned_file_uri (the (source_prefix config)) d h name (hd exts)))"
  show ?thesis
    by (rule that [OF eq(1-4,6), of src])
      (simp add: prefix_plan_def src_def build_file_ok [OF eq(4,6)] build_file_ok [OF eq(5) s_ext]
        build_partition_directory_uri_def partition_directory_uri_def eq(5))
qed

lemma hours_uniform:
  assumes "prefix_ready config" "hs = hours_of (partition_granularity config) (start_hour config) (end_hour config)"
    and "h \<in> set hs" "k \<in> set hs"
  shows "valid_hour h" "h = None \<longleftrightarrow> k = None"
  using assms by (auto simp: prefix_ready_def hours_of_def valid_hour_def split: if_splits)

lemma point_less_distinct: "sorted_wrt point_less xs \<Longrightarrow> distinct xs"
proof (induction xs)
  case (Cons x xs)
  have "\<not> point_less x x" by (cases "snd x") (auto simp: point_less_def)
  then show ?case using Cons by auto
qed simp

section \<open>Properties\<close>

text \<open>
  C11: a plan covers its range exactly.  When planning over a date range succeeds,
  in either mode, the runs are those of every calendar day of the range and every
  configured hour, each once, in increasing order, and no two runs write the same
  output.
\<close>

theorem plan_covers_range:
  assumes "build_hive_range_plan config = Inr plans" and "start_date config = Some sd" and "end_date config = Some ed"
    and "valid_date sd"
  shows "\<exists>points. map plan_key plans = map (\<lambda>p. (Some (fst p), snd p)) points
    \<and> sorted_wrt point_less points
    \<and> set points = {(d, h). valid_date d \<and> sd \<le> d \<and> d \<le> ed
        \<and> h \<in> set (hours_of (partition_granularity config) (start_hour config) (end_hour config))}
    \<and> distinct (map plan_output_uri plans)"
proof -
  obtain points where
    "iter_partition_points sd ed (partition_granularity config) (start_hour config) (end_hour config) = (points, None)"
    "map plan_key plans = map (\<lambda>p. (Some (fst p), snd p)) points" "distinct (map plan_output_uri plans)"
    by (rule range_planE [OF assms(1-3)])
  then show ?thesis using points_spec assms(4) by blast
qed

definition sample_config :: "date \<Rightarrow> hive_range_config" where
  "sample_config ed =
     \<lparr>source_prefix = Some ''gs://b/ev/rt/'', output_prefix = Some ''gs://s/ev'', source_uri = None, output_uri = None,
      start_date = Some (Date 2024 2 28), end_date = Some ed, start_hour = 0, end_hour = 23,
      partition_granularity = ''daily'', input_format = ''jsonl'', input_mode = ''single_file'',
      file_name_prefix = None, source_file_extension = None, output_file_extension = ''.parquet''\<rparr>"

theorem plan_covers_range_witness:
  "\<exists>plans. build_hive_range_plan (sample_config (Date 2024 3 1)) = Inr plans \<and> distinct (map plan_output_uri plans)
    \<and> length plans = 3"
proof -
  obtain plans where p: "build_hive_range_plan (sample_config (Date 2024 3 1)) = Inr plans"
    by (rule is_okE [of "build_hive_range_plan (sample_config (Date 2024 3 1))"]) code_simp
  have "is_ok (rlift length (build_hive_range_plan (sample_config (Date 2024 3 1))))
      \<and> rlift length (build_hive_range_plan (sample_config (Date 2024 3 1))) = Inr 3" by code_simp
  then have "length plans = 3" using p by simp
  moreover have "valid_date (Date 2024 2 28)" by code_simp
  ultimately show ?thesis using plan_covers_range [OF p] p by (auto simp: sample_config_def)
qed

text \<open>
  C30: planning under prefixes never runs into its own duplicate check.  With
  acceptable options the plan is built, except that a range ending on the last
  day of the calendar raises an overflow, because the day after it is computed.
\<close>

theorem prefix_range_is_planned:
  assumes "prefix_ready config" and "start_date config = Some sd" and "end_date config = Some ed"
    and "valid_date sd" and "valid_date ed" and "sd \<le> ed"
  shows "if ed = Date 9999 12 31
    then build_hive_range_plan config = Inl (OverflowError ''date value out of range'')
    else \<exists>plans. build_hive_range_plan config = Inr plans"
proof -
  let ?g = "partition_granularity config" and ?hs = "hours_of (partition_granularity config) (start_hour config) (end_hour config)"
  obtain exts name ext p o_ext src where e: "source_file_extensions config = Inr exts" "file_name_prefix_of config = Inr name"
    "normalize_file_extension (output_file_extension config) = Inr ext"
    and pl: "\<And>d h. prefix_plan config name (hd exts) ext (d, h) =
       Inr \<lparr>logical_date = Some d, logical_hour = h, plan_source_uri = src (d, h),
           plan_output_uri = hive_text p (pad 4 (year d)) (pad 2 (month d)) (isoformat d) (hour_text h) name (compact d) o_ext\<rparr>"
    using prefix_planE [OF assms(1)] by metis
  obtain days err where r: "day_range sd ed = (days, err)" by (cases "day_range sd ed")
  define points where "points = concat (map (\<lambda>d. map (\<lambda>h. (d, h)) ?hs) days)"
  define plan where "plan = (\<lambda>(d, h). \<lparr>logical_date = Some d, logical_hour = h, plan_source_uri = src (d, h),
     plan_output_uri = hive_text p (pad 4 (year d)) (pad 2 (month d)) (isoformat d) (hour_text h) name (compact d) o_ext\<rparr>)"
  have it: "iter_partition_points sd ed ?g (start_hour config) (end_hour config) = (points, err)"
    using assms(1,6) r by (auto simp: iter_partition_points_def prefix_ready_def points_def)
  have c: "collect (prefix_plan config name (hd exts) ext) points err =
      (case err of None \<Rightarrow> Inr (map plan points) | Some x \<Rightarrow> Inl x)"
    by (rule collect_all) (auto simp: pl plan_def)
  have b: "build_hive_range_plan config =
      rbind (case err of None \<Rightarrow> Inr (map plan points) | Some x \<Rightarrow> Inl x)
        (\<lambda>plans. rlift (\<lambda>_. plans) (validate_unique_outputs plans))"
    using assms(1-3) e it c by (auto simp: build_hive_range_plan_def prefix_ready_def)
  have err: "err = (if ed = Date 9999 12 31 then Some (OverflowError ''date value out of range'') else None)"
    using day_range_end [OF assms(4-6)] r by simp
  show ?thesis
  proof (cases "ed = Date 9999 12 31")
    case True
    then show ?thesis using b err by simp
  next
    case False
    have pts: "set points = {(d, h). valid_date d \<and> sd \<le> d \<and> d \<le> ed \<and> h \<in> set ?hs}" "sorted_wrt point_less points"
      using points_spec [OF _ assms(4)] it err False by auto
    have "inj_on (\<lambda>x. plan_output_uri (plan x)) (set points)"
    proof (rule inj_onI)
      fix x y
      assume xy: "x \<in> set points" "y \<in> set points" "plan_output_uri (plan x) = plan_output_uri (plan y)"
      obtain d h e k where de: "x = (d, h)" "y = (e, k)" by (cases x; cases y)
      have v: "valid_date d" "valid_date e" "h \<in> set ?hs" "k \<in> set ?hs" using xy(1,2) pts(1) de by auto
      show "x = y"
        using hive_text_inj [OF v(1,2) hours_uniform(1) [OF assms(1) refl v(3,3)] hours_uniform(1) [OF assms(1) refl v(4,4)]
            hours_uniform(2) [OF assms(1) refl v(3,4)]] xy(3) de by (simp add: plan_def)
    qed
    moreover have "distinct points"
      using pts(2) by (rule point_less_distinct)
    ultimately have "distinct (map plan_output_uri (map plan points))" by (simp add: distinct_map comp_def inj_on_def)
    then show ?thesis using b err False by (auto simp: validate_unique_outputs_def scan_duplicates_Nil guard_raise_def)
  qed
qed


theorem prefix_range_is_planned_witness:
  "\<exists>plans. build_hive_range_plan (sample_config (Date 2030 12 31)) = Inr plans"
proof -
  have "prefix_ready (sample_config (Date 2030 12 31))" "valid_date (Date 2024 2 28)" "valid_date (Date 2030 12 31)"
    "Date 2024 2 28 \<le> Date 2030 12 31" by code_simp+
  from prefix_range_is_planned [OF this(1) _ _ this(2-4)] show ?thesis by (simp add: sample_config_def)
qed

end
