(* ===== verification/Cgroup_View.thy ===== *)
theory Cgroup_View
  imports Complex_Main "HOL-Library.AList" "HOL-Library.List_Lexorder" "HOL-Library.Char_ord" Py_Strings
begin

text \<open>
  Model of \<^verbatim>\<open>core_impl/cgroup_view.py\<close>: parsing of the membership and mount
  tables, the resolved hierarchy of a process, its cache, and the readings of
  limits and usage along the hierarchy.  Everything the module asks the
  operating system is an argument, a function of a tick that every reading
  advances, so that memberships may change and files may vanish between any two
  readings.  Paths are lists of components below an anchor; symbolic links are
  resolved by the operating system.  Ratios are exact.
\<close>

section \<open>Samples and views\<close>

datatype value_state = VALUE | UNBOUNDED | UNKNOWN

datatype path = Path (anchor: string) (parts: "string list")

record integer_sample =
  state :: value_state
  sample_value :: "int option"
  sample_path :: "path option"

definition sample_known :: "integer_sample \<Rightarrow> bool" where
  "sample_known s \<longleftrightarrow> state s \<noteq> UNKNOWN"

record cgroup_view =
  version :: nat
  root :: "path option"
  mountpoint :: "path option"
  controller_roots :: "(string \<times> path) list"
  controller_mountpoints :: "(string \<times> path) list"
  resolution_known :: bool
  hierarchy_complete :: bool
  controller_hierarchy_complete :: "(string \<times> bool) list"

definition unresolved :: "bool \<Rightarrow> cgroup_view" where
  "unresolved known =
     \<lparr>version = 0, root = None, mountpoint = None, controller_roots = [], controller_mountpoints = [],
      resolution_known = known, hierarchy_complete = True, controller_hierarchy_complete = []\<rparr>"

section \<open>Paths\<close>

text \<open>Components of a text: empty ones and single dots vanish; two leading slashes are an anchor of their own.\<close>

definition components :: "string \<Rightarrow> string list" where
  "components s = filter (\<lambda>c. c \<noteq> [] \<and> c \<noteq> ''.'') (split_char (CHR ''/'') s)"

definition path_of :: "string \<Rightarrow> path" where
  "path_of s =
     Path (if starts_with ''//'' s \<and> \<not> starts_with ''///'' s then ''//'' else if starts_with ''/'' s then ''/'' else [])
       (components s)"

definition parent :: "path \<Rightarrow> path" where
  "parent p = Path (anchor p) (butlast (parts p))"

definition path_name :: "path \<Rightarrow> string" where
  "path_name p = (if parts p = [] then [] else last (parts p))"

definition child :: "path \<Rightarrow> string \<Rightarrow> path" where
  "child p rel = Path (anchor p) (parts p @ components rel)"

definition is_relative_to :: "path \<Rightarrow> path \<Rightarrow> bool" where
  "is_relative_to p m \<longleftrightarrow> anchor p = anchor m \<and> take (length (parts m)) (parts p) = parts m"

section \<open>The operating system\<close>

datatype file_read = Missing | Unreadable | Content string

record os =
  os_linux :: bool
  os_pid :: nat
  os_now :: "nat \<Rightarrow> int"
  os_cgroup :: "nat \<Rightarrow> string option"
  os_mountinfo :: "nat \<Rightarrow> string option"
  os_resolve :: "nat \<Rightarrow> path \<Rightarrow> path option"
  os_open :: "nat \<Rightarrow> path \<Rightarrow> file_read"

type_synonym membership = "string option \<times> (string \<times> string) list"

record world =
  tick :: nat
  cached_pid :: nat
  cached_view :: cgroup_view
  cached_at_ns :: int
  cached_membership :: "membership option"

definition initial_world :: world where
  "initial_world = \<lparr>tick = 0, cached_pid = 0, cached_view = unresolved False, cached_at_ns = 0, cached_membership = None\<rparr>"

abbreviation step :: "world \<Rightarrow> world" where
  "step w \<equiv> w\<lparr>tick := Suc (tick w)\<rparr>"

section \<open>Methods of a view\<close>

definition controller_version :: "cgroup_view \<Rightarrow> string option \<Rightarrow> nat" where
  "controller_version v controller =
     (case controller of
        None \<Rightarrow> version v
      | Some c \<Rightarrow> if map_of (controller_roots v) c \<noteq> None then 1 else version v)"

definition root_and_mountpoint :: "cgroup_view \<Rightarrow> string option \<Rightarrow> (path \<times> path) option" where
  "root_and_mountpoint v controller =
     (let r = (case controller of None \<Rightarrow> None | Some c \<Rightarrow> map_of (controller_roots v) c);
          m = (case controller of None \<Rightarrow> None | Some c \<Rightarrow> map_of (controller_mountpoints v) c) in
      if r \<noteq> None \<or> m \<noteq> None
      then (case (r, m) of (Some r', Some m') \<Rightarrow> Some (r', m') | _ \<Rightarrow> None)
      else if version v = 2
      then (case (root v, mountpoint v) of (Some r', Some m') \<Rightarrow> Some (r', m') | _ \<Rightarrow> None)
      else None)"

definition hierarchy_is_complete :: "cgroup_view \<Rightarrow> string option \<Rightarrow> bool" where
  "hierarchy_is_complete v controller =
     (case controller of
        Some c \<Rightarrow>
          if controller_version v controller = 1
          then (case map_of (controller_hierarchy_complete v) c of Some whole \<Rightarrow> whole | None \<Rightarrow> False)
          else if version v = 2 then hierarchy_complete v
          else version v = 0 \<and> resolution_known v
      | None \<Rightarrow> if version v = 2 then hierarchy_complete v else version v = 0 \<and> resolution_known v)"

definition view_file :: "cgroup_view \<Rightarrow> string \<Rightarrow> string option \<Rightarrow> path option" where
  "view_file v name controller =
     (case root_and_mountpoint v controller of None \<Rightarrow> None | Some (r, _) \<Rightarrow> Some (child r name))"

fun ancestors :: "string \<Rightarrow> path \<Rightarrow> string list \<Rightarrow> path list option" where
  "ancestors name m ps =
     (let current = Path (anchor m) ps in
      if current = m then Some [child current name]
      else if ps = [] then None
      else map_option (\<lambda>rest. child current name # rest) (ancestors name m (butlast ps)))"

declare ancestors.simps [simp del]

definition hierarchy_files :: "os \<Rightarrow> cgroup_view \<Rightarrow> string \<Rightarrow> string option \<Rightarrow> world \<Rightarrow> path list option \<times> world" where
  "hierarchy_files sys v name controller w =
     (case root_and_mountpoint v controller of
        None \<Rightarrow> (None, w)
      | Some (r, m) \<Rightarrow>
          (case os_resolve sys (tick w) r of
             None \<Rightarrow> (None, step w)
           | Some r' \<Rightarrow>
               (case os_resolve sys (Suc (tick w)) m of
                  None \<Rightarrow> (None, step (step w))
                | Some m' \<Rightarrow> (if is_relative_to r' m' then ancestors name m' (parts r') else None, step (step w)))))"

section \<open>Bounded reading of the tables\<close>

definition LIMITS_CGROUP :: "nat \<times> nat \<times> nat" where "LIMITS_CGROUP = (16 * 1024, 256 * 1024, 4096)"
definition LIMITS_MOUNTINFO :: "nat \<times> nat \<times> nat" where "LIMITS_MOUNTINFO = (64 * 1024, 8 * 1024 * 1024, 65536)"

definition LF :: char where "LF = CHR 0x0A"
definition CR :: char where "CR = CHR 0x0D"

text \<open>The pieces \<open>readline(n)\<close> returns until the end of the file.\<close>

function read_lines :: "nat \<Rightarrow> string \<Rightarrow> string list" where
  "read_lines n s =
     (if s = [] \<or> n = 0 then []
      else let line = takeWhile (\<lambda>c. c \<noteq> LF) s;
               raw = take n (if length line < length s then line @ [LF] else line) in
           raw # read_lines n (drop (length raw) s))"
  by pat_completeness auto

termination
proof (relation "measure (\<lambda>(n, s). length s)")
  fix n :: nat and s line raw :: string
  assume s: "\<not> (s = [] \<or> n = 0)" and line: "line = takeWhile (\<lambda>c. c \<noteq> LF) s"
    and raw: "raw = take n (if length line < length s then line @ [LF] else line)"
  have "raw \<noteq> []" using s raw by (auto split: if_splits)
  then show "((n, drop (length raw) s), (n, s)) \<in> measure (\<lambda>(n, s). length s)" using s by simp
qed simp

declare read_lines.simps [simp del]

fun check_lines :: "nat \<times> nat \<times> nat \<Rightarrow> nat \<Rightarrow> nat \<Rightarrow> string list \<Rightarrow> string list option" where
  "check_lines (max_line, max_total, max_records) acc records [] = Some []"
| "check_lines (max_line, max_total, max_records) acc records (raw # rest) =
     (if length raw > max_line \<or> acc + length raw > max_total \<or> Suc records > max_records then None
      else map_option (\<lambda>ls. rstrip (\<lambda>c. c = LF \<or> c = CR) raw # ls)
             (check_lines (max_line, max_total, max_records) (acc + length raw) (Suc records) rest))"

definition iter_bounded_proc_lines :: "nat \<times> nat \<times> nat \<Rightarrow> string option \<Rightarrow> string list option" where
  "iter_bounded_proc_lines limits content =
     (case content of None \<Rightarrow> None | Some s \<Rightarrow> check_lines limits 0 0 (read_lines (fst limits + 1) s))"

definition unescape_mount_field :: "string \<Rightarrow> string" where
  "unescape_mount_field value =
     replace_str (CHR 0x5C # ''134'') [CHR 0x5C]
       (replace_str (CHR 0x5C # ''012'') [LF]
         (replace_str (CHR 0x5C # ''011'') [CHR 0x09]
           (replace_str (CHR 0x5C # ''040'') '' '' value)))"

definition or_slash :: "string \<Rightarrow> string" where
  "or_slash s = (if s = [] then ''/'' else s)"

definition join_mount_path :: "string \<Rightarrow> string \<Rightarrow> string \<Rightarrow> path option" where
  "join_mount_path mp mr cp =
     (let mp = unescape_mount_field mp; mr = or_slash (unescape_mount_field mr); cp = or_slash cp;
          under = (\<lambda>relative. Some (child (path_of mp) (lstrip (\<lambda>c. c = CHR ''/'') relative))) in
      if mr = ''/'' then under cp
      else if cp = mr then under ''/''
      else if starts_with (rstrip (\<lambda>c. c = CHR ''/'') mr @ ''/'') cp then under (drop (length mr) cp)
      else None)"


section \<open>Membership\<close>

definition dict_eq :: "('k \<times> 'v) list \<Rightarrow> ('k \<times> 'v) list \<Rightarrow> bool" where
  "dict_eq a b \<longleftrightarrow> list_all (\<lambda>k. map_of a k = map_of b k) (map fst a @ map fst b)"

definition membership_eq :: "membership option \<Rightarrow> membership option \<Rightarrow> bool" where
  "membership_eq a b =
     (case (a, b) of
        (None, None) \<Rightarrow> True
      | (Some (u, m), Some (u', m')) \<Rightarrow> u = u' \<and> dict_eq m m'
      | _ \<Rightarrow> False)"

definition add_membership :: "string \<Rightarrow> membership \<Rightarrow> membership" where
  "add_membership line m =
     (case split_once '':'' line of
        None \<Rightarrow> m
      | Some (_, rest) \<Rightarrow>
          (case split_once '':'' rest of
             None \<Rightarrow> m
           | Some (controllers, p) \<Rightarrow>
               if controllers = [] then (Some (or_slash p), snd m)
               else (fst m, fold (\<lambda>c d. if c \<noteq> [] then AList.update c (or_slash p) d else d)
                              (split_char (CHR '','') controllers) (snd m))))"

definition parse_membership :: "string option \<Rightarrow> membership option" where
  "parse_membership content =
     map_option (\<lambda>ls. fold add_membership ls (None, [])) (iter_bounded_proc_lines LIMITS_CGROUP content)"

definition read_current_membership :: "os \<Rightarrow> world \<Rightarrow> membership option \<times> world" where
  "read_current_membership sys w = (parse_membership (os_cgroup sys (tick w)), step w)"

section \<open>Resolution\<close>

fun split_ws :: "string \<Rightarrow> string list" where
  "split_ws [] = [[]]"
| "split_ws (c # s) =
     (if isspace c then [] # split_ws s
      else case split_ws s of [] \<Rightarrow> [[c]] | w # ws \<Rightarrow> (c # w) # ws)"

definition ws_fields :: "string \<Rightarrow> string list" where
  "ws_fields s = filter (\<lambda>f. f \<noteq> []) (split_ws s)"

record resolution =
  unified_candidate :: "cgroup_view option"
  v1_roots :: "(string \<times> path) list"
  v1_mountpoints :: "(string \<times> path) list"
  v1_complete :: "(string \<times> bool) list"
  saw_cgroup_mount :: bool
  saw_unresolved_membership :: bool

definition unified_mount :: "string \<Rightarrow> string \<Rightarrow> string option \<Rightarrow> resolution \<Rightarrow> resolution" where
  "unified_mount mr mp unified r =
     (let r = r\<lparr>saw_cgroup_mount := True\<rparr> in
      case unified of
        None \<Rightarrow> r
      | Some u \<Rightarrow>
          (case join_mount_path mp mr u of
             None \<Rightarrow> r\<lparr>saw_unresolved_membership := True\<rparr>
           | Some joined \<Rightarrow>
               let whole = or_slash (unescape_mount_field mr) = ''/'';
                   candidate = (unresolved True)\<lparr>version := 2, root := Some joined,
                     mountpoint := Some (path_of (unescape_mount_field mp)), hierarchy_complete := whole\<rparr> in
               if whole \<or> unified_candidate r = None then r\<lparr>unified_candidate := Some candidate\<rparr> else r))"

definition controller_mount :: "string \<Rightarrow> string \<Rightarrow> string list \<Rightarrow> string \<times> string \<Rightarrow> resolution \<Rightarrow> resolution" where
  "controller_mount mr mp options cm r =
     (case cm of (controller, p) \<Rightarrow>
        if controller \<notin> set options then r
        else case join_mount_path mp mr p of
               None \<Rightarrow> r\<lparr>saw_unresolved_membership := True\<rparr>
             | Some joined \<Rightarrow>
                 let whole = or_slash (unescape_mount_field mr) = ''/'' in
                 if map_of (v1_roots r) controller = None
                    \<or> whole \<and> \<not> the (map_of (v1_complete r) controller)
                 then r\<lparr>v1_roots := AList.update controller joined (v1_roots r),
                        v1_mountpoints := AList.update controller (path_of (unescape_mount_field mp)) (v1_mountpoints r),
                        v1_complete := AList.update controller whole (v1_complete r)\<rparr>
                 else r)"

definition add_mount :: "membership \<Rightarrow> string \<Rightarrow> resolution \<Rightarrow> resolution" where
  "add_mount m line r =
     (case split_once '' - '' line of
        None \<Rightarrow> r
      | Some (left, right) \<Rightarrow>
          let lf = ws_fields left; rf = ws_fields right in
          if length lf < 5 \<or> length rf < 3 then r
          else let mr = lf ! 3; mp = lf ! 4; fs_type = rf ! 0 in
          if fs_type = ''cgroup2'' then unified_mount mr mp (fst m) r
          else if fs_type \<noteq> ''cgroup'' then r
          else let r = r\<lparr>saw_cgroup_mount := True\<rparr> in
          if snd m = [] then r
          else let options = split_char (CHR '','') (rf ! 2)
                 @ split_char (CHR '','') (path_name (path_of (unescape_mount_field mp))) in
          fold (controller_mount mr mp options) (snd m) r)"

definition empty_resolution :: resolution where
  "empty_resolution =
     \<lparr>unified_candidate = None, v1_roots = [], v1_mountpoints = [], v1_complete = [],
      saw_cgroup_mount = False, saw_unresolved_membership = False\<rparr>"

definition view_of_resolution :: "resolution \<Rightarrow> cgroup_view" where
  "view_of_resolution r =
     (case unified_candidate r of
        Some c \<Rightarrow>
          \<lparr>version = 2, root = root c, mountpoint = mountpoint c, controller_roots = sort_key fst (v1_roots r),
           controller_mountpoints = sort_key fst (v1_mountpoints r), resolution_known = True,
           hierarchy_complete = hierarchy_complete c, controller_hierarchy_complete = sort_key fst (v1_complete r)\<rparr>
      | None \<Rightarrow>
          if v1_roots r \<noteq> []
          then \<lparr>version = 1, root = None, mountpoint = None, controller_roots = sort_key fst (v1_roots r),
                controller_mountpoints = sort_key fst (v1_mountpoints r), resolution_known = True,
                hierarchy_complete = True, controller_hierarchy_complete = sort_key fst (v1_complete r)\<rparr>
          else unresolved (\<not> (saw_cgroup_mount r \<or> saw_unresolved_membership r)))"

definition resolve_once :: "os \<Rightarrow> membership \<Rightarrow> world \<Rightarrow> cgroup_view \<times> world" where
  "resolve_once sys m w =
     ((case iter_bounded_proc_lines LIMITS_MOUNTINFO (os_mountinfo sys (tick w)) of
         None \<Rightarrow> unresolved False
       | Some ls \<Rightarrow> view_of_resolution (fold (add_mount m) ls empty_resolution)), step w)"

fun resolve_attempts :: "nat \<Rightarrow> os \<Rightarrow> membership option \<Rightarrow> world \<Rightarrow> cgroup_view \<times> world" where
  "resolve_attempts 0 sys before w = (unresolved False, w)"
| "resolve_attempts (Suc n) sys before w =
     (case (if before = None then read_current_membership sys w else (before, w)) of
        (None, w) \<Rightarrow> (unresolved False, w)
      | (Some m, w) \<Rightarrow>
          (case resolve_once sys m w of (view, w) \<Rightarrow>
           case read_current_membership sys w of (after, w) \<Rightarrow>
             if after \<noteq> None \<and> membership_eq after (Some m) then (view, w)
             else resolve_attempts n sys after w))"

definition resolve_linux_cgroup_view :: "os \<Rightarrow> membership option \<Rightarrow> world \<Rightarrow> cgroup_view \<times> world" where
  "resolve_linux_cgroup_view sys m w = resolve_attempts 2 sys m w"

definition CACHE_TTL_NS :: int where "CACHE_TTL_NS = 250000000"

definition cache_put :: "os \<Rightarrow> int \<Rightarrow> cgroup_view \<Rightarrow> membership option \<Rightarrow> world \<Rightarrow> cgroup_view \<times> world" where
  "cache_put sys now view m w =
     (view, w\<lparr>cached_pid := os_pid sys, cached_view := view, cached_membership := m, cached_at_ns := now\<rparr>)"

definition current_cgroup_view :: "os \<Rightarrow> bool \<Rightarrow> world \<Rightarrow> cgroup_view \<times> world" where
  "current_cgroup_view sys refresh w =
     (let now = os_now sys (tick w) in
      case (if os_linux sys then read_current_membership sys (step w) else (None, step w)) of (m, w) \<Rightarrow>
      if \<not> refresh \<and> cached_pid w = os_pid sys \<and> membership_eq m (cached_membership w)
         \<and> now - cached_at_ns w \<le> CACHE_TTL_NS
      then (cached_view w, w)
      else if \<not> os_linux sys then cache_put sys now (unresolved True) m w
      else if m = None then cache_put sys now (unresolved False) m w
      else case resolve_linux_cgroup_view sys m w of (view, w) \<Rightarrow>
           case read_current_membership sys w of (settled, w) \<Rightarrow>
           if \<not> membership_eq settled m
           then case resolve_linux_cgroup_view sys settled w of (view', w) \<Rightarrow> cache_put sys now view' settled w
           else cache_put sys now view m w)"

definition cgroup_file :: "os \<Rightarrow> string \<Rightarrow> string option \<Rightarrow> world \<Rightarrow> path option \<times> world" where
  "cgroup_file sys name controller w =
     (case current_cgroup_view sys False w of (view, w) \<Rightarrow> (view_file view name controller, w))"

section \<open>Control files\<close>

definition read_text_path_sample :: "os \<Rightarrow> nat \<Rightarrow> path \<Rightarrow> world \<Rightarrow> (string option \<times> bool) \<times> world" where
  "read_text_path_sample sys limit p w =
     ((case os_open sys (tick w) p of
         Missing \<Rightarrow> (None, True)
       | Unreadable \<Rightarrow> (None, False)
       | Content s \<Rightarrow> if length s > max 1 limit then (None, False) else (Some (strip s), False)), step w)"

definition sample_membership_before :: "os \<Rightarrow> world \<Rightarrow> membership option \<times> world" where
  "sample_membership_before sys w =
     (if \<not> os_linux sys then (Some (None, []), w) else read_current_membership sys w)"

definition membership_sample_stable :: "os \<Rightarrow> membership option \<Rightarrow> world \<Rightarrow> bool \<times> world" where
  "membership_sample_stable sys before w =
     (if \<not> os_linux sys then (True, w)
      else if before = None then (False, w)
      else case read_current_membership sys w of (after, w) \<Rightarrow> (membership_eq after before, w))"

definition plain :: "value_state \<Rightarrow> integer_sample" where
  "plain st = \<lparr>state = st, sample_value = None, sample_path = None\<rparr>"

definition unknown_or_unbounded_for_view :: "cgroup_view \<Rightarrow> integer_sample" where
  "unknown_or_unbounded_for_view v = plain (if resolution_known v \<and> version v = 0 then UNBOUNDED else UNKNOWN)"

definition missing_is_unbounded_root :: "cgroup_view \<Rightarrow> string option \<Rightarrow> string \<Rightarrow> bool \<Rightarrow> bool \<Rightarrow> bool" where
  "missing_is_unbounded_root v controller name missing at_mount_root =
     (if \<not> missing \<or> \<not> at_mount_root then False
      else let ver = controller_version v controller in
        ver = 2 \<or> (ver = 1 \<and> controller = Some ''pids'' \<and> name = ''pids.max''))"

definition SIGNED_64_MAX :: int where "SIGNED_64_MAX = 2 ^ 63 - 1"

definition parse_cgroup_integer :: "string option \<Rightarrow> path \<Rightarrow> integer_sample" where
  "parse_cgroup_integer raw p =
     (let sample = (\<lambda>st v. \<lparr>state = st, sample_value = v, sample_path = Some p\<rparr>) in
      case raw of
        None \<Rightarrow> sample UNKNOWN None
      | Some s \<Rightarrow>
          if s = [] then sample UNKNOWN None
          else if s = ''max'' then sample UNBOUNDED None
          else if \<not> (s = ''-1'' \<or> list_all isdigit s) then sample UNKNOWN None
          else let v = (if s = ''-1'' then -1 else int (int_of_digits 0 s)) in
            if v < -1 \<or> v > SIGNED_64_MAX then sample UNKNOWN None
            else if v = -1 then sample UNBOUNDED None
            else if v \<ge> 2 ^ 62 then sample UNBOUNDED None
            else sample VALUE (Some v))"

section \<open>Readings\<close>

text \<open>Two attempts, the second with a fresh view; a result counts when the membership did not change.\<close>

definition two_attempts ::
  "os \<Rightarrow> (bool \<Rightarrow> world \<Rightarrow> 'a \<times> world) \<Rightarrow> 'a \<Rightarrow> world \<Rightarrow> 'a \<times> world" where
  "two_attempts sys body fallback w =
     (case sample_membership_before sys w of (before, w) \<Rightarrow>
      case body False w of (r, w) \<Rightarrow>
      case membership_sample_stable sys before w of (settled, w) \<Rightarrow>
        if settled then (r, w)
        else case sample_membership_before sys w of (before, w) \<Rightarrow>
             case body True w of (r, w) \<Rightarrow>
             case membership_sample_stable sys before w of (settled, w) \<Rightarrow>
               if settled then (r, w) else (fallback, w))"

definition read_cgroup_text :: "os \<Rightarrow> string \<Rightarrow> string option \<Rightarrow> nat \<Rightarrow> world \<Rightarrow> string option \<times> world" where
  "read_cgroup_text sys name controller limit w =
     (case cgroup_file sys name controller w of
        (None, w) \<Rightarrow> (None, w)
      | (Some p, w) \<Rightarrow> (case read_text_path_sample sys limit p w of ((raw, _), w) \<Rightarrow> (raw, w)))"

fun hierarchy_texts ::
  "os \<Rightarrow> cgroup_view \<Rightarrow> string \<Rightarrow> string option \<Rightarrow> nat \<Rightarrow> path list \<Rightarrow> world \<Rightarrow> string list option \<times> world" where
  "hierarchy_texts sys v name controller limit [] w = (Some [], w)"
| "hierarchy_texts sys v name controller limit (p # ps) w =
     (case read_text_path_sample sys limit p w of ((raw, missing), w) \<Rightarrow>
        (case raw of
           Some s \<Rightarrow> (case hierarchy_texts sys v name controller limit ps w of (rest, w) \<Rightarrow> (map_option (Cons s) rest, w))
         | None \<Rightarrow>
             if missing_is_unbounded_root v controller name missing (ps = [])
             then hierarchy_texts sys v name controller limit ps w else (None, w)))"

definition read_cgroup_hierarchy_texts ::
  "os \<Rightarrow> string \<Rightarrow> string option \<Rightarrow> nat \<Rightarrow> world \<Rightarrow> string list option \<times> world" where
  "read_cgroup_hierarchy_texts sys name controller limit =
     two_attempts sys (\<lambda>refresh w.
       case current_cgroup_view sys refresh w of (v, w) \<Rightarrow>
       case hierarchy_files sys v name controller w of (paths, w) \<Rightarrow>
         if paths = None \<or> \<not> hierarchy_is_complete v controller
         then (if resolution_known v \<and> version v = 0 then Some [] else None, w)
         else hierarchy_texts sys v name controller limit (the paths) w) None"

definition read_cgroup_integer_state :: "os \<Rightarrow> string \<Rightarrow> string option \<Rightarrow> world \<Rightarrow> integer_sample \<times> world" where
  "read_cgroup_integer_state sys name controller =
     two_attempts sys (\<lambda>refresh w.
       case current_cgroup_view sys refresh w of (v, w) \<Rightarrow>
       case view_file v name controller of
         None \<Rightarrow> (unknown_or_unbounded_for_view v, w)
       | Some p \<Rightarrow>
           (case read_text_path_sample sys 64 p w of ((raw, missing), w) \<Rightarrow>
              let at_mount_root = (case root_and_mountpoint v controller of None \<Rightarrow> False | Some (r, m) \<Rightarrow> r = m) in
              if missing_is_unbounded_root v controller name missing at_mount_root
              then (\<lparr>state = UNBOUNDED, sample_value = None, sample_path = Some p\<rparr>, w)
              else (parse_cgroup_integer raw p, w))) (plain UNKNOWN)"


fun effective_scan ::
  "os \<Rightarrow> cgroup_view \<Rightarrow> string \<Rightarrow> string option \<Rightarrow> path list \<Rightarrow> (int \<times> path) option \<Rightarrow> world \<Rightarrow> integer_sample \<times> world" where
  "effective_scan sys v name controller [] best w =
     ((case best of
         None \<Rightarrow> plain UNBOUNDED
       | Some (b, p) \<Rightarrow> \<lparr>state = VALUE, sample_value = Some b, sample_path = Some p\<rparr>), w)"
| "effective_scan sys v name controller (p # ps) best w =
     (case read_text_path_sample sys 64 p w of ((raw, missing), w) \<Rightarrow>
        if missing_is_unbounded_root v controller name missing (ps = [])
        then effective_scan sys v name controller ps best w
        else let current = parse_cgroup_integer raw p in
          if state current = UNKNOWN then (current, w)
          else if state current = VALUE
          then let x = the (sample_value current) in
               effective_scan sys v name controller ps
                 (if best = None \<or> x < fst (the best) then Some (x, p) else best) w
          else effective_scan sys v name controller ps best w)"

definition effective_body :: "os \<Rightarrow> string \<Rightarrow> string option \<Rightarrow> bool \<Rightarrow> world \<Rightarrow> integer_sample \<times> world" where
  "effective_body sys name controller refresh w =
     (case current_cgroup_view sys refresh w of (v, w) \<Rightarrow>
      case hierarchy_files sys v name controller w of (paths, w) \<Rightarrow>
        (case paths of
           None \<Rightarrow> (unknown_or_unbounded_for_view v, w)
         | Some ps \<Rightarrow>
             if \<not> hierarchy_is_complete v controller then (plain UNKNOWN, w)
             else effective_scan sys v name controller ps None w))"

definition read_effective_cgroup_integer :: "os \<Rightarrow> string \<Rightarrow> string option \<Rightarrow> world \<Rightarrow> integer_sample \<times> world" where
  "read_effective_cgroup_integer sys name controller =
     two_attempts sys (effective_body sys name controller) (plain UNKNOWN)"

fun headroom_scan ::
  "os \<Rightarrow> cgroup_view \<Rightarrow> string \<Rightarrow> string option \<Rightarrow> (path \<times> path) list \<Rightarrow> (int \<times> path) option \<Rightarrow> world \<Rightarrow> integer_sample \<times> world" where
  "headroom_scan sys v limit_name controller [] best w =
     ((case best of
         None \<Rightarrow> plain UNBOUNDED
       | Some (b, p) \<Rightarrow> \<lparr>state = VALUE, sample_value = Some b, sample_path = Some p\<rparr>), w)"
| "headroom_scan sys v limit_name controller ((lp, up) # ps) best w =
     (case read_text_path_sample sys 64 lp w of ((limit_raw, limit_missing), w) \<Rightarrow>
        if missing_is_unbounded_root v controller limit_name limit_missing (ps = [])
        then headroom_scan sys v limit_name controller ps best w
        else let limit_sample = parse_cgroup_integer limit_raw lp in
          if state limit_sample = UNKNOWN then (limit_sample, w)
          else if state limit_sample = UNBOUNDED then headroom_scan sys v limit_name controller ps best w
          else case read_text_path_sample sys 64 up w of ((usage_raw, _), w) \<Rightarrow>
            let usage_sample = parse_cgroup_integer usage_raw up in
            if state usage_sample \<noteq> VALUE
            then (\<lparr>state = UNKNOWN, sample_value = None, sample_path = Some up\<rparr>, w)
            else let headroom = max 0 (the (sample_value limit_sample) - the (sample_value usage_sample)) in
              headroom_scan sys v limit_name controller ps
                (if best = None \<or> headroom < fst (the best) then Some (headroom, lp) else best) w)"

definition headroom_body :: "os \<Rightarrow> string \<Rightarrow> string \<Rightarrow> string option \<Rightarrow> bool \<Rightarrow> world \<Rightarrow> integer_sample \<times> world" where
  "headroom_body sys limit_name usage_name controller refresh w =
     (case current_cgroup_view sys refresh w of (v, w) \<Rightarrow>
      case hierarchy_files sys v limit_name controller w of (limit_paths, w) \<Rightarrow>
      case hierarchy_files sys v usage_name controller w of (usage_paths, w) \<Rightarrow>
        (case (limit_paths, usage_paths) of
           (Some ls, Some us) \<Rightarrow>
             if length ls \<noteq> length us then (unknown_or_unbounded_for_view v, w)
             else if \<not> hierarchy_is_complete v controller then (plain UNKNOWN, w)
             else headroom_scan sys v limit_name controller (zip ls us) None w
         | _ \<Rightarrow> (unknown_or_unbounded_for_view v, w)))"

definition read_effective_cgroup_headroom ::
  "os \<Rightarrow> string \<Rightarrow> string \<Rightarrow> string option \<Rightarrow> world \<Rightarrow> integer_sample \<times> world" where
  "read_effective_cgroup_headroom sys limit_name usage_name controller =
     two_attempts sys (headroom_body sys limit_name usage_name controller) (plain UNKNOWN)"

datatype ratio = Ratio rat | Infinite

fun ratio_max :: "ratio \<Rightarrow> ratio \<Rightarrow> ratio" where
  "ratio_max (Ratio a) (Ratio b) = Ratio (max a b)"
| "ratio_max _ _ = Infinite"

definition level_ratio :: "int \<Rightarrow> int \<Rightarrow> ratio" where
  "level_ratio limit usage =
     (if limit \<le> 0 then (if usage > 0 then Infinite else Ratio 1)
      else Ratio (max 0 (of_int usage / of_int limit)))"

fun ratio_scan ::
  "os \<Rightarrow> cgroup_view \<Rightarrow> string \<Rightarrow> string option \<Rightarrow> (path \<times> path) list \<Rightarrow> ratio option \<Rightarrow> world \<Rightarrow> (ratio option \<times> bool) \<times> world" where
  "ratio_scan sys v limit_name controller [] best w = ((best, True), w)"
| "ratio_scan sys v limit_name controller ((lp, up) # ps) best w =
     (case read_text_path_sample sys 64 lp w of ((limit_raw, limit_missing), w) \<Rightarrow>
        if missing_is_unbounded_root v controller limit_name limit_missing (ps = [])
        then ratio_scan sys v limit_name controller ps best w
        else let limit_sample = parse_cgroup_integer limit_raw lp in
          if state limit_sample = UNKNOWN then ((best, False), w)
          else if state limit_sample = UNBOUNDED then ratio_scan sys v limit_name controller ps best w
          else case read_text_path_sample sys 64 up w of ((usage_raw, _), w) \<Rightarrow>
            let usage_sample = parse_cgroup_integer usage_raw up in
            if state usage_sample \<noteq> VALUE then ((best, False), w)
            else let current = level_ratio (the (sample_value limit_sample)) (the (sample_value usage_sample)) in
              ratio_scan sys v limit_name controller ps
                (Some (case best of None \<Rightarrow> current | Some b \<Rightarrow> ratio_max b current)) w)"

definition ratio_body :: "os \<Rightarrow> string \<Rightarrow> string \<Rightarrow> string option \<Rightarrow> bool \<Rightarrow> world \<Rightarrow> ratio option \<times> world" where
  "ratio_body sys limit_name usage_name controller refresh w =
     (case current_cgroup_view sys refresh w of (v, w) \<Rightarrow>
      case hierarchy_files sys v limit_name controller w of (limit_paths, w) \<Rightarrow>
      case hierarchy_files sys v usage_name controller w of (usage_paths, w) \<Rightarrow>
        (case (limit_paths, usage_paths) of
           (Some ls, Some us) \<Rightarrow>
             if length ls = length us \<and> hierarchy_is_complete v controller
             then (case ratio_scan sys v limit_name controller (zip ls us) None w of
                     ((r, valid), w) \<Rightarrow> (if valid then r else None, w))
             else (None, w)
         | _ \<Rightarrow> (None, w)))"

definition read_effective_cgroup_usage_ratio ::
  "os \<Rightarrow> string \<Rightarrow> string \<Rightarrow> string option \<Rightarrow> world \<Rightarrow> ratio option \<times> world" where
  "read_effective_cgroup_usage_ratio sys limit_name usage_name controller =
     two_attempts sys (ratio_body sys limit_name usage_name controller) None"

section \<open>What a level says\<close>

text \<open>
  A level of the hierarchy is unknown, unbounded or bounded; the meaning of a
  whole hierarchy is the meet of its levels, which is unknown as soon as one of
  them is.
\<close>

type_synonym level = "int option option"

definition meet :: "level list \<Rightarrow> value_state \<times> int option" where
  "meet ls =
     (if None \<in> set ls then (UNKNOWN, None)
      else let xs = List.map_filter the ls in
        if xs = [] then (UNBOUNDED, None) else (VALUE, Some (Min (set xs))))"

definition level_of :: "integer_sample \<Rightarrow> level" where
  "level_of s = (case state s of UNKNOWN \<Rightarrow> None | UNBOUNDED \<Rightarrow> Some None | VALUE \<Rightarrow> Some (sample_value s))"

definition reading :: "integer_sample \<Rightarrow> value_state \<times> int option" where
  "reading s = (state s, if state s = VALUE then sample_value s else None)"

definition effective_level ::
  "os \<Rightarrow> cgroup_view \<Rightarrow> string \<Rightarrow> string option \<Rightarrow> bool \<Rightarrow> path \<Rightarrow> world \<Rightarrow> level \<times> world" where
  "effective_level sys v name controller at_root p w =
     (case read_text_path_sample sys 64 p w of ((raw, missing), w) \<Rightarrow>
        (if missing_is_unbounded_root v controller name missing at_root then Some None
         else level_of (parse_cgroup_integer raw p), w))"

definition headroom_level ::
  "os \<Rightarrow> cgroup_view \<Rightarrow> string \<Rightarrow> string option \<Rightarrow> bool \<Rightarrow> path \<times> path \<Rightarrow> world \<Rightarrow> level \<times> world" where
  "headroom_level sys v name controller at_root pp w =
     (case effective_level sys v name controller at_root (fst pp) w of
        (Some (Some limit), w) \<Rightarrow>
          (case read_text_path_sample sys 64 (snd pp) w of ((raw, _), w) \<Rightarrow>
             (case level_of (parse_cgroup_integer raw (snd pp)) of
                Some (Some usage) \<Rightarrow> Some (Some (max 0 (limit - usage)))
              | _ \<Rightarrow> None, w))
      | (l, w) \<Rightarrow> (l, w))"

fun levels :: "(bool \<Rightarrow> 'p \<Rightarrow> world \<Rightarrow> level \<times> world) \<Rightarrow> 'p list \<Rightarrow> world \<Rightarrow> level list" where
  "levels f [] w = []"
| "levels f (p # ps) w = (case f (ps = []) p w of (l, w) \<Rightarrow> l # levels f ps w)"

definition best_level :: "(int \<times> path) option \<Rightarrow> level" where
  "best_level best = Some (map_option fst best)"

lemma parse_cases:
  obtains "level_of (parse_cgroup_integer raw p) = None" "state (parse_cgroup_integer raw p) = UNKNOWN"
  | "level_of (parse_cgroup_integer raw p) = Some None" "state (parse_cgroup_integer raw p) = UNBOUNDED"
  | x where "level_of (parse_cgroup_integer raw p) = Some (Some x)" "state (parse_cgroup_integer raw p) = VALUE"
      "sample_value (parse_cgroup_integer raw p) = Some x" "0 \<le> x" "x < 2 ^ 62"
proof -
  let ?s = "parse_cgroup_integer raw p"
  have "state ?s = VALUE \<Longrightarrow> \<exists>x. sample_value ?s = Some x \<and> 0 \<le> x \<and> x < 2 ^ 62"
    by (auto simp: parse_cgroup_integer_def Let_def split: option.splits if_splits)
  then show ?thesis using that by (cases "state ?s") (auto simp: level_of_def)
qed

lemma meet_simps [simp]:
  "meet [Some None] = (UNBOUNDED, None)" "meet [Some (Some x)] = (VALUE, Some x)"
  "meet (None # ls) = (UNKNOWN, None)"
  by (simp_all add: meet_def map_filter_def)

lemma meet_unbounded: "meet (Some None # l # ls) = meet (l # ls)" "meet (l # Some None # ls) = meet (l # ls)"
  by (auto simp: meet_def map_filter_def Let_def)

lemma meet_two: "meet (Some (Some b) # Some (Some x) # ls) = meet (Some (Some (min b x)) # ls)"
proof (cases "None \<in> set ls")
  case False
  let ?xs = "List.map_filter the ls"
  have "Min (insert b (insert x (set ?xs))) = Min (insert (min b x) (set ?xs))"
    by (cases "?xs = []") (simp_all add: min.assoc)
  then show ?thesis using False by (simp add: meet_def map_filter_def Let_def)
qed (simp add: meet_def)

lemma meet_best:
  "meet (best_level (if best = None \<or> x < fst (the best) then Some (x, p) else best) # ls) =
   meet (best_level best # Some (Some x) # ls)"
  by (cases best) (auto simp: best_level_def meet_unbounded meet_two min_def)

lemma effective_scan_meet:
  "reading (fst (effective_scan sys v name controller ps best w)) =
   meet (best_level best # levels (effective_level sys v name controller) ps w)"
proof (induction ps arbitrary: best w)
  case Nil
  then show ?case by (cases best) (auto simp: best_level_def reading_def plain_def)
next
  case (Cons p ps)
  obtain raw missing w' where r: "read_text_path_sample sys 64 p w = ((raw, missing), w')"
    by (cases "read_text_path_sample sys 64 p w") auto
  show ?case
  proof (cases "missing_is_unbounded_root v controller name missing (ps = [])")
    case True
    then show ?thesis using r Cons by (simp add: effective_level_def meet_unbounded)
  next
    case False
    show ?thesis
    proof (cases rule: parse_cases [of raw p])
      case 1
      then show ?thesis using r False
        by (simp add: effective_level_def Let_def reading_def meet_def)
    next
      case 2
      then show ?thesis using r False Cons by (simp add: effective_level_def Let_def meet_unbounded)
    next
      case (3 x)
      then show ?thesis
        using r False Cons by (simp add: effective_level_def Let_def meet_best)
    qed
  qed
qed


lemma headroom_scan_meet:
  "reading (fst (headroom_scan sys v name controller ps best w)) =
   meet (best_level best # levels (headroom_level sys v name controller) ps w)"
proof (induction ps arbitrary: best w)
  case Nil
  then show ?case by (cases best) (auto simp: best_level_def reading_def plain_def)
next
  case (Cons pp ps)
  obtain lp up where pp: "pp = (lp, up)" by (cases pp)
  obtain raw missing w' where r: "read_text_path_sample sys 64 lp w = ((raw, missing), w')"
    by (cases "read_text_path_sample sys 64 lp w") auto
  show ?case
  proof (cases "missing_is_unbounded_root v controller name missing (ps = [])")
    case True
    then show ?thesis using r Cons pp by (simp add: headroom_level_def effective_level_def meet_unbounded)
  next
    case False
    show ?thesis
    proof (cases rule: parse_cases [of raw lp])
      case 1
      then show ?thesis using r False pp
        by (simp add: headroom_level_def effective_level_def Let_def reading_def meet_def)
    next
      case 2
      then show ?thesis
        using r False Cons pp by (simp add: headroom_level_def effective_level_def Let_def meet_unbounded)
    next
      case (3 x)
      obtain raw' missing' w'' where r': "read_text_path_sample sys 64 up w' = ((raw', missing'), w'')"
        by (cases "read_text_path_sample sys 64 up w'") auto
      note simps = headroom_level_def effective_level_def Let_def
      show ?thesis
      proof (cases rule: parse_cases [of raw' up])
        case 1
        then show ?thesis using 3 r r' False pp by (simp add: simps reading_def meet_def)
      next
        case 2
        then show ?thesis using 3 r r' False pp by (simp add: simps reading_def meet_def)
      next
        case y: (3 y)
        define hr where "hr = max 0 (x - y)"
        show ?thesis using y 3 r r' False Cons pp by (simp add: simps hr_def [symmetric] meet_best)
      qed
    qed
  qed
qed

section \<open>Walking up the hierarchy\<close>

definition chain :: "string \<Rightarrow> path \<Rightarrow> path \<Rightarrow> path list" where
  "chain name r m =
     map (\<lambda>k. child (Path (anchor m) (take k (parts r))) name) (rev [length (parts m)..<Suc (length (parts r))])"

lemma ancestors_chain:
  "is_relative_to r m \<Longrightarrow> ancestors name m (parts r) = Some (chain name r m)"
proof (induction "length (parts r)" arbitrary: r)
  case 0
  then have "parts m = []" by (simp add: is_relative_to_def)
  then have "Path (anchor m) [] = m" by (cases m) simp
  then show ?case using 0 \<open>parts m = []\<close> by (simp add: ancestors.simps chain_def)
next
  case (Suc n)
  have le: "length (parts m) \<le> length (parts r)"
    using Suc(3) by (metis is_relative_to_def length_take min.cobounded1 min.absorb_iff2 nat_le_linear)
  show ?case
  proof (cases "length (parts m) = length (parts r)")
    case True
    then have "Path (anchor m) (parts r) = m" using Suc(3) by (cases m) (simp add: is_relative_to_def)
    then show ?thesis using True by (simp add: ancestors.simps chain_def)
  next
    case False
    let ?q = "Path (anchor r) (butlast (parts r))"
    have rel: "is_relative_to ?q m"
      using Suc(3) False le by (simp add: is_relative_to_def butlast_conv_take)
    have "ancestors name m (parts ?q) = Some (chain name ?q m)"
      by (rule Suc(1) [OF _ rel]) (use Suc(2) in simp)
    moreover have "Path (anchor m) (parts r) \<noteq> m" "parts r \<noteq> []" using False Suc(2) by (cases m; auto)+
    moreover have "chain name r m = child (Path (anchor m) (parts r)) name # chain name ?q m"
    proof -
      have "chain name ?q m = map (\<lambda>k. child (Path (anchor m) (take k (parts r))) name) (rev [length (parts m)..<length (parts r)])"
      proof -
        have l: "Suc (length (parts ?q)) = length (parts r)" using Suc(2) by simp
        show ?thesis unfolding chain_def l
          by (rule map_cong [OF refl]) (use Suc(2) in \<open>auto simp: take_butlast\<close>)
      qed
      then show ?thesis using le by (simp add: chain_def)
    qed
    ultimately show ?thesis by (simp add: ancestors.simps [of name m "parts r"])
  qed
qed

lemma hierarchy_filesE:
  assumes "hierarchy_files sys v name controller w = (Some ps, w')"
  obtains r m where "is_relative_to r m" "ps = chain name r m" "w' = step (step w)"
  using assms ancestors_chain
  by (auto simp: hierarchy_files_def split: option.splits if_splits)

lemma hierarchy_files_tick: "hierarchy_files sys v name controller w = (ps, w') \<Longrightarrow> tick w \<le> tick w'"
  by (auto simp: hierarchy_files_def split: option.splits if_splits)

section \<open>Stable samples\<close>

definition same_membership :: "os \<Rightarrow> nat \<Rightarrow> nat \<Rightarrow> bool" where
  "same_membership sys t t' \<longleftrightarrow> \<not> os_linux sys \<or>
     (\<exists>m. parse_membership (os_cgroup sys t) = Some m \<and> membership_eq (parse_membership (os_cgroup sys t')) (Some m))"

lemma two_attemptsE:
  assumes "two_attempts sys body fallback w = (r, w')"
  obtains "r = fallback"
  | refresh w0 w1 where "body refresh w0 = (r, w1)" "same_membership sys (tick w0 - 1) (tick w1)"
proof -
  have "r = fallback \<or> (\<exists>refresh w0 w1. body refresh w0 = (r, w1) \<and> same_membership sys (tick w0 - 1) (tick w1))"
  proof (cases "os_linux sys")
    case False
    then show ?thesis using assms
      by (auto simp: two_attempts_def sample_membership_before_def membership_sample_stable_def same_membership_def
          split: prod.splits)
  next
    case True
    obtain r1 v1 where b1: "body False (step w) = (r1, v1)" by (cases "body False (step w)")
    have sm: "same_membership sys (tick x) (tick y)"
      if "fst (membership_sample_stable sys (parse_membership (os_cgroup sys (tick x))) y)" for x y
      using that True by (auto simp: membership_sample_stable_def same_membership_def read_current_membership_def split: if_splits)
    obtain st y where st: "membership_sample_stable sys (parse_membership (os_cgroup sys (tick w))) v1 = (st, y)"
      by (cases "membership_sample_stable sys (parse_membership (os_cgroup sys (tick w))) v1")
    show ?thesis
    proof (cases st)
      case True
      then have "r = r1" using assms b1 st \<open>os_linux sys\<close>
        by (simp add: two_attempts_def sample_membership_before_def read_current_membership_def)
      moreover have "same_membership sys (tick (step w) - 1) (tick v1)" using sm [of w v1] st True by simp
      ultimately show ?thesis using b1 by blast
    next
      case False
      obtain r2 v2 where b2: "body True (step y) = (r2, v2)" by (cases "body True (step y)")
      obtain st' z where st': "membership_sample_stable sys (parse_membership (os_cgroup sys (tick y))) v2 = (st', z)"
        by (cases "membership_sample_stable sys (parse_membership (os_cgroup sys (tick y))) v2")
      have "(r, w') = (if st' then (r2, z) else (fallback, z))"
        using assms b1 st b2 st' False \<open>os_linux sys\<close>
        by (simp add: two_attempts_def sample_membership_before_def read_current_membership_def)
      moreover have "same_membership sys (tick (step y) - 1) (tick v2)" if st' using sm [of y v2] st' that by simp
      ultimately show ?thesis using b2
        by (cases st') (simp only: if_True prod.inject, blast, simp)
    qed
  qed
  then show ?thesis using that by blast
qed

lemma effective_scan_tick: "tick w \<le> tick (snd (effective_scan sys v name controller ps best w))"
proof (induction ps arbitrary: best w)
  case (Cons p ps)
  obtain raw missing where r: "read_text_path_sample sys 64 p w = ((raw, missing), step w)"
    by (cases "fst (read_text_path_sample sys 64 p w)") (simp add: read_text_path_sample_def)
  have "tick w \<le> tick (snd (effective_scan sys v name controller ps b (step w)))" for b
    using Cons [of "step w" b] by simp
  then show ?case using r by (simp add: Let_def)
qed simp

section \<open>Well-formed samples\<close>

definition well_formed :: "integer_sample \<Rightarrow> bool" where
  "well_formed s = (case sample_value s of None \<Rightarrow> state s \<noteq> VALUE | Some x \<Rightarrow> state s = VALUE \<and> 0 \<le> x \<and> x < 2 ^ 62)"

lemma well_formed_plain: "st \<noteq> VALUE \<Longrightarrow> well_formed (plain st)"
  by (simp add: well_formed_def plain_def)

lemma well_formed_unknown: "well_formed \<lparr>state = UNKNOWN, sample_value = None, sample_path = p\<rparr>"
  by (simp add: well_formed_def)

lemma well_formed_view: "well_formed (unknown_or_unbounded_for_view v)"
  by (simp add: unknown_or_unbounded_for_view_def well_formed_plain)

lemma well_formed_parse: "well_formed (parse_cgroup_integer raw p)"
  by (auto simp: well_formed_def parse_cgroup_integer_def Let_def split: option.splits)

definition bounded_best :: "(int \<times> path) option \<Rightarrow> bool" where
  "bounded_best best = (case best of None \<Rightarrow> True | Some (x, _) \<Rightarrow> 0 \<le> x \<and> x < 2 ^ 62)"

lemma well_formed_effective_scan:
  "bounded_best best \<Longrightarrow> well_formed (fst (effective_scan sys v name controller ps best w))"
proof (induction ps arbitrary: best w)
  case Nil
  then show ?case by (cases best) (auto simp: plain_def bounded_best_def well_formed_def)
next
  case (Cons p ps)
  obtain raw missing w' where r: "read_text_path_sample sys 64 p w = ((raw, missing), w')"
    by (cases "read_text_path_sample sys 64 p w") auto
  show ?case
    by (cases rule: parse_cases [of raw p])
      (use r Cons well_formed_parse in \<open>auto simp: Let_def bounded_best_def intro!: Cons.IH\<close>)
qed

lemma well_formed_headroom_scan:
  "bounded_best best \<Longrightarrow> well_formed (fst (headroom_scan sys v name controller ps best w))"
proof (induction ps arbitrary: best w)
  case Nil
  then show ?case by (cases best) (auto simp: plain_def bounded_best_def well_formed_def)
next
  case (Cons pp ps)
  obtain lp up where pp: "pp = (lp, up)" by (cases pp)
  obtain raw missing w' where r: "read_text_path_sample sys 64 lp w = ((raw, missing), w')"
    by (cases "read_text_path_sample sys 64 lp w") auto
  obtain raw' missing' w'' where r': "read_text_path_sample sys 64 up w' = ((raw', missing'), w'')"
    by (cases "read_text_path_sample sys 64 up w'") auto
  show ?case
  proof (cases rule: parse_cases [of raw lp])
    case (3 x)
    have hb: "0 \<le> max 0 (x - y) \<and> max 0 (x - y) < 2 ^ 62" if "0 \<le> y" for y using 3 that by auto
    show ?thesis
      by (cases rule: parse_cases [of raw' up])
        (use 3 r r' pp Cons hb well_formed_unknown in \<open>auto simp: Let_def bounded_best_def intro!: Cons.IH\<close>)
  qed (use r pp Cons well_formed_parse in \<open>auto simp: Let_def\<close>)
qed


section \<open>Mount fields\<close>

text \<open>The octal escapes the kernel writes, for the characters of a given list.\<close>

definition octal :: "char \<Rightarrow> string" where
  "octal c = CHR 0x5C # (if c = CHR '' '' then ''040'' else if c = CHR 0x09 then ''011'' else if c = LF then ''012'' else ''134'')"

definition escape :: "char list \<Rightarrow> string \<Rightarrow> string" where
  "escape cs s = concat (map (\<lambda>c. if c \<in> set cs then octal c else [c]) s)"

definition mount_escapes :: "char list" where
  "mount_escapes = [CHR '' '', CHR 0x09, LF, CHR 0x5C]"

lemma octal_simps:
  "octal (CHR '' '') = CHR 0x5C # ''040''" "octal (CHR 0x09) = CHR 0x5C # ''011''" "octal LF = CHR 0x5C # ''012''"
  "octal (CHR 0x5C) = CHR 0x5C # ''134''"
  by (simp_all add: octal_def LF_def)

lemma replace_escape:
  assumes "set cs \<subseteq> set mount_escapes" "CHR 0x5C \<in> set cs" "c \<in> set mount_escapes" "c \<notin> set ds"
    and "set cs = insert c (set ds)"
  shows "replace_str (octal c) [c] (escape cs s) = escape ds s"
proof (induction s)
  case (Cons x s)
  have "length (lit (octal c)) = length (octal c)" "pmatch (lit (octal c)) (octal c)" "lit (octal c) \<noteq> []"
    by (simp_all add: lit_def octal_def)
  show ?case
  proof (cases "x = c")
    case True
    have "sub (lit (octal c)) [c] (octal c @ escape cs s) = [c] @ sub (lit (octal c)) [c] (escape cs s)"
      by (rule sub_match) fact+
    then show ?thesis using True Cons assms by (simp add: escape_def replace_str_def)
  next
    case xc: False
    show ?thesis
    proof (cases "x \<in> set cs")
      case True
      then have "x \<in> set mount_escapes" using assms by blast
      then have "sub (lit (octal c)) [c] (octal x @ escape cs s) = octal x @ sub (lit (octal c)) [c] (escape cs s)"
        using xc assms(3) by (auto simp: mount_escapes_def octal_def lit_def LF_def)
      then show ?thesis using True xc Cons assms by (simp add: escape_def replace_str_def)
    next
      case False
      then have "x \<noteq> CHR 0x5C" using assms by blast
      then show ?thesis using False xc Cons assms by (simp add: escape_def replace_str_def lit_def octal_def)
    qed
  qed
qed (simp add: escape_def replace_str_def)

section \<open>A machine\<close>

text \<open>A process in \<open>/a\<close> of a unified hierarchy: a limit of 100 and a usage of 30, none at the root.\<close>

definition sample_os :: os where
  "sample_os =
     \<lparr>os_linux = True, os_pid = 7, os_now = (\<lambda>t. int t),
      os_cgroup = (\<lambda>_. Some (''0::/a'' @ [LF])),
      os_mountinfo = (\<lambda>_. Some (''1 0 0:1 / /sys/fs/cgroup rw - cgroup2 cgroup rw'' @ [LF])),
      os_resolve = (\<lambda>_ p. Some p),
      os_open = (\<lambda>_ p. if p = path_of ''/sys/fs/cgroup/a/memory.max'' then Content (''100'' @ [LF])
                      else if p = path_of ''/sys/fs/cgroup/a/memory.current'' then Content (''30'' @ [LF])
                      else Missing)\<rparr>"

lemma sample_effective: "state (fst (read_effective_cgroup_integer sample_os ''memory.max'' None initial_world)) = VALUE
    \<and> sample_value (fst (read_effective_cgroup_integer sample_os ''memory.max'' None initial_world)) = Some 100"
  by code_simp

lemma sample_headroom: "state (fst (read_effective_cgroup_headroom sample_os ''memory.max'' ''memory.current'' None initial_world)) = VALUE
    \<and> sample_value (fst (read_effective_cgroup_headroom sample_os ''memory.max'' ''memory.current'' None initial_world)) = Some 70"
  by code_simp

section \<open>Properties\<close>

text \<open>
  C8: no unreadable file of the resolved hierarchy counts as an unlimited one.  A
  known effective limit is the meet of all levels from the group of the process up to
  the mount root, each of which was readable: the smallest of their limits, or
  unbounded when none of them has one.  It was taken from a complete hierarchy
  and between two readings that found the process in the same groups.  Without a
  hierarchy, unbounded means that the machine has none.
\<close>

theorem effective_limit_is_meet:
  assumes "read_effective_cgroup_integer sys name controller w = (s, w')" and "state s \<noteq> UNKNOWN"
  shows "\<exists>refresh w0 v w1 paths w2 t. current_cgroup_view sys refresh w0 = (v, w1)
    \<and> hierarchy_files sys v name controller w1 = (paths, w2)
    \<and> same_membership sys (tick w0 - 1) t \<and> tick w2 \<le> t
    \<and> (case paths of
         None \<Rightarrow> state s = UNBOUNDED \<and> version v = 0 \<and> resolution_known v
       | Some ps \<Rightarrow> hierarchy_is_complete v controller
           \<and> (\<exists>r m. is_relative_to r m \<and> ps = chain name r m)
           \<and> None \<notin> set (levels (effective_level sys v name controller) ps w2)
           \<and> reading s = meet (levels (effective_level sys v name controller) ps w2))"
  using assms(1) unfolding read_effective_cgroup_integer_def
proof (cases rule: two_attemptsE)
  case 1
  then show ?thesis using assms(2) by (simp add: plain_def)
next
  case (2 refresh w0 w1')
  obtain v w1 where v: "current_cgroup_view sys refresh w0 = (v, w1)" by (cases "current_cgroup_view sys refresh w0")
  obtain paths w2 where p: "hierarchy_files sys v name controller w1 = (paths, w2)"
    by (cases "hierarchy_files sys v name controller w1")
  show ?thesis
  proof (cases paths)
    case None
    then have "s = unknown_or_unbounded_for_view v" "w1' = w2" using 2(1) v p by (simp_all add: effective_body_def)
    then show ?thesis
      using v p None 2(2) assms(2)
      by (intro exI [of _ refresh] exI [of _ w0] exI [of _ v] exI [of _ w1] exI [of _ paths] exI [of _ w2] exI [of _ "tick w1'"])
        (auto simp: unknown_or_unbounded_for_view_def plain_def split: if_splits)
  next
    case (Some ps)
    then have c: "hierarchy_is_complete v controller" and sc: "effective_scan sys v name controller ps None w2 = (s, w1')"
      using 2(1) v p assms(2) by (auto simp: effective_body_def plain_def split: if_splits)
    let ?ls = "levels (effective_level sys v name controller) ps w2"
    have "reading s = meet (Some None # ?ls)"
      using effective_scan_meet [of sys v name controller ps None w2] sc by (simp add: best_level_def)
    then have m: "reading s = meet ?ls" by (simp add: meet_def map_filter_def)
    have "None \<notin> set ?ls" using m assms(2) by (auto simp: meet_def reading_def)
    moreover have "tick w2 \<le> tick w1'" using effective_scan_tick [of w2 sys v name controller ps None] sc by simp
    moreover obtain r m where "is_relative_to r m" "ps = chain name r m"
      by (rule hierarchy_filesE [OF p [unfolded Some]]) (rule that)
    ultimately show ?thesis using v p Some 2(2) c m
      by (intro exI [of _ refresh] exI [of _ w0] exI [of _ v] exI [of _ w1] exI [of _ paths] exI [of _ w2] exI [of _ "tick w1'"]) auto
  qed
qed

theorem effective_limit_is_meet_witness:
  "\<exists>v w1 paths w2. hierarchy_files sample_os v ''memory.max'' None w1 = (Some paths, w2)
    \<and> meet (levels (effective_level sample_os v ''memory.max'' None) paths w2) = (VALUE, Some 100)"
proof -
  obtain s w' where r: "read_effective_cgroup_integer sample_os ''memory.max'' None initial_world = (s, w')"
    by (cases "read_effective_cgroup_integer sample_os ''memory.max'' None initial_world")
  then have s: "state s = VALUE" "sample_value s = Some 100" using sample_effective by simp_all
  then have rd: "reading s = (VALUE, Some 100)" by (simp add: reading_def)
  from effective_limit_is_meet [OF r] s(1) obtain v w1 paths w2 where
    h: "hierarchy_files sample_os v ''memory.max'' None w1 = (paths, w2)"
    and c: "case paths of None \<Rightarrow> state s = UNBOUNDED \<and> version v = 0 \<and> resolution_known v
       | Some ps \<Rightarrow> hierarchy_is_complete v None
           \<and> (\<exists>r m. is_relative_to r m \<and> ps = chain ''memory.max'' r m)
           \<and> None \<notin> set (levels (effective_level sample_os v ''memory.max'' None) ps w2)
           \<and> reading s = meet (levels (effective_level sample_os v ''memory.max'' None) ps w2)" by auto
  then obtain ps where "paths = Some ps" using s(1) by (cases paths) auto
  then show ?thesis using h c rd by auto
qed



text \<open>
  Every sample is well-formed: it carries a value exactly when its state says
  so, and the value lies between 0 and 2^62, below the sentinels for unlimited.
\<close>

theorem samples_are_well_formed:
  "well_formed (fst (read_cgroup_integer_state sys name controller w))
   \<and> well_formed (fst (read_effective_cgroup_integer sys name controller w))
   \<and> well_formed (fst (read_effective_cgroup_headroom sys name usage controller w))"
proof -
  have two: "well_formed (fst (two_attempts sys body (plain UNKNOWN) w))"
    if "\<And>refresh w0. well_formed (fst (body refresh w0))" for body
  proof -
    obtain r w' where r: "two_attempts sys body (plain UNKNOWN) w = (r, w')"
      by (cases "two_attempts sys body (plain UNKNOWN) w")
    have "well_formed r"
      using r
    proof (cases rule: two_attemptsE)
      case (2 refresh w0 w1)
      then show ?thesis using that [of refresh w0] by simp
    qed (simp add: well_formed_plain)
    then show ?thesis using r by simp
  qed
  have "well_formed (fst (effective_body sys name controller refresh w0))" for refresh w0
    by (auto simp: effective_body_def well_formed_view well_formed_plain well_formed_effective_scan bounded_best_def
        split: prod.splits option.splits)
  moreover have "well_formed (fst (headroom_body sys name usage controller refresh w0))" for refresh w0
    by (auto simp: headroom_body_def well_formed_view well_formed_plain well_formed_headroom_scan bounded_best_def
        split: prod.splits option.splits)
  moreover have "well_formed (fst (read_cgroup_integer_state sys name controller w))"
    unfolding read_cgroup_integer_state_def
    by (rule two) (auto simp: well_formed_view well_formed_parse Let_def well_formed_def [of "\<lparr>state = UNBOUNDED, sample_value = None, sample_path = _\<rparr>"]
        split: prod.splits option.splits)
  ultimately show ?thesis
    using two by (simp add: read_effective_cgroup_integer_def read_effective_cgroup_headroom_def)
qed

text \<open>
  The fields of the mount table are decoded faithfully: undoing the octal
  escapes of blanks, tabs, line breaks and backslashes gives back every text.
\<close>

theorem unescape_round_trip: "unescape_mount_field (escape mount_escapes s) = s"
proof -
  have 1: "replace_str (octal (CHR '' '')) [CHR '' ''] (escape mount_escapes s) = escape [CHR 0x09, LF, CHR 0x5C] s"
    by (rule replace_escape) (auto simp: mount_escapes_def LF_def)
  have 2: "replace_str (octal (CHR 0x09)) [CHR 0x09] (escape [CHR 0x09, LF, CHR 0x5C] s) = escape [LF, CHR 0x5C] s"
    by (rule replace_escape) (auto simp: mount_escapes_def LF_def)
  have 3: "replace_str (octal LF) [LF] (escape [LF, CHR 0x5C] s) = escape [CHR 0x5C] s"
    by (rule replace_escape) (auto simp: mount_escapes_def LF_def)
  have 4: "replace_str (octal (CHR 0x5C)) [CHR 0x5C] (escape [CHR 0x5C] s) = escape [] s"
    by (rule replace_escape) (auto simp: mount_escapes_def LF_def)
  have "escape [] s = s" by (simp add: escape_def)
  then show ?thesis using 1 2 3 4 by (simp add: unescape_mount_field_def octal_simps)
qed

text \<open>
  A hybrid machine: the memory controller of the process lives in a version 1
  hierarchy of which only an unrelated subtree is mounted, next to a unified
  hierarchy without memory files.  The unresolved membership is forgotten and the
  limit is taken from the unified root, where the file is missing.
\<close>

definition hybrid_os :: os where
  "hybrid_os = sample_os
     \<lparr>os_cgroup := (\<lambda>_. Some (''4:memory:/x'' @ [LF] @ ''0::/'' @ [LF])),
      os_mountinfo := (\<lambda>_. Some (''1 0 0:1 / /sys/fs/cgroup/unified rw - cgroup2 cgroup2 rw'' @ [LF]
        @ ''2 0 0:2 /other /sys/fs/cgroup/memory rw - cgroup cgroup rw,memory'' @ [LF]))\<rparr>"

lemma hybrid_unresolved_is_unbounded:
  "state (fst (read_effective_cgroup_integer hybrid_os ''memory.max'' (Some ''memory'') initial_world)) = UNBOUNDED"
  by code_simp

end
