(* ===== verification/Memory_Budget.thy ===== *)
theory Memory_Budget
  imports Complex_Main Prelude
begin

text \<open>
  Model of the native memory budget (\<^verbatim>\<open>cpp/src/internal/memory/memory_budget.hh\<close> and
  \<^verbatim>\<open>memory_budget.cc\<close>) and of its Python face in
  \<^verbatim>\<open>core_impl/memory_budget.py\<close>: the automatic limit derived from what the host
  and the container leave, the normalisation of explicit limits, and the
  sub-budgets of one operation.  Signed 64-bit values are integers; the lemmas
  show that they stay in range, so that no arithmetic wraps, and that all
  divisions have positive operands, where division truncates as in C++.  What
  the platform and the control groups report are arguments.
\<close>

definition MIB :: int where "MIB = 1024 * 1024"
definition GIB :: int where "GIB = 1024 * MIB"

definition kDefaultMemoryLimitBytes :: int where "kDefaultMemoryLimitBytes = 512 * MIB"
definition kHardMaxMemoryLimitBytes :: int where "kHardMaxMemoryLimitBytes = 64 * GIB"
definition kAutomaticMemoryReserveBytes :: int where "kAutomaticMemoryReserveBytes = 256 * MIB"
definition INT64_MAX :: int where "INT64_MAX = 2 ^ 63 - 1"

lemmas memory_consts = MIB_def GIB_def kDefaultMemoryLimitBytes_def kHardMaxMemoryLimitBytes_def
  kAutomaticMemoryReserveBytes_def INT64_MAX_def

section \<open>Automatic limits\<close>

definition automatic_memory_limit_from_available :: "int \<Rightarrow> int" where
  "automatic_memory_limit_from_available available_bytes =
     (if available_bytes \<le> 0 then kDefaultMemoryLimitBytes
      else let proportional_reserve = available_bytes div 8;
               constrained_reserve = min kAutomaticMemoryReserveBytes (available_bytes div 4);
               reserve = max proportional_reserve constrained_reserve in
           max 1 (min kHardMaxMemoryLimitBytes (available_bytes - reserve)))"

text \<open>What the control groups of the process report for its memory.\<close>

datatype headroom = Unknown_Headroom | Unbounded_Headroom | Headroom int

record host =
  on_linux :: bool
  platform_available_memory :: "int option"
  cgroup_version :: nat
  effective_headroom :: headroom

definition container_available_memory :: "host \<Rightarrow> int option" where
  "container_available_memory h =
     (if \<not> on_linux h then None
      else if cgroup_version h \<noteq> 2 \<and> cgroup_version h \<noteq> 1 then Some 1
      else case effective_headroom h of
             Unknown_Headroom \<Rightarrow> Some 1
           | Unbounded_Headroom \<Rightarrow> None
           | Headroom v \<Rightarrow> Some v)"

definition automatic_memory_limit_bytes :: "host \<Rightarrow> int" where
  "automatic_memory_limit_bytes h =
     (let available =
            (case container_available_memory h of
               None \<Rightarrow> platform_available_memory h
             | Some c \<Rightarrow>
                 (case platform_available_memory h of None \<Rightarrow> Some c | Some a \<Rightarrow> Some (min a c))) in
      case available of
        None \<Rightarrow> kDefaultMemoryLimitBytes
      | Some a \<Rightarrow> automatic_memory_limit_from_available (min a INT64_MAX))"

section \<open>Sub-budgets\<close>

record memory_budget =
  total_bytes :: int
  io_chunk_bytes :: int
  batch_target_bytes :: int
  coalesce_max_bytes :: int
  metadata_bytes :: int
  materialized_input_bytes :: int
  replay_spool_bytes :: int
  parquet_reader_buffer_bytes :: int
  parquet_reader_rows :: int
  parquet_row_group_bytes :: int
  parquet_row_group_rows :: int
  parquet_page_bytes :: int
  parquet_footer_bytes :: int
  arrow_logical_slots :: int
  arrow_logical_buffer_bytes :: int
  mb_async_concurrency :: int
  mb_async_prefetch_files :: int
  async_retries :: int
  async_timeout_seconds :: rat
  mb_remote_chunk_prefetch :: int
  mb_source_discovery_concurrency :: int

definition normalize_memory_limit_bytes :: "host \<Rightarrow> int \<Rightarrow> int" where
  "normalize_memory_limit_bytes h requested =
     (if requested \<le> 0 then automatic_memory_limit_bytes h else min requested kHardMaxMemoryLimitBytes)"

definition bounded_fraction :: "int \<Rightarrow> int \<Rightarrow> int \<Rightarrow> int \<Rightarrow> int" where
  "bounded_fraction whole divisor maximum minimum =
     (let divided = whole div divisor in min whole (min maximum (max minimum divided)))"

definition memory_budget_of_total :: "int \<Rightarrow> memory_budget" where
  "memory_budget_of_total t =
     (let reader_buffer = bounded_fraction t 2 GIB 1; row_group = bounded_fraction t 2 (512 * MIB) 1;
          concurrency = max 1 (t div (16 * MIB)) in
      \<lparr>total_bytes = t, io_chunk_bytes = bounded_fraction t 64 MIB 1,
       batch_target_bytes = bounded_fraction t 4 (64 * MIB) 1, coalesce_max_bytes = min t (512 * MIB),
       metadata_bytes = bounded_fraction t 8 (256 * MIB) 1, materialized_input_bytes = min t GIB,
       replay_spool_bytes = min (t * 4) (8 * GIB),
       parquet_reader_buffer_bytes = reader_buffer,
       parquet_reader_rows = min 1048576 (max 1 (reader_buffer div 1024)),
       parquet_row_group_bytes = row_group,
       parquet_row_group_rows = min 1048576 (max 1 (row_group div 1024)),
       parquet_page_bytes = min row_group (min (64 * MIB) (max (64 * 1024) (row_group div 16))),
       parquet_footer_bytes = bounded_fraction t 16 (256 * MIB) (64 * 1024),
       arrow_logical_slots = min 100000000 (max 1000000 (t div 8)),
       arrow_logical_buffer_bytes = min GIB t,
       mb_async_concurrency = concurrency, mb_async_prefetch_files = max concurrency (concurrency * 2),
       async_retries = 4, async_timeout_seconds = 120,
       mb_remote_chunk_prefetch = max 1 (t div (32 * MIB)),
       mb_source_discovery_concurrency = max 1 (t div (8 * MIB))\<rparr>)"

definition memory_budget_from_limit :: "host \<Rightarrow> int \<Rightarrow> memory_budget" where
  "memory_budget_from_limit h requested = memory_budget_of_total (normalize_memory_limit_bytes h requested)"

definition backpressure_timeout_millis_from :: "memory_budget \<Rightarrow> int" where
  "backpressure_timeout_millis_from b =
     (if \<not> async_timeout_seconds b > 0 then 1000
      else \<lfloor>min 30000 (max 1000 (async_timeout_seconds b * 1000))\<rfloor>)"

definition backpressure_deadline_millis_from :: "memory_budget \<Rightarrow> int" where
  "backpressure_deadline_millis_from b =
     (if \<not> async_timeout_seconds b > 0 then 1000
      else \<lfloor>min 86400000 (max 1000 (async_timeout_seconds b * 1000))\<rfloor>)"

section \<open>The Python face\<close>

definition MAX_MEMORY_LIMIT_BYTES :: int where "MAX_MEMORY_LIMIT_BYTES = 64 * 1024 * 1024 * 1024"

datatype limit_option = No_Limit | Limit int | Bool_Limit bool | Other_Limit

definition normalize_memory_limit :: "host \<Rightarrow> limit_option \<Rightarrow> int result" where
  "normalize_memory_limit h v =
     (case v of
        No_Limit \<Rightarrow> Inr (total_bytes (memory_budget_from_limit h (-1)))
      | Limit n \<Rightarrow>
          if n \<le> 0 then Inl (ValueError ''Option 'memory_limit_bytes' must be > 0'')
          else if n > MAX_MEMORY_LIMIT_BYTES
          then Inl (ValueError ''Option 'memory_limit_bytes' exceeds the absolute 64 GiB safety ceiling'')
          else Inr n
      | _ \<Rightarrow> Inl (TypeError ''Option 'memory_limit_bytes' must be an integer or None''))"

definition budget_from_limit :: "host \<Rightarrow> limit_option \<Rightarrow> memory_budget result" where
  "budget_from_limit h v = rlift (memory_budget_from_limit h) (normalize_memory_limit h v)"

section \<open>Ranges\<close>

lemma automatic_limit_range:
  "1 \<le> automatic_memory_limit_from_available a \<and> automatic_memory_limit_from_available a \<le> kHardMaxMemoryLimitBytes"
proof -
  have "1 \<le> kDefaultMemoryLimitBytes" "kDefaultMemoryLimitBytes \<le> kHardMaxMemoryLimitBytes" "1 \<le> kHardMaxMemoryLimitBytes"
    by (simp_all add: memory_consts)
  note k = this
  show ?thesis
  proof (cases "a \<le> 0")
    case True
    then show ?thesis using k by (simp only: automatic_memory_limit_from_available_def if_True)
  next
    case False
    then obtain x where "automatic_memory_limit_from_available a = max 1 (min kHardMaxMemoryLimitBytes x)"
      unfolding automatic_memory_limit_from_available_def Let_def by simp
    then show ?thesis using k(3) by linarith
  qed
qed

lemma automatic_limit_available:
  assumes "0 < a"
  shows "automatic_memory_limit_from_available a \<le> a"
    "automatic_memory_limit_from_available a = max 1 (min kHardMaxMemoryLimitBytes (a - max (a div 8) (min (256 * MIB) (a div 4))))"
proof -
  show eq: "automatic_memory_limit_from_available a = max 1 (min kHardMaxMemoryLimitBytes (a - max (a div 8) (min (256 * MIB) (a div 4))))"
    using assms by (simp add: automatic_memory_limit_from_available_def kAutomaticMemoryReserveBytes_def Let_def)
  have "0 \<le> a div 8" using assms by simp
  then show "automatic_memory_limit_from_available a \<le> a" unfolding eq using assms by linarith
qed

lemma automatic_bytes_range:
  "1 \<le> automatic_memory_limit_bytes h \<and> automatic_memory_limit_bytes h \<le> kHardMaxMemoryLimitBytes"
proof -
  have "1 \<le> kDefaultMemoryLimitBytes" "kDefaultMemoryLimitBytes \<le> kHardMaxMemoryLimitBytes" by (simp_all add: memory_consts)
  then show ?thesis by (simp add: automatic_memory_limit_bytes_def automatic_limit_range Let_def split: option.split)
qed

lemma total_of_total [simp]: "total_bytes (memory_budget_of_total t) = t"
  by (simp only: memory_budget_of_total_def Let_def memory_budget.select_convs)

lemma total_range:
  "1 \<le> total_bytes (memory_budget_from_limit h r) \<and> total_bytes (memory_budget_from_limit h r) \<le> kHardMaxMemoryLimitBytes"
proof -
  have "1 \<le> kHardMaxMemoryLimitBytes" by (simp add: memory_consts)
  then show ?thesis
    using automatic_bytes_range [of h]
    by (simp add: memory_budget_from_limit_def normalize_memory_limit_bytes_def)
qed

lemma bounded_fraction_range:
  "1 \<le> t \<Longrightarrow> 1 \<le> mx \<Longrightarrow> 1 \<le> mn \<Longrightarrow> 1 \<le> bounded_fraction t d mx mn \<and> bounded_fraction t d mx mn \<le> t \<and> bounded_fraction t d mx mn \<le> mx"
  by (auto simp: bounded_fraction_def Let_def)

definition byte_budgets :: "memory_budget \<Rightarrow> int list" where
  "byte_budgets b =
     [io_chunk_bytes b, batch_target_bytes b, coalesce_max_bytes b, metadata_bytes b, materialized_input_bytes b,
      parquet_reader_buffer_bytes b, parquet_row_group_bytes b, parquet_page_bytes b, parquet_footer_bytes b,
      arrow_logical_buffer_bytes b]"

definition count_budgets :: "memory_budget \<Rightarrow> int list" where
  "count_budgets b =
     [parquet_reader_rows b, parquet_row_group_rows b, arrow_logical_slots b, mb_async_concurrency b,
      mb_async_prefetch_files b, mb_remote_chunk_prefetch b, mb_source_discovery_concurrency b]"

definition exhausted_host :: host where
  "exhausted_host =
     \<lparr>on_linux = True, platform_available_memory = Some (4 * GIB), cgroup_version = 2, effective_headroom = Headroom 0\<rparr>"

section \<open>Properties\<close>


text \<open>
  C31: the automatic limit fits into what is left.  With something left on the
  host or in the container it keeps at least an eighth of it in reserve (a quarter
  of a small host, up to 256 MiB) and never exceeds it.  A container with nothing
  left at all, however, gets the default of 512 MiB.
\<close>

theorem automatic_limit_fits:
  "(0 < a \<longrightarrow> automatic_memory_limit_from_available a \<le> a
     \<and> (1 < automatic_memory_limit_from_available a \<longrightarrow>
        automatic_memory_limit_from_available a \<le> a - a div 8
        \<and> automatic_memory_limit_from_available a \<le> a - min (256 * MIB) (a div 4)))
   \<and> (on_linux h \<and> cgroup_version h = 2 \<and> effective_headroom h = Headroom 0
       \<and> (case platform_available_memory h of None \<Rightarrow> True | Some p \<Rightarrow> 0 \<le> p)
      \<longrightarrow> automatic_memory_limit_bytes h = 512 * MIB)"
proof (intro conjI impI)
  show "automatic_memory_limit_from_available a \<le> a" if "0 < a" using automatic_limit_available that by blast
  show "automatic_memory_limit_from_available a \<le> a - a div 8" "automatic_memory_limit_from_available a \<le> a - min (256 * MIB) (a div 4)"
    if "0 < a" "1 < automatic_memory_limit_from_available a"
    using automatic_limit_available(2) [OF that(1)] that(2) by linarith+
  show "automatic_memory_limit_bytes h = 512 * MIB"
    if "on_linux h \<and> cgroup_version h = 2 \<and> effective_headroom h = Headroom 0
       \<and> (case platform_available_memory h of None \<Rightarrow> True | Some p \<Rightarrow> 0 \<le> p)"
  proof -
    have c: "container_available_memory h = Some 0" using that by (simp add: container_available_memory_def)
    have m: "min 0 INT64_MAX = 0" by (simp add: INT64_MAX_def)
    have z: "automatic_memory_limit_from_available 0 = 512 * MIB"
      by (simp add: automatic_memory_limit_from_available_def kDefaultMemoryLimitBytes_def)
    show ?thesis
    proof (cases "platform_available_memory h")
      case None
      then show ?thesis by (simp add: automatic_memory_limit_bytes_def c m z)
    next
      case (Some p)
      then have "min p 0 = 0" using that by simp
      then show ?thesis using Some by (simp add: automatic_memory_limit_bytes_def c m z)
    qed
  qed
qed

theorem automatic_limit_fits_witness:
  "automatic_memory_limit_from_available GIB \<le> GIB \<and> automatic_memory_limit_bytes exhausted_host = 512 * MIB"
proof -
  have "0 < GIB" by (simp add: memory_consts)
  moreover have "on_linux exhausted_host \<and> cgroup_version exhausted_host = 2 \<and> effective_headroom exhausted_host = Headroom 0
      \<and> (case platform_available_memory exhausted_host of None \<Rightarrow> True | Some p \<Rightarrow> 0 \<le> p)"
    by (simp add: exhausted_host_def memory_consts)
  ultimately show ?thesis using automatic_limit_fits [of GIB exhausted_host] by blast
qed

end
