(* ===== verification/Execution_Policy.thy ===== *)
theory Execution_Policy
  imports Memory_Budget
begin

text \<open>
  Model of the execution policy: the native derivation of worker counts, queue
  widths and memory shares from mode, memory and processors
  (\<^verbatim>\<open>cpp/src/internal/runtime/execution_policy.hh\<close>), its export
  (\<^verbatim>\<open>cpp/src/api/python_abi3/options/catalog.cc\<close>), and the policy that
  \<^verbatim>\<open>core_impl/execution_policy.py\<close> derives from it under the pressure of the
  process.  The detected processors, the statistics of the process and the
  pressure scale are arguments.
\<close>

definition kMinimumWorkerArenaBytes :: int where "kMinimumWorkerArenaBytes = 8 * MIB"
definition kWorkerRuntimeReserveBytes :: int where "kWorkerRuntimeReserveBytes = 1 * MIB"
definition kMinimumWorkerMemoryBytes :: int where
  "kMinimumWorkerMemoryBytes = kMinimumWorkerArenaBytes + kWorkerRuntimeReserveBytes"
definition kMaxMaterializationPacketRows :: int where "kMaxMaterializationPacketRows = 5120"
definition kMaxMaterializationPacketBytes :: int where "kMaxMaterializationPacketBytes = 1 * MIB"

datatype threading_mode = Single | Multi

datatype fallback_reason = No_Fallback | Single_Requested | Cpu_Limited | Memory_Limited

record execution_policy =
  requested_mode :: threading_mode
  available_cpus :: int
  effective_workers :: int
  task_queue_capacity :: int
  reorder_capacity :: int
  worker_arena_bytes :: int
  packet_target_bytes :: int
  packet_max_rows :: int
  async_concurrency :: int
  async_prefetch_files :: int
  remote_chunk_prefetch :: int
  source_discovery_concurrency :: int
  pyarrow_use_threads :: bool
  fallback :: fallback_reason

definition inline_policy :: "threading_mode \<Rightarrow> int \<Rightarrow> execution_policy" where
  "inline_policy mode cpus =
     \<lparr>requested_mode = mode, available_cpus = cpus, effective_workers = 1, task_queue_capacity = 1,
      reorder_capacity = 1, worker_arena_bytes = 1, packet_target_bytes = 1, packet_max_rows = 1,
      async_concurrency = 1, async_prefetch_files = 1, remote_chunk_prefetch = 1,
      source_discovery_concurrency = 1, pyarrow_use_threads = False, fallback = Single_Requested\<rparr>"

section \<open>Derivation\<close>

definition worker_pool :: "int \<Rightarrow> int" where
  "worker_pool t = max 1 (t - t div 4)"

definition workers_for :: "int \<Rightarrow> int \<Rightarrow> int" where
  "workers_for t cpus = max 1 (min cpus (max 1 (worker_pool t div kMinimumWorkerMemoryBytes)))"

definition policy_of_budget :: "threading_mode \<Rightarrow> memory_budget \<Rightarrow> int \<Rightarrow> execution_policy" where
  "policy_of_budget mode budget cpus =
     (let cpu_workers = max 1 cpus;
          out = (inline_policy mode cpu_workers)\<lparr>worker_arena_bytes := max 1 (total_bytes budget)\<rparr> in
      if mode = Single then out
      else let workers = workers_for (total_bytes budget) cpu_workers;
               arena = max 1 (worker_pool (total_bytes budget) div workers - kWorkerRuntimeReserveBytes);
               out = out\<lparr>effective_workers := workers, worker_arena_bytes := arena\<rparr> in
      if workers = 1 then out\<lparr>fallback := (if cpu_workers \<le> 1 then Cpu_Limited else Memory_Limited)\<rparr>
      else let queue = (if workers > INT64_MAX div 2 then INT64_MAX else max 1 (workers * 2));
               reorder_reserve = max 1 (total_bytes budget div 8);
               per_slot = max 1 (reorder_reserve div queue);
               per_worker = max 1 (arena div 8) in
      out\<lparr>task_queue_capacity := queue, reorder_capacity := queue,
          packet_target_bytes := max 1 (min kMaxMaterializationPacketBytes (min per_slot per_worker)),
          packet_max_rows := kMaxMaterializationPacketRows,
          async_concurrency := min (mb_async_concurrency budget) (max 1 (workers * 2)),
          async_prefetch_files := min (mb_async_prefetch_files budget) (max 1 (queue * 2)),
          remote_chunk_prefetch := min (mb_remote_chunk_prefetch budget) queue,
          source_discovery_concurrency := min (mb_source_discovery_concurrency budget) (max 1 (queue * 2)),
          pyarrow_use_threads := True, fallback := No_Fallback\<rparr>)"

definition execution_policy_from :: "host \<Rightarrow> threading_mode \<Rightarrow> int \<Rightarrow> int \<Rightarrow> execution_policy" where
  "execution_policy_from h mode requested cpus = policy_of_budget mode (memory_budget_from_limit h requested) cpus"

section \<open>Narrowing\<close>

definition execution_policy_with_worker_ceiling :: "execution_policy \<Rightarrow> int \<Rightarrow> int \<Rightarrow> execution_policy" where
  "execution_policy_with_worker_ceiling policy worker_ceiling queue_slots_per_worker =
     (if effective_workers policy \<le> 1 then policy
      else let workers = min (effective_workers policy) (max 1 worker_ceiling);
               slots = max 1 queue_slots_per_worker;
               desired = (if workers > INT64_MAX div slots then INT64_MAX else workers * slots);
               queue = max 1 (min (task_queue_capacity policy) desired);
               pool = (if worker_arena_bytes policy > INT64_MAX div effective_workers policy then INT64_MAX
                       else worker_arena_bytes policy * effective_workers policy);
               out = policy\<lparr>effective_workers := workers, task_queue_capacity := queue, reorder_capacity := queue,
                 worker_arena_bytes := max 1 (pool div workers),
                 async_concurrency := min (async_concurrency policy) (max 1 (workers * 2)),
                 async_prefetch_files := min (async_prefetch_files policy) (max 1 (queue * 2)),
                 remote_chunk_prefetch := min (remote_chunk_prefetch policy) queue,
                 source_discovery_concurrency := min (source_discovery_concurrency policy) (max 1 (queue * 2))\<rparr> in
      if workers = 1
      then out\<lparr>task_queue_capacity := 1, reorder_capacity := 1, async_concurrency := 1, async_prefetch_files := 1,
               remote_chunk_prefetch := 1, source_discovery_concurrency := 1, pyarrow_use_threads := False,
               fallback := Memory_Limited\<rparr>
      else out)"

definition execution_policy_for_work_items :: "execution_policy \<Rightarrow> int \<Rightarrow> int \<Rightarrow> int \<Rightarrow> execution_policy" where
  "execution_policy_for_work_items policy work_items minimum_items_per_worker queue_slots_per_worker =
     (if effective_workers policy \<le> 1 then policy
      else let items = max 1 work_items; per_worker = max 1 minimum_items_per_worker;
               useful_workers = 1 + (items - 1) div per_worker in
      execution_policy_with_worker_ceiling policy (min (effective_workers policy) useful_workers) queue_slots_per_worker)"

record process_stats =
  capacity_bytes :: int
  reserved_bytes :: int

definition execution_policy_detected :: "host \<Rightarrow> int \<Rightarrow> process_stats \<Rightarrow> threading_mode \<Rightarrow> int \<Rightarrow> execution_policy" where
  "execution_policy_detected h cpu_count process mode requested =
     (let policy = execution_policy_from h mode requested cpu_count in
      if effective_workers policy \<le> 1 then policy
      else let headroom = max 1 (capacity_bytes process - reserved_bytes process) in
        execution_policy_with_worker_ceiling policy (max 1 (headroom div kMinimumWorkerMemoryBytes)) 2)"

section \<open>Export and the policy of the Python runtime\<close>

text \<open>The native call with and without an explicit processor count.\<close>

record runtime =
  rt_host :: host
  rt_cpus :: int
  rt_native_process :: process_stats
  rt_resident :: process_stats
  rt_raw_resident :: process_stats
  rt_control_reserved :: int
  rt_pressure_scale :: rat

definition native_execution_policy :: "runtime \<Rightarrow> threading_mode \<Rightarrow> int \<Rightarrow> int option \<Rightarrow> execution_policy" where
  "native_execution_policy rt mode requested cpus =
     (case cpus of
        Some n \<Rightarrow> if n > 0 then execution_policy_from (rt_host rt) mode requested n
                  else execution_policy_detected (rt_host rt) (rt_cpus rt) (rt_native_process rt) mode requested
      | None \<Rightarrow> execution_policy_detected (rt_host rt) (rt_cpus rt) (rt_native_process rt) mode requested)"

definition pressure_adjusted_target :: "runtime \<Rightarrow> int \<Rightarrow> int" where
  "pressure_adjusted_target rt desired = max 1 \<lfloor>of_int (max 1 desired) * rt_pressure_scale rt\<rfloor>"

definition memory_adjusted :: "runtime \<Rightarrow> threading_mode \<Rightarrow> int \<Rightarrow> execution_policy \<Rightarrow> execution_policy" where
  "memory_adjusted rt mode requested_memory values =
     (let resident = rt_resident rt; current_workers = max 1 (effective_workers values);
          per_worker = max 1 (worker_arena_bytes values);
          headroom = max 0 (capacity_bytes resident - reserved_bytes resident);
          memory_workers = max 1 (min current_workers (headroom div per_worker));
          smaller_idle = capacity_bytes (rt_raw_resident rt) < requested_memory \<and> reserved_bytes resident = 0;
          dynamic_pressure = reserved_bytes resident > 0 \<or> rt_control_reserved rt > 0 in
      if memory_workers < current_workers \<and> dynamic_pressure \<and> \<not> smaller_idle
      then (native_execution_policy rt mode requested_memory (Some memory_workers))
             \<lparr>available_cpus := available_cpus values, fallback := Memory_Limited\<rparr>
      else values)"

definition python_execution_policy ::
  "runtime \<Rightarrow> threading_mode \<Rightarrow> limit_option \<Rightarrow> int option \<Rightarrow> (execution_policy \<times> int) result" where
  "python_execution_policy rt mode limit cpus =
     rbind (normalize_memory_limit (rt_host rt) limit) (\<lambda>requested_memory.
     if (case cpus of Some n \<Rightarrow> n \<le> 0 | None \<Rightarrow> False) then Inl (ValueError ''available_cpus must be > 0'')
     else let values = native_execution_policy rt mode requested_memory cpus;
              values = (if cpus = None
                        then let detected = max 1 (available_cpus values);
                                 pressured = pressure_adjusted_target rt detected in
                             if pressured < detected
                             then native_execution_policy rt mode requested_memory (Some pressured) else values
                        else values);
              values = (if cpus = None \<and> mode \<noteq> Single then memory_adjusted rt mode requested_memory values else values) in
     rlift (\<lambda>budget. (values, replay_spool_bytes budget)) (budget_from_limit (rt_host rt) limit))"


section \<open>Fitting into memory\<close>

text \<open>
  A policy fits into \<open>t\<close> bytes: the arenas and runtimes of its workers and the
  packets that may wait in its reorder window stay within them.
\<close>

definition fits :: "int \<Rightarrow> execution_policy \<Rightarrow> bool" where
  "fits t p \<longleftrightarrow> 1 \<le> effective_workers p \<and> 1 \<le> worker_arena_bytes p
     \<and> (if effective_workers p = 1 then worker_arena_bytes p \<le> t
        else 1 \<le> reorder_capacity p \<and> task_queue_capacity p = reorder_capacity p \<and> 1 \<le> packet_target_bytes p
          \<and> effective_workers p * (worker_arena_bytes p + kWorkerRuntimeReserveBytes)
             + reorder_capacity p * packet_target_bytes p \<le> t)"

lemmas policy_consts = kMinimumWorkerArenaBytes_def kWorkerRuntimeReserveBytes_def kMinimumWorkerMemoryBytes_def
  kMaxMaterializationPacketRows_def kMaxMaterializationPacketBytes_def

lemma share_le:
  assumes "0 < (w :: int)"
  shows "w * (x div w) \<le> x"
proof -
  have "w * (x div w) = x - x mod w" by (rule minus_mod_eq_mult_div [symmetric])
  then show ?thesis using pos_mod_sign [OF assms, of x] by linarith
qed

lemma share_ge:
  assumes "0 < (w :: int)" "w * c \<le> x"
  shows "c \<le> x div w"
  using zdiv_mono1 [OF assms(2,1)] assms(1) by simp

lemma workers_fit:
  assumes "1 < workers_for t c" "1 \<le> t"
  shows "workers_for t c * (9 * MIB) \<le> worker_pool t" "worker_pool t = t - t div 4" "workers_for t c \<le> t"
proof -
  let ?w = "workers_for t c"
  have m: "kMinimumWorkerMemoryBytes = 9 * MIB" by (simp add: policy_consts)
  have M: "0 < 9 * MIB" by (simp add: MIB_def)
  have "?w \<le> worker_pool t div (9 * MIB)" using assms(1) unfolding workers_for_def m by linarith
  then have "?w * (9 * MIB) \<le> (worker_pool t div (9 * MIB)) * (9 * MIB)" using M by (intro mult_right_mono) auto
  also have "\<dots> \<le> worker_pool t" using share_le [OF M, of "worker_pool t"] by (simp add: mult.commute)
  finally show le: "?w * (9 * MIB) \<le> worker_pool t" .
  have w9: "?w \<le> ?w * (9 * MIB)" using assms(1) by (simp add: MIB_def)
  then have "1 < worker_pool t" using le assms(1) by linarith
  then show eq: "worker_pool t = t - t div 4" unfolding worker_pool_def by linarith
  show "?w \<le> t" using le w9 eq assms(2) by linarith
qed


lemma policy_workers:
  "mode \<noteq> Single \<Longrightarrow> effective_workers (policy_of_budget mode b cpus) = workers_for (total_bytes b) (max 1 cpus)"
  by (cases "workers_for (total_bytes b) (max 1 cpus) = 1")
    (simp_all only: policy_of_budget_def Let_def if_False if_True simp_thms inline_policy_def execution_policy.simps)

lemma policy_of_budget_fits:
  assumes "1 \<le> total_bytes b" "total_bytes b \<le> 64 * GIB"
  shows "fits (total_bytes b) (policy_of_budget mode b cpus)"
proof -
  define t where "t = total_bytes b"
  define c where "c = max 1 cpus"
  define w where "w = workers_for t c"
  define arena where "arena = max 1 (worker_pool t div w - kWorkerRuntimeReserveBytes)"
  have t: "1 \<le> t" "t \<le> 64 * GIB" using assms by (simp_all add: t_def)
  have w1: "1 \<le> w" unfolding w_def workers_for_def by linarith
  have pool: "worker_pool t \<le> t" using t unfolding worker_pool_def by linarith
  show ?thesis
  proof (cases "mode = Single")
    case True
    then show ?thesis using t by (simp add: fits_def policy_of_budget_def inline_policy_def t_def Let_def)
  next
    case multi: False
    show ?thesis
    proof (cases "w = 1")
      case True
      have "arena \<le> t"
        using pool t unfolding arena_def True kWorkerRuntimeReserveBytes_def MIB_def by simp
      then show ?thesis
        using multi True w1
        by (simp add: fits_def policy_of_budget_def inline_policy_def Let_def t_def [symmetric] c_def [symmetric]
            w_def [symmetric] arena_def [symmetric]) (simp add: arena_def)
    next
      case False
      then have w: "1 < w" using w1 by linarith
      note wf = workers_fit [OF w [unfolded w_def] t(1), folded w_def]
      have q: "\<not> w > INT64_MAX div 2"
        using wf(3) t(2) by (simp add: memory_consts)
      define queue where "queue = max 1 (w * 2)"
      define slot where "slot = max 1 (max 1 (t div 8) div queue)"
      define packet where "packet = max 1 (min kMaxMaterializationPacketBytes (min slot (max 1 (arena div 8))))"
      have queue: "queue = w * 2" "1 < queue" using w by (simp_all add: queue_def)
      have t8: "w * MIB \<le> t div 8"
      proof -
        have "w * (9 * MIB) \<le> t" using wf(1) pool by linarith
        then have "8 * (w * MIB) \<le> t" using w by (simp add: MIB_def)
        then show ?thesis by simp
      qed
      have "queue \<le> t div 8" using t8 queue w by (simp add: MIB_def)
      moreover have "queue * (t div 8 div queue) \<le> t div 8" using queue by (intro share_le) simp
      moreover have "1 \<le> t div 8 div queue" using calculation(1) queue(2) by (intro share_ge) simp_all
      ultimately have slot: "queue * slot \<le> t div 8" "1 \<le> slot"
        using queue by (auto simp: slot_def max_def)
      have pk: "1 \<le> packet" "packet \<le> slot" using slot(2) unfolding packet_def by linarith+
      then have "queue * packet \<le> t div 8" using slot(1) queue(2)
        by (meson mult_left_mono order_trans order_less_imp_le zero_less_one order_less_trans)
      moreover have "w * (arena + kWorkerRuntimeReserveBytes) \<le> t - t div 4"
      proof -
        have "9 * MIB \<le> worker_pool t div w"
          using wf(1) w by (intro share_ge) simp_all
        then have "arena + kWorkerRuntimeReserveBytes = worker_pool t div w"
          unfolding arena_def policy_consts by (simp add: MIB_def)
        then show ?thesis using share_le [of w "worker_pool t"] w wf(2) by simp
      qed
      ultimately have sum: "w * (arena + kWorkerRuntimeReserveBytes) + queue * packet \<le> t" using t by linarith
      note unf = policy_of_budget_def Let_def t_def [symmetric] c_def [symmetric] w_def [symmetric] arena_def [symmetric]
      have f: "effective_workers (policy_of_budget mode b cpus) = w"
        "worker_arena_bytes (policy_of_budget mode b cpus) = arena"
        "task_queue_capacity (policy_of_budget mode b cpus) = queue"
        "reorder_capacity (policy_of_budget mode b cpus) = queue"
        "packet_target_bytes (policy_of_budget mode b cpus) = packet"
        by (simp_all only: unf multi False q if_False inline_policy_def execution_policy.simps queue_def [symmetric] slot_def [symmetric]
            packet_def [symmetric])
      show ?thesis unfolding fits_def f t_def [symmetric]
        using w False queue pk sum by (auto simp: arena_def)
    qed
  qed
qed


text \<open>Narrowing keeps the fit and never adds workers, queue slots or arena bytes in total.\<close>

definition narrower :: "execution_policy \<Rightarrow> execution_policy \<Rightarrow> bool" where
  "narrower q p \<longleftrightarrow> effective_workers q \<le> effective_workers p
     \<and> task_queue_capacity q \<le> task_queue_capacity p \<and> reorder_capacity q \<le> reorder_capacity p
     \<and> effective_workers q * worker_arena_bytes q \<le> effective_workers p * worker_arena_bytes p"

lemma ceiling_shape:
  fixes p q :: execution_policy
  assumes "1 < effective_workers p" "1 \<le> worker_arena_bytes p"
    "worker_arena_bytes p * effective_workers p \<le> INT64_MAX" "1 \<le> task_queue_capacity p"
    and q_def: "q = execution_policy_with_worker_ceiling p n k"
  shows "1 \<le> effective_workers q" "effective_workers q \<le> effective_workers p"
    "worker_arena_bytes q = worker_arena_bytes p * effective_workers p div effective_workers q"
    "1 \<le> task_queue_capacity q" "task_queue_capacity q \<le> task_queue_capacity p"
    "reorder_capacity q = task_queue_capacity q" "packet_target_bytes q = packet_target_bytes p"
    "1 \<le> worker_arena_bytes q"
proof -
  define w where "w = min (effective_workers p) (max 1 n)"
  have w: "1 \<le> w" "w \<le> effective_workers p" using assms(1) by (auto simp: w_def)
  have nosat: "\<not> INT64_MAX div effective_workers p < worker_arena_bytes p"
    using assms(1,3) share_ge [of "effective_workers p" "worker_arena_bytes p" INT64_MAX] by (simp add: mult.commute)
  define pool where "pool = worker_arena_bytes p * effective_workers p"
  have "w * 1 \<le> pool" unfolding pool_def using w assms(1,2)
    by (simp add: order_trans [OF w(2)] mult_le_cancel_right1)
  then have "1 \<le> pool div w" using w(1) by (intro share_ge) simp_all
  then have m: "max 1 (pool div w) = pool div w" by simp
  note unf = q_def execution_policy_with_worker_ceiling_def Let_def w_def [symmetric] if_not_P [OF nosat]
    pool_def [symmetric] m
  have ew: "effective_workers q = w" using assms(1) by (simp add: unf)
  show "1 \<le> effective_workers q" "effective_workers q \<le> effective_workers p" using ew w by simp_all
  show ar: "worker_arena_bytes q = pool div effective_workers q" unfolding ew using assms(1) \<open>w * 1 \<le> pool\<close> by (auto simp: unf)
  show "1 \<le> worker_arena_bytes q" using ar ew \<open>1 \<le> pool div w\<close> by simp
  define queue where "queue = max 1 (min (task_queue_capacity p)
      (if w > INT64_MAX div max 1 k then INT64_MAX else w * max 1 k))"
  have e: "(effective_workers p \<le> 1) = False" using assms(1) by simp
  have "task_queue_capacity q = (if w = 1 then 1 else queue)" "reorder_capacity q = (if w = 1 then 1 else queue)"
    "packet_target_bytes q = packet_target_bytes p"
    unfolding unf e if_False queue_def [symmetric] by simp_all
  moreover have "1 \<le> queue" "queue \<le> task_queue_capacity p" using assms(4) unfolding queue_def by linarith+
  ultimately show "1 \<le> task_queue_capacity q" "task_queue_capacity q \<le> task_queue_capacity p"
    "reorder_capacity q = task_queue_capacity q" "packet_target_bytes q = packet_target_bytes p"
    using assms(4) by simp_all
qed

lemma fits_no_overflow:
  assumes "fits t p" "t \<le> 64 * GIB" "1 < effective_workers p"
  shows "worker_arena_bytes p * effective_workers p \<le> INT64_MAX"
proof -
  have "0 \<le> effective_workers p * kWorkerRuntimeReserveBytes" "0 \<le> reorder_capacity p * packet_target_bytes p"
    using assms(1,3) by (auto simp: fits_def kWorkerRuntimeReserveBytes_def MIB_def)
  moreover have "effective_workers p * worker_arena_bytes p + effective_workers p * kWorkerRuntimeReserveBytes
      + reorder_capacity p * packet_target_bytes p \<le> t"
    using assms(1,3) by (simp add: fits_def distrib_left)
  moreover have "64 * GIB \<le> INT64_MAX" by (simp add: memory_consts)
  ultimately show ?thesis using assms(2) by (simp add: mult.commute)
qed

lemma ceiling_narrows:
  assumes "fits t p" "t \<le> 64 * GIB"
  shows "fits t (execution_policy_with_worker_ceiling p n k)" "narrower (execution_policy_with_worker_ceiling p n k) p"
proof -
  let ?q = "execution_policy_with_worker_ceiling p n k"
  have "fits t ?q \<and> narrower ?q p"
  proof (cases "effective_workers p \<le> 1")
    case True
    then show ?thesis using assms by (simp add: execution_policy_with_worker_ceiling_def narrower_def)
  next
    case False
    then have e: "1 < effective_workers p" by simp
    have F: "1 \<le> worker_arena_bytes p" "1 \<le> task_queue_capacity p" "task_queue_capacity p = reorder_capacity p"
      "1 \<le> packet_target_bytes p"
      "effective_workers p * (worker_arena_bytes p + kWorkerRuntimeReserveBytes)
         + reorder_capacity p * packet_target_bytes p \<le> t"
      using assms(1) e by (simp_all add: fits_def)
    note S = ceiling_shape [OF e F(1) fits_no_overflow [OF assms e] F(2) refl, of n k]
    have aw: "effective_workers ?q * worker_arena_bytes ?q \<le> effective_workers p * worker_arena_bytes p"
      unfolding S(3) using share_le [of "effective_workers ?q" "worker_arena_bytes p * effective_workers p"] S(1)
      by (simp add: mult.commute)
    have ru: "effective_workers ?q * kWorkerRuntimeReserveBytes \<le> effective_workers p * kWorkerRuntimeReserveBytes"
      using S(2) by (simp add: kWorkerRuntimeReserveBytes_def MIB_def)
    have pk: "reorder_capacity ?q * packet_target_bytes ?q \<le> reorder_capacity p * packet_target_bytes p"
      unfolding S(6,7) using S(5) F(3,4) by (intro mult_right_mono) simp_all
    have sum: "effective_workers ?q * (worker_arena_bytes ?q + kWorkerRuntimeReserveBytes)
        + reorder_capacity ?q * packet_target_bytes ?q \<le> t"
      using aw ru pk F(5) unfolding distrib_left by linarith
    have "0 \<le> reorder_capacity ?q * packet_target_bytes ?q" using S(4,6,7) F(4) by simp
    then have one: "effective_workers ?q = 1 \<Longrightarrow> worker_arena_bytes ?q \<le> t"
      using sum by (simp add: kWorkerRuntimeReserveBytes_def MIB_def)
    show ?thesis using S(1,2,4,5,6,7,8) F(3,4) sum one aw by (auto simp: fits_def narrower_def)
  qed
  then show "fits t ?q" "narrower ?q p" by simp_all
qed


lemma execution_policy_from_fits:
  assumes "1 \<le> m" "m \<le> 64 * GIB"
  shows "fits m (execution_policy_from h mode m cpus)"
proof -
  have "total_bytes (memory_budget_from_limit h m) = m"
    using assms by (simp add: memory_budget_from_limit_def normalize_memory_limit_bytes_def kHardMaxMemoryLimitBytes_def)
  then show ?thesis using policy_of_budget_fits [of "memory_budget_from_limit h m" mode cpus] assms
    by (simp add: execution_policy_from_def)
qed

lemma native_policy_fits:
  assumes "1 \<le> m" "m \<le> 64 * GIB"
  shows "fits m (native_execution_policy rt mode m cpus)"
proof -
  note derived = execution_policy_from_fits [OF assms]
  have "fits m (execution_policy_detected h n s mode m)" for h n s
    using derived ceiling_narrows(1) [OF derived assms(2)] by (simp add: execution_policy_detected_def Let_def)
  then show ?thesis using derived by (simp add: native_execution_policy_def split: option.split)
qed

lemma memory_adjusted_fits:
  assumes "1 \<le> m" "m \<le> 64 * GIB" "fits m p"
  shows "fits m (memory_adjusted rt mode m p)"
proof -
  have "fits m (q\<lparr>available_cpus := n, fallback := f\<rparr>)" if "fits m q" for q n f using that by (simp add: fits_def)
  then show ?thesis using native_policy_fits [OF assms(1,2)] assms(3) by (simp add: memory_adjusted_def Let_def)
qed

lemma normalize_limit_range:
  assumes "normalize_memory_limit h v = Inr m"
  shows "1 \<le> m" "m \<le> 64 * GIB"
  using assms total_range [of h "- 1"]
  by (auto simp: normalize_memory_limit_def kHardMaxMemoryLimitBytes_def MAX_MEMORY_LIMIT_BYTES_def GIB_def MIB_def
      split: limit_option.splits if_splits)



definition idle_runtime :: runtime where
  "idle_runtime =
     \<lparr>rt_host = exhausted_host, rt_cpus = 4, rt_native_process = \<lparr>capacity_bytes = 64 * MIB, reserved_bytes = 0\<rparr>,
      rt_resident = \<lparr>capacity_bytes = 64 * MIB, reserved_bytes = 0\<rparr>,
      rt_raw_resident = \<lparr>capacity_bytes = 64 * MIB, reserved_bytes = 0\<rparr>, rt_control_reserved = 0,
      rt_pressure_scale = 1\<rparr>"


end
