(* ===== verification/Upload_Policy.thy ===== *)
theory Upload_Policy
  imports Execution_Policy Py_Strings
begin

text \<open>
  Model of \<^verbatim>\<open>remote_impl/upload_policy.py\<close>: part sizes and worker counts of
  a remote publication, the interpretation of the responses of a resumable upload,
  the budgeted reading of parts and the budget of the multipart manifest.  The
  division of \<^verbatim>\<open>math.ceil(a / b)\<close> is taken exact, as the floating-point quotient
  has the same ceiling for every size below 2^53.  Granting and resizing memory,
  opening files and allocating objects are arguments that may fail.
\<close>

section \<open>Responses of a resumable upload\<close>

text \<open>Python's \<open>int(text)\<close> for text with character codes below 256: surrounding
  whitespace, one sign, at most 4300 digits with single underscores between them.\<close>

fun digit_groups :: "string \<Rightarrow> string option" where
  "digit_groups [] = None"
| "digit_groups [c] = (if isdigit c then Some [c] else None)"
| "digit_groups (c # d # s) =
     (if \<not> isdigit c then None
      else map_option (Cons c) (digit_groups (if d = CHR ''_'' then s else d # s)))"

definition digits_int :: "string \<Rightarrow> int option" where
  "digits_int s =
     (case digit_groups s of
        None \<Rightarrow> None
      | Some d \<Rightarrow> if length d > 4300 then None else Some (int (int_of_digits 0 d)))"

definition py_int :: "string \<Rightarrow> int option" where
  "py_int text =
     (case strip text of
        [] \<Rightarrow> None
      | c # s \<Rightarrow>
          if c = CHR ''-'' then map_option uminus (digits_int s)
          else if c = CHR ''+'' then digits_int s
          else digits_int (c # s))"

record response =
  rs_status :: int
  rs_headers :: "(string \<times> string) list"

definition header_or :: "(string \<times> string) list \<Rightarrow> string \<Rightarrow> string \<Rightarrow> string option" where
  "header_or headers a b =
     (case map_of headers a of Some (c # s) \<Rightarrow> Some (c # s) | _ \<Rightarrow> map_of headers b)"

definition gcs_resumable_next_offset :: "response \<Rightarrow> int \<Rightarrow> int option \<Rightarrow> int option \<Rightarrow> int result" where
  "gcs_resumable_next_offset r whole first end_of =
     (if rs_status r = 200 \<or> rs_status r = 201
      then if end_of \<noteq> None \<and> end_of \<noteq> Some (whole - 1)
           then Inl (RuntimeError ''GCS finalized a resumable upload before the final byte'')
           else Inr whole
      else if rs_status r = 308
      then let committed_end =
                 (case header_or (rs_headers r) ''Range'' ''range'' of
                    None \<Rightarrow> - 1
                  | Some raw \<Rightarrow>
                      if starts_with ''bytes=0-'' raw
                      then (case py_int (drop 8 raw) of None \<Rightarrow> - 1 | Some n \<Rightarrow> n) else - 1);
               next_offset = committed_end + 1 in
           (case (first, end_of) of
              (Some s, Some e) \<Rightarrow>
                if s \<le> next_offset \<and> next_offset \<le> e + 1 then Inr next_offset
                else Inl (RuntimeError ''GCS resumable upload returned an invalid committed range'')
            | _ \<Rightarrow> Inr next_offset)
      else if rs_status r = 429 \<or> (500 \<le> rs_status r \<and> rs_status r \<le> 599)
      then Inl (TransientGcsUploadError ''GCS resumable upload failed'')
      else Inl (RuntimeError ''GCS resumable upload failed''))"

section \<open>Policy\<close>

definition S3_MIN_PART_BYTES :: int where "S3_MIN_PART_BYTES = 5 * MIB"
definition GCS_CHUNK_ALIGNMENT :: int where "GCS_CHUNK_ALIGNMENT = 256 * 1024"
definition MAX_UPLOAD_PARTS :: int where "MAX_UPLOAD_PARTS = 10000"

record upload_policy =
  up_provider :: string
  up_file_size :: int
  up_multipart :: bool
  up_part_bytes :: int
  up_concurrency :: int
  up_part_count :: int
  up_buffered_bytes :: int

definition round_up :: "int \<Rightarrow> int \<Rightarrow> int" where
  "round_up x alignment = (max 1 x + alignment - 1) div alignment * alignment"

definition ceil_div :: "int \<Rightarrow> int \<Rightarrow> int" where
  "ceil_div a b = - (- a div b)"

definition provider_min_part_bytes :: "string \<Rightarrow> int" where
  "provider_min_part_bytes provider =
     (if provider = ''s3'' then S3_MIN_PART_BYTES
      else if provider = ''gcs'' then GCS_CHUNK_ALIGNMENT else 1 * MIB)"

definition desired_part :: "string \<Rightarrow> int \<Rightarrow> memory_budget \<Rightarrow> int" where
  "desired_part provider file_size budget =
     (let desired = max (provider_min_part_bytes provider) (io_chunk_bytes budget * 8) in
      if provider = ''gcs'' then round_up desired GCS_CHUNK_ALIGNMENT
      else if provider = ''s3'' then max desired (round_up (ceil_div (max 1 file_size) MAX_UPLOAD_PARTS) MIB)
      else desired)"

definition upload_policy_of :: "string \<Rightarrow> int \<Rightarrow> execution_policy \<Rightarrow> memory_budget \<Rightarrow> upload_policy" where
  "upload_policy_of provider file_size policy budget =
     (let buffer_budget = max (provider_min_part_bytes provider) (total_bytes budget div 8);
          desired = desired_part provider file_size budget;
          requested_workers = (if requested_mode policy = Single then 1 else max 1 (async_concurrency policy));
          max_workers_by_memory = max 1 (buffer_budget div desired);
          concurrency = min requested_workers max_workers_by_memory;
          part_count = max 1 (ceil_div (max 1 file_size) desired);
          threshold = max (desired * 2) (16 * MIB);
          multipart = (provider \<in> {''s3'', ''gcs''} \<and> file_size \<ge> threshold \<and> part_count > 1);
          part_count = (if multipart then part_count else 1);
          concurrency = (if provider = ''gcs'' then 1
                         else if \<not> multipart \<and> provider \<noteq> ''azure'' then 1 else concurrency) in
      \<lparr>up_provider = provider, up_file_size = file_size, up_multipart = multipart, up_part_bytes = desired,
       up_concurrency = max 1 concurrency, up_part_count = part_count,
       up_buffered_bytes = desired * max 1 concurrency\<rparr>)"

definition remote_upload_policy ::
  "runtime \<Rightarrow> string \<Rightarrow> int result \<Rightarrow> limit_option \<Rightarrow> threading_mode \<Rightarrow> upload_policy result" where
  "remote_upload_policy rt provider stat_size limit mode =
     rbind stat_size (\<lambda>file_size.
     rbind (python_execution_policy rt mode limit None) (\<lambda>(policy, _).
     rlift (upload_policy_of provider file_size policy) (budget_from_limit (rt_host rt) limit)))"

section \<open>Reading parts\<close>

text \<open>
  Whether memory is granted (and whether a lease accounts for it), the file opens,
  the budgeted copy is built and its lease shrinks.  The number in the result is
  the number of leases left open.
\<close>

record read_env =
  re_acquire :: "int \<Rightarrow> bool result"
  re_open :: "unit result"
  re_retain :: "unit result"
  re_resize :: "unit result"

definition read_upload_range :: "read_env \<Rightarrow> 'b list \<Rightarrow> int \<Rightarrow> int \<Rightarrow> int \<Rightarrow> 'b list result \<times> nat" where
  "read_upload_range env content offset len file_size =
     (if offset < 0 \<or> len < 0 \<or> offset + len > file_size
      then (Inl (ValueError ''remote upload range is outside the completed local spool''), 0)
      else case re_acquire env (len * 2 + 256) of
             Inl e \<Rightarrow> (Inl e, 0)
           | Inr leased \<Rightarrow>
               let payload = take (nat len) (drop (nat offset) content);
                   body = rbind (re_open env) (\<lambda>_.
                     if int (length payload) \<noteq> len
                     then Inl (OSError ''remote upload source changed while reading'')
                     else if \<not> leased then Inr payload
                     else rbind (re_retain env) (\<lambda>_. rlift (\<lambda>_. payload) (re_resize env))) in
               (body, if leased \<and> is_ok body then 1 else 0))"

definition read_upload_part :: "read_env \<Rightarrow> 'b list \<Rightarrow> int \<Rightarrow> int \<Rightarrow> int \<Rightarrow> 'b list result \<times> nat" where
  "read_upload_part env content index part_bytes file_size =
     (let offset = index * part_bytes in
      if offset \<ge> file_size then (Inr [], 0)
      else read_upload_range env content offset (min part_bytes (file_size - offset)) file_size)"

section \<open>Manifest budget\<close>

text \<open>
  The budget of the list of uploaded parts: the lease holds the bytes last granted
  to it, \<open>getsizeof\<close> and whether the lease grows are arguments.
\<close>

record manifest_budget =
  mf_lease :: "int option"
  mf_reserved :: int
  mf_closed :: bool

definition manifest_init :: "(int \<Rightarrow> bool result) \<Rightarrow> int \<Rightarrow> manifest_budget result" where
  "manifest_init acquire part_count =
     (let base = 512 + max 1 part_count * 16 in
      rlift (\<lambda>leased. \<lparr>mf_lease = (if leased then Some base else None), mf_reserved = base, mf_closed = False\<rparr>)
        (acquire base))"

definition manifest_reserved_bytes :: "manifest_budget \<Rightarrow> int" where
  "manifest_reserved_bytes m = (if mf_closed m then 0 else mf_reserved m)"

definition append_part ::
  "(string \<Rightarrow> int) \<Rightarrow> (int \<Rightarrow> pyerr option) \<Rightarrow> string \<Rightarrow> int \<Rightarrow> (string \<times> int) list \<times> manifest_budget
   \<Rightarrow> unit result \<times> (string \<times> int) list \<times> manifest_budget" where
  "append_part getsizeof resize etag part_number = (\<lambda>(parts, m).
     if mf_closed m then (Inl (RuntimeError ''S3 multipart manifest budget is closed''), parts, m)
     else let next_reserved = mf_reserved m + (1024 + getsizeof etag) in
       case (if mf_lease m = None then None else resize next_reserved) of
         Some e \<Rightarrow> (Inl e, parts, m)
       | None \<Rightarrow> (Inr (), parts @ [(etag, part_number)],
                  m\<lparr>mf_lease := map_option (\<lambda>_. next_reserved) (mf_lease m), mf_reserved := next_reserved\<rparr>))"

definition manifest_close :: "pyerr option \<Rightarrow> manifest_budget \<Rightarrow> unit result \<times> manifest_budget" where
  "manifest_close failure m =
     (if mf_closed m then (Inr (), m)
      else case (if mf_lease m = None then None else failure) of
        Some e \<Rightarrow> (Inl e, m)
      | None \<Rightarrow> (Inr (), m\<lparr>mf_lease := None, mf_reserved := 0, mf_closed := True\<rparr>))"


section \<open>Arithmetic of sizes\<close>

lemma ceil_div_bounds:
  assumes "0 < b"
  shows "a \<le> ceil_div a b * b" "(ceil_div a b - 1) * b < a"
proof -
  have e: "- a = (- a div b) * b + (- a mod b)" by (simp add: div_mult_mod_eq)
  have r: "0 \<le> - a mod b" "- a mod b < b" using assms by simp_all
  have c: "ceil_div a b * b = - ((- a div b) * b)" "(ceil_div a b - 1) * b = - ((- a div b) * b) - b"
    by (simp_all add: ceil_div_def algebra_simps)
  show "a \<le> ceil_div a b * b" using e r c(1) by linarith
  show "(ceil_div a b - 1) * b < a" using e r c(2) by linarith
qed

lemma ceil_div_le:
  assumes "0 < b" "a \<le> k * b"
  shows "ceil_div a b \<le> k"
proof (rule ccontr)
  assume "\<not> ceil_div a b \<le> k"
  then have "k * b \<le> (ceil_div a b - 1) * b" using assms(1) by (intro mult_right_mono) auto
  then show False using ceil_div_bounds(2) [OF assms(1), of a] assms(2) by linarith
qed

lemma round_up_bounds:
  assumes "0 < g"
  shows "g dvd round_up x g" "max 1 x \<le> round_up x g" "round_up x g < max 1 x + g"
proof -
  define y where "y = max 1 x + g - 1"
  have e: "y = y div g * g + y mod g" by (simp add: div_mult_mod_eq)
  have r: "0 \<le> y mod g" "y mod g < g" using assms by simp_all
  have u: "round_up x g = y div g * g" by (simp add: round_up_def y_def)
  show "g dvd round_up x g" by (simp add: u)
  show "max 1 x \<le> round_up x g" "round_up x g < max 1 x + g" using e r unfolding u y_def by linarith+
qed

lemma io_chunk_share:
  assumes "1 \<le> t"
  shows "io_chunk_bytes (memory_budget_of_total t) * 8 \<le> max MIB (t div 8)"
    "1 \<le> io_chunk_bytes (memory_budget_of_total t)"
    "io_chunk_bytes (memory_budget_of_total t) * 8 \<le> max 8 (t div 8)"
proof -
  have io: "io_chunk_bytes (memory_budget_of_total t) = bounded_fraction t 64 MIB 1"
    by (simp only: memory_budget_of_total_def Let_def memory_budget.select_convs)
  have "bounded_fraction t 64 MIB 1 \<le> max 1 (t div 64)" unfolding bounded_fraction_def Let_def by linarith
  moreover have "t div 64 * 8 \<le> t div 8" using assms by linarith
  moreover have "8 \<le> MIB" by (simp add: MIB_def)
  ultimately show "io_chunk_bytes (memory_budget_of_total t) * 8 \<le> max MIB (t div 8)"
    "io_chunk_bytes (memory_budget_of_total t) * 8 \<le> max 8 (t div 8)" unfolding io by linarith+
  show "1 \<le> io_chunk_bytes (memory_budget_of_total t)"
    using bounded_fraction_range [OF assms, of MIB 1 64] by (simp add: io MIB_def)
qed


lemmas upload_consts = S3_MIN_PART_BYTES_def GCS_CHUNK_ALIGNMENT_def MAX_UPLOAD_PARTS_def MIB_def

lemma min_part_bounds: "8 \<le> provider_min_part_bytes provider" "1 \<le> provider_min_part_bytes provider"
  by (simp_all add: provider_min_part_bytes_def upload_consts)

definition body_share :: "string \<Rightarrow> int \<Rightarrow> int" where
  "body_share provider t = max (provider_min_part_bytes provider) (t div 8)"

lemma desired_part_bounds:
  assumes "1 \<le> t"
  shows "provider_min_part_bytes provider \<le> desired_part provider n (memory_budget_of_total t)"
    "provider = ''gcs'' \<Longrightarrow> GCS_CHUNK_ALIGNMENT dvd desired_part provider n (memory_budget_of_total t)
       \<and> desired_part provider n (memory_budget_of_total t) < body_share provider t + GCS_CHUNK_ALIGNMENT"
    "provider = ''s3'' \<Longrightarrow> n \<le> MAX_UPLOAD_PARTS * desired_part provider n (memory_budget_of_total t)"
    "provider = ''s3'' \<Longrightarrow> n \<le> MAX_UPLOAD_PARTS * body_share provider t \<Longrightarrow>
       desired_part provider n (memory_budget_of_total t) < body_share provider t + MIB"
    "provider \<notin> {''s3'', ''gcs''} \<Longrightarrow> desired_part provider n (memory_budget_of_total t) \<le> body_share provider t"
proof -
  define d where "d = max (provider_min_part_bytes provider) (io_chunk_bytes (memory_budget_of_total t) * 8)"
  have d: "provider_min_part_bytes provider \<le> d" "d \<le> body_share provider t" "1 \<le> d"
    using io_chunk_share(3) [OF assms] min_part_bounds [of provider] unfolding d_def body_share_def by linarith+
  have A: "0 < GCS_CHUNK_ALIGNMENT" and M: "0 < MIB" and X: "0 < MAX_UPLOAD_PARTS" by (simp_all add: upload_consts)
  note g = round_up_bounds [OF A, of d] and c = ceil_div_bounds [OF X, of "max 1 n"]
    and m = round_up_bounds [OF M, of "ceil_div (max 1 n) MAX_UPLOAD_PARTS"]
  let ?D = "desired_part provider n (memory_budget_of_total t)"
  have D: "?D = (if provider = ''gcs'' then round_up d GCS_CHUNK_ALIGNMENT
      else if provider = ''s3'' then max d (round_up (ceil_div (max 1 n) MAX_UPLOAD_PARTS) MIB) else d)"
    by (simp add: desired_part_def d_def Let_def)
  show "provider_min_part_bytes provider \<le> ?D" using d g(2) unfolding D by auto
  show "provider = ''gcs'' \<Longrightarrow> GCS_CHUNK_ALIGNMENT dvd ?D \<and> ?D < body_share provider t + GCS_CHUNK_ALIGNMENT"
    using d g unfolding D by auto
  show "provider \<notin> {''s3'', ''gcs''} \<Longrightarrow> ?D \<le> body_share provider t" using d unfolding D by auto
  assume s3: "provider = ''s3''"
  then have S: "?D = max d (round_up (ceil_div (max 1 n) MAX_UPLOAD_PARTS) MIB)" unfolding D by auto
  have "ceil_div (max 1 n) MAX_UPLOAD_PARTS \<le> ?D" using m(2) unfolding S by linarith
  then have "ceil_div (max 1 n) MAX_UPLOAD_PARTS * MAX_UPLOAD_PARTS \<le> ?D * MAX_UPLOAD_PARTS"
    using X by (intro mult_right_mono) auto
  then show "n \<le> MAX_UPLOAD_PARTS * ?D" using c(1) by (simp add: mult.commute)
  assume le: "n \<le> MAX_UPLOAD_PARTS * body_share provider t"
  have "max 1 n \<le> body_share provider t * MAX_UPLOAD_PARTS"
    using le d by (simp add: mult.commute upload_consts)
  then have "ceil_div (max 1 n) MAX_UPLOAD_PARTS \<le> body_share provider t" by (rule ceil_div_le [OF X])
  then show "?D < body_share provider t + MIB" using m(3) d M unfolding S by linarith
qed

lemma upload_policyE:
  assumes "remote_upload_policy rt provider (Inr n) limit mode = Inr p"
  obtains t policy where "normalize_memory_limit (rt_host rt) limit = Inr t" "1 \<le> t" "t \<le> 64 * GIB"
    "p = upload_policy_of provider n policy (memory_budget_of_total t)"
proof -
  obtain t where t: "normalize_memory_limit (rt_host rt) limit = Inr t"
    using assms by (cases "normalize_memory_limit (rt_host rt) limit")
      (auto simp: remote_upload_policy_def python_execution_policy_def)
  note r = normalize_limit_range [OF t]
  have b: "budget_from_limit (rt_host rt) limit = Inr (memory_budget_of_total t)"
    using r by (simp add: budget_from_limit_def t memory_budget_from_limit_def normalize_memory_limit_bytes_def
        kHardMaxMemoryLimitBytes_def)
  obtain policy spool where "python_execution_policy rt mode limit None = Inr (policy, spool)"
    using assms by (cases "python_execution_policy rt mode limit None") (auto simp: remote_upload_policy_def)
  then have "p = upload_policy_of provider n policy (memory_budget_of_total t)"
    using assms b by (simp add: remote_upload_policy_def)
  then show thesis using that t r by blast
qed


lemma upload_policy_fields:
  fixes b :: memory_budget and provider :: string and n :: int
  defines "D \<equiv> desired_part provider n b"
  shows "up_part_bytes (upload_policy_of provider n policy b) = D"
    "up_file_size (upload_policy_of provider n policy b) = n"
    "up_buffered_bytes (upload_policy_of provider n policy b) = D * up_concurrency (upload_policy_of provider n policy b)"
    "1 \<le> up_concurrency (upload_policy_of provider n policy b)"
    "up_concurrency (upload_policy_of provider n policy b) \<le> max 1 (body_share provider (total_bytes b) div D)"
    "up_part_count (upload_policy_of provider n policy b)
       = (if up_multipart (upload_policy_of provider n policy b) then max 1 (ceil_div (max 1 n) D) else 1)"
    "up_multipart (upload_policy_of provider n policy b) \<Longrightarrow> 16 * MIB \<le> n"
proof -
  have le: "max 1 (if x then 1 else if y then 1 else min a (max 1 m)) \<le> max 1 m" for x y and a m :: int by auto
  show "up_part_bytes (upload_policy_of provider n policy b) = D"
    "up_file_size (upload_policy_of provider n policy b) = n"
    "up_buffered_bytes (upload_policy_of provider n policy b) = D * up_concurrency (upload_policy_of provider n policy b)"
    "1 \<le> up_concurrency (upload_policy_of provider n policy b)"
    "up_concurrency (upload_policy_of provider n policy b) \<le> max 1 (body_share provider (total_bytes b) div D)"
    "up_part_count (upload_policy_of provider n policy b)
       = (if up_multipart (upload_policy_of provider n policy b) then max 1 (ceil_div (max 1 n) D) else 1)"
    by (simp_all only: upload_policy_of_def Let_def upload_policy.select_convs D_def [symmetric] body_share_def le
        max.cobounded1)
  assume "up_multipart (upload_policy_of provider n policy b)"
  then have "n \<ge> max (D * 2) (16 * MIB)"
    by (simp only: upload_policy_of_def Let_def upload_policy.select_convs D_def [symmetric])
  then show "16 * MIB \<le> n" by linarith
qed

lemma remote_upload_policy_returns:
  assumes "normalize_memory_limit (rt_host rt) limit = Inr t"
  shows "\<exists>p. remote_upload_policy rt provider (Inr n) limit mode = Inr p"
  using assms by (simp add: remote_upload_policy_def python_execution_policy_def budget_from_limit_def Let_def)

section \<open>Properties\<close>



lemma limit_64: "normalize_memory_limit (rt_host idle_runtime) (Limit (64 * MIB)) = Inr (64 * MIB)"
  by (simp add: normalize_memory_limit_def MAX_MEMORY_LIMIT_BYTES_def MIB_def)


lemma concat_chunks: "concat (map (\<lambda>i. take k (drop (i * k) xs)) [0..<m]) = take (m * k) xs"
proof (induction m)
  case (Suc m)
  then show ?case by (simp add: take_add [symmetric] add.commute)
qed simp

lemma read_range_ok:
  assumes "fst (read_upload_range env content offset len n) = Inr ys"
  shows "ys = take (nat len) (drop (nat offset) content)" "int (length ys) = len" "0 \<le> offset"
proof -
  have g: "\<not> (offset < 0 \<or> len < 0 \<or> offset + len > n)"
    using assms by (auto simp: read_upload_range_def)
  then obtain leased where a: "re_acquire env (len * 2 + 256) = Inr leased"
    using assms by (cases "re_acquire env (len * 2 + 256)") (auto simp: read_upload_range_def)
  let ?p = "take (nat len) (drop (nat offset) content)"
  have "int (length ?p) = len \<and> ys = ?p"
    using assms g a by (cases leased) (auto simp: read_upload_range_def Let_def ok_iff split: if_splits)
  then show "ys = ?p" "int (length ys) = len" "0 \<le> offset" using g by auto
qed

lemma read_range_leases:
  "snd (read_upload_range env content offset len n)
     \<le> (if is_ok (fst (read_upload_range env content offset len n)) then 1 else 0)"
proof (cases "offset < 0 \<or> len < 0 \<or> offset + len > n")
  case False
  show ?thesis
  proof (cases "re_acquire env (len * 2 + 256)")
    case (Inr leased)
    have le: "(if leased \<and> is_ok b then 1 else 0) \<le> (if is_ok b then 1 else (0 :: nat))" for b :: "'a list result" by simp
    show ?thesis by (simp only: read_upload_range_def False Inr Let_def if_False sum.case fst_conv snd_conv le)
  qed (simp only: read_upload_range_def False if_False sum.case snd_conv zero_le)
qed (simp only: read_upload_range_def if_True snd_conv zero_le)

lemma read_part_ok:
  assumes "fst (read_upload_part env content (int i) part (int (length content))) = Inr ys" "1 \<le> part"
  shows "ys = take (nat part) (drop (i * nat part) content)"
proof -
  define k where "k = nat part"
  have part: "part = int k" using assms(2) by (simp add: k_def)
  show ?thesis
  proof (cases "int i * part \<ge> int (length content)")
    case True
    then have "length content \<le> i * k" unfolding part by (metis of_nat_le_iff of_nat_mult)
    then show ?thesis using assms(1) True by (simp add: read_upload_part_def Let_def k_def [symmetric])
  next
    case False
    then have ys: "ys = take (nat (min part (int (length content) - int i * part))) (drop (nat (int i * part)) content)"
      using read_range_ok(1) assms(1) by (auto simp: read_upload_part_def Let_def)
    have j: "int i * part = int (i * k)" by (simp add: part)
    have "nat (min (int k) (int (length content) - int j)) = min k (length content - j)" for j
      by linarith
    then have "nat (min part (int (length content) - int i * part)) = min k (length content - i * k)"
      unfolding j unfolding part by blast
    moreover have "nat (int i * part) = i * k" unfolding j by (rule nat_int)
    ultimately show ?thesis using ys by (simp add: k_def [symmetric] min_def)
  qed
qed


text \<open>
  C23: the parts of a multipart upload are the file.  Whatever memory is granted
  along the way, if every part of the policy can be read, the parts concatenated in
  order are the whole file, all but the last of them full.
\<close>

theorem parts_reassemble:
  assumes "remote_upload_policy rt provider (Inr (int (length content))) limit mode = Inr p" "up_multipart p"
    "rmap (\<lambda>i. fst (read_upload_part env content (int i) (up_part_bytes p) (up_file_size p))) [0..<nat (up_part_count p)]
       = Inr chunks"
  shows "concat chunks = content \<and> length chunks = nat (up_part_count p)
    \<and> (\<forall>i. Suc i < length chunks \<longrightarrow> int (length (chunks ! i)) = up_part_bytes p)"
proof -
  obtain t policy where t: "1 \<le> t" "p = upload_policy_of provider (int (length content)) policy (memory_budget_of_total t)"
    by (rule upload_policyE [OF assms(1)])
  define D where "D = up_part_bytes p"
  define k where "k = nat D"
  define m where "m = nat (up_part_count p)"
  note f = upload_policy_fields [where provider = provider and n = "int (length content)"
      and b = "memory_budget_of_total t" and policy = policy, folded t(2)]
  have D: "1 \<le> D"
    using desired_part_bounds(1) [OF t(1), of provider "int (length content)"] min_part_bounds(2) [of provider]
    by (simp add: D_def f(1))
  have n: "16 * MIB \<le> int (length content)" by (rule f(7) [OF assms(2)])
  have pc: "up_part_count p = max 1 (ceil_div (int (length content)) D)"
    using f(6) assms(2) n by (simp add: D_def f(1) MIB_def max_def)
  note cd = ceil_div_bounds [of D "int (length content)"]
  have "int (length content) \<le> up_part_count p * D" "(up_part_count p - 1) * D < int (length content)"
    using cd D n by (auto simp: pc MIB_def max_def intro: order_trans)
  moreover have "up_part_count p = int m" "D = int k" "up_part_count p - 1 = int (m - 1)"
    using D pc by (simp_all add: m_def k_def)
  ultimately have "int (length content) \<le> int (m * k)" "int ((m - 1) * k) < int (length content)"
    by (simp_all only: of_nat_mult)
  then have cover: "length content \<le> m * k" "(m - 1) * k < length content" by linarith+
  have rd: "length chunks = m"
    "\<And>i. i < m \<Longrightarrow> fst (read_upload_part env content (int i) D (int (length content))) = Inr (chunks ! i)"
    using assms(3) by (auto simp: rmap_eq_Inr m_def D_def f(2))
  then have ch: "length chunks = m" "\<And>i. i < m \<Longrightarrow> chunks ! i = take k (drop (i * k) content)"
    using read_part_ok [OF rd(2) D] by (simp_all add: k_def)
  have "chunks = map (\<lambda>i. take k (drop (i * k) content)) [0..<m]" using ch by (intro nth_equalityI) auto
  then have "concat chunks = content" using concat_chunks [of k content m] cover(1) by simp
  moreover have "int (length (chunks ! i)) = D" if "Suc i < m" for i
  proof -
    have "Suc i * k \<le> (m - 1) * k" using that by (intro mult_le_mono1) simp
    then show ?thesis using ch(2) [of i] that cover(2) D by (simp add: k_def [symmetric]) (simp add: k_def)
  qed
  ultimately show ?thesis using ch(1) by (simp add: m_def D_def)
qed


definition granting_env :: read_env where
  "granting_env = \<lparr>re_acquire = (\<lambda>_. Inr True), re_open = Inr (), re_retain = Inr (), re_resize = Inr ()\<rparr>"

lemma granting_part:
  assumes "0 \<le> i" "1 \<le> part"
  shows "\<exists>ys. fst (read_upload_part granting_env content i part (int (length content))) = Inr ys"
proof (cases "i * part \<ge> int (length content)")
  case False
  define len where "len = min part (int (length content) - i * part)"
  have o: "0 \<le> i * part" using assms by simp
  have "int (length (take (nat len) (drop (nat (i * part)) content))) = len"
    using assms(2) False o by (simp add: len_def nat_le_iff)
  then show ?thesis
    using False o assms(2)
    by (simp add: read_upload_part_def read_upload_range_def granting_env_def Let_def len_def [symmetric])
qed (simp add: read_upload_part_def)

theorem parts_reassemble_witness:
  "\<exists>(content :: bool list) p chunks.
     remote_upload_policy idle_runtime ''s3'' (Inr (int (length content))) (Limit (64 * MIB)) Single = Inr p
     \<and> length content = 33554432 \<and> concat chunks = content \<and> length chunks = nat (up_part_count p)"
proof -
  obtain content :: "bool list" where len: "length content = 33554432"
    using length_replicate [of 33554432 True] by blast
  obtain p where p: "remote_upload_policy idle_runtime ''s3'' (Inr (int (length content))) (Limit (64 * MIB)) Single = Inr p"
    using remote_upload_policy_returns [OF limit_64] by blast
  obtain policy where q: "p = upload_policy_of ''s3'' (int (length content)) policy (memory_budget_of_total (64 * MIB))"
    using upload_policyE [OF p] limit_64 by (metis sum.inject(2))
  have io: "io_chunk_bytes (memory_budget_of_total (64 * MIB)) = MIB"
    by (simp only: memory_budget_of_total_def Let_def memory_budget.select_convs) (simp add: bounded_fraction_def MIB_def)
  have d: "desired_part ''s3'' (int (length content)) (memory_budget_of_total (64 * MIB)) = 8 * MIB"
    unfolding len desired_part_def io by (simp add: provider_min_part_bytes_def round_up_def ceil_div_def upload_consts)
  have m: "up_multipart p"
    unfolding q len upload_policy_of_def Let_def d [unfolded len]
    by (simp only: upload_policy.select_convs) (simp add: MIB_def ceil_div_def)
  have f: "up_part_bytes p = 8 * MIB" "up_file_size p = int (length content)"
    using upload_policy_fields(1,2) d by (simp_all add: q)
  have "\<exists>chunks. rmap (\<lambda>i. fst (read_upload_part granting_env content (int i) (up_part_bytes p) (up_file_size p)))
      [0..<nat (up_part_count p)] = Inr chunks"
  proof -
    have "\<forall>i. \<exists>ys. fst (read_upload_part granting_env content (int i) (8 * MIB) (int (length content))) = Inr ys"
      using granting_part [where content = content and part = "8 * MIB"] by (simp add: MIB_def)
    then obtain c where "\<And>i. fst (read_upload_part granting_env content (int i) (8 * MIB) (int (length content))) = Inr (c i)"
      by metis
    then show ?thesis unfolding f by (intro exI [of _ "map c [0..<nat (up_part_count p)]"]) (simp add: rmap_eq_Inr)
  qed
  then show ?thesis using parts_reassemble [OF p m] p len by blast
qed

end
