(* ===== verification/Gcs_Upload.thy ===== *)
theory Gcs_Upload
  imports Upload_Policy
begin

text \<open>
  Model of the resumable publication of a local file to Google Cloud Storage, in
  its blocking form (\<^verbatim>\<open>remote_impl/gcs_sync_resumable.py\<close> with
  \<^verbatim>\<open>core_impl/sync_retry.py\<close>) and its asynchronous form
  (\<^verbatim>\<open>remote_impl/gcs_resumable.py\<close> with \<^verbatim>\<open>retry_async\<close>).  The two forms
  share their structure; a flag \<open>blocking\<close> selects where they differ.  The storage
  service, the local file, cancellation, the admission of requests and the memory
  for parts are an environment that may answer differently at every observation,
  which a counter numbers.  The delays between attempts are checkpoints for
  cancellation; the outcome the throttle records is not part of the state.
\<close>

section \<open>Requests and errors\<close>

datatype 'b request =
    Initiate int
  | Query string int
  | Put string int "'b list" int
  | Cancel string

text \<open>An exception of the transport: retryable, another exception, or one that is not an \<open>Exception\<close>.\<close>

datatype fault = Retryable_Fault | Fatal_Fault | Base_Fault

datatype reply = Reply response | Broken fault

datatype uerr = Py pyerr | Transport fault | Http_Status int | Cancelled

definition transient_status :: "int \<Rightarrow> bool" where
  "transient_status n \<longleftrightarrow> n = 429 \<or> (500 \<le> n \<and> n \<le> 599)"

fun retryable :: "bool \<Rightarrow> uerr \<Rightarrow> bool" where
  "retryable blocking (Py (TransientGcsUploadError _)) = True"
| "retryable blocking (Py (OSError _)) = True"
| "retryable blocking (Py (TimeoutError _)) = True"
| "retryable blocking (Py _) = False"
| "retryable blocking (Transport f) = (f = Retryable_Fault)"
| "retryable blocking (Http_Status n) = (blocking \<and> (n = 408 \<or> n = 425 \<or> transient_status n))"
| "retryable blocking Cancelled = False"

record ('b, 's) up_env =
  ue_serve :: "'b request \<Rightarrow> 's \<Rightarrow> reply \<times> 's"
  ue_file :: "nat \<Rightarrow> ('b list \<times> int) option"
  ue_cancelled :: "nat \<Rightarrow> bool"
  ue_admit :: "nat \<Rightarrow> uerr option"
  ue_read :: "nat \<Rightarrow> read_env"

record 's up_world =
  uw_tick :: nat
  uw_server :: 's
  uw_leases :: nat

type_synonym ('s, 'a) step = "'s up_world \<Rightarrow> (uerr + 'a) \<times> 's up_world"

definition sret :: "'a \<Rightarrow> ('s, 'a) step" where
  "sret x w = (Inr x, w)"

definition sraise :: "pyerr \<Rightarrow> ('s, 'a) step" where
  "sraise e w = (Inl (Py e), w)"

definition sbind :: "('s, 'a) step \<Rightarrow> ('a \<Rightarrow> ('s, 'b) step) \<Rightarrow> ('s, 'b) step" where
  "sbind m f w = (case m w of (Inl e, w1) \<Rightarrow> (Inl e, w1) | (Inr x, w1) \<Rightarrow> f x w1)"

definition sresult :: "'a result \<Rightarrow> ('s, 'a) step" where
  "sresult r w = ((case r of Inl e \<Rightarrow> Inl (Py e) | Inr x \<Rightarrow> Inr x), w)"

definition tick :: "'s up_world \<Rightarrow> 's up_world" where
  "tick w = w\<lparr>uw_tick := Suc (uw_tick w)\<rparr>"

section \<open>Observations\<close>

definition checkpoint :: "('b, 's) up_env \<Rightarrow> ('s, unit) step" where
  "checkpoint env w = (if ue_cancelled env (uw_tick w) then Inl Cancelled else Inr (), tick w)"

definition admit :: "('b, 's) up_env \<Rightarrow> ('s, unit) step" where
  "admit env w = (case ue_admit env (uw_tick w) of None \<Rightarrow> Inr () | Some e \<Rightarrow> Inl e, tick w)"

definition call :: "('b, 's) up_env \<Rightarrow> 'b request \<Rightarrow> ('s, response) step" where
  "call env q w =
     (case ue_serve env q (uw_server w) of
        (r, s) \<Rightarrow> (case r of Reply x \<Rightarrow> Inr x | Broken f \<Rightarrow> Inl (Transport f), w\<lparr>uw_server := s\<rparr>))"

definition stat :: "('b, 's) up_env \<Rightarrow> ('s, int \<times> int) step" where
  "stat env w =
     (case ue_file env (uw_tick w) of
        None \<Rightarrow> Inl (Py (OSError ''no such file''))
      | Some (content, mtime) \<Rightarrow> Inr (int (length content), mtime), tick w)"

definition read_range :: "('b, 's) up_env \<Rightarrow> int \<Rightarrow> int \<Rightarrow> int \<Rightarrow> ('s, 'b list) step" where
  "read_range env offset len n w =
     (case (case ue_file env (uw_tick w) of
              None \<Rightarrow> read_upload_range ((ue_read env (uw_tick w))\<lparr>re_open := Inl (OSError ''no such file'')\<rparr>) [] offset len n
            | Some (content, _) \<Rightarrow> read_upload_range (ue_read env (uw_tick w)) content offset len n) of
        (r, leases) \<Rightarrow> sresult r ((tick w)\<lparr>uw_leases := uw_leases w + leases\<rparr>))"

definition release_payload :: "nat \<Rightarrow> 's up_world \<Rightarrow> 's up_world" where
  "release_payload leases w = w\<lparr>uw_leases := leases\<rparr>"

section \<open>Retries\<close>

definition retry_step ::
  "('b, 's) up_env \<Rightarrow> bool \<Rightarrow> ('s, 'a) step \<Rightarrow> ('s, 'a) step option \<Rightarrow> ('s, 'a) step" where
  "retry_step env blocking operation again =
     sbind (checkpoint env) (\<lambda>_ w.
       case sbind (admit env) (\<lambda>_. operation) w of
         (Inl e, w1) \<Rightarrow>
           (case again of
              None \<Rightarrow> (Inl e, w1)
            | Some k \<Rightarrow> if \<not> retryable blocking e then (Inl e, w1) else sbind (checkpoint env) (\<lambda>_. k) w1)
       | (Inr x, w1) \<Rightarrow> if blocking then sbind (checkpoint env) (\<lambda>_. sret x) w1 else (Inr x, w1))"

primrec retry_loop :: "('b, 's) up_env \<Rightarrow> bool \<Rightarrow> ('s, 'a) step \<Rightarrow> nat \<Rightarrow> ('s, 'a) step" where
  "retry_loop env blocking operation 0 = retry_step env blocking operation None"
| "retry_loop env blocking operation (Suc n) =
     retry_step env blocking operation (Some (retry_loop env blocking operation n))"

definition retry :: "('b, 's) up_env \<Rightarrow> bool \<Rightarrow> ('s, 'a) step \<Rightarrow> nat \<Rightarrow> ('s, 'a) step" where
  "retry env blocking operation retries = retry_loop env blocking operation (min retries 32)"

section \<open>One range\<close>

definition query :: "('b, 's) up_env \<Rightarrow> string \<Rightarrow> int \<Rightarrow> ('s, int) step" where
  "query env url whole =
     sbind (call env (Query url whole)) (\<lambda>r. sresult (gcs_resumable_next_offset r whole None None))"

definition send_range :: "('b, 's) up_env \<Rightarrow> string \<Rightarrow> int \<Rightarrow> 'b list \<Rightarrow> int \<Rightarrow> ('s, int) step" where
  "send_range env url first payload whole =
     sbind (call env (Put url first payload whole)) (\<lambda>r.
       sresult (gcs_resumable_next_offset r whole (Some first) (Some (first + int (length payload) - 1))))"

text \<open>The asynchronous form waits before the next attempt, the blocking one does not.\<close>

definition pause :: "('b, 's) up_env \<Rightarrow> bool \<Rightarrow> ('s, 'a) step \<Rightarrow> ('s, 'a) step" where
  "pause env blocking k = (if blocking then k else sbind (checkpoint env) (\<lambda>_. k))"

definition reconcile_step ::
  "('b, 's) up_env \<Rightarrow> bool \<Rightarrow> string \<Rightarrow> int \<Rightarrow> 'b list \<Rightarrow> int \<Rightarrow> nat \<Rightarrow> ('s, int) step option \<Rightarrow> ('s, int) step" where
  "reconcile_step env blocking url first payload whole remaining again w =
     (case send_range env url first payload whole w of
        (Inr next_offset, w1) \<Rightarrow>
          if next_offset > first then (Inr next_offset, w1)
          else (case again of
                  None \<Rightarrow> (Inl (Py (RuntimeError ''GCS resumable upload made no forward progress'')), w1)
                | Some k \<Rightarrow> pause env blocking k w1)
      | (Inl e, w1) \<Rightarrow>
          (case again of
             None \<Rightarrow> (Inl e, w1)
           | Some k \<Rightarrow>
               if \<not> retryable blocking e then (Inl e, w1)
               else (case retry env blocking (query env url whole) remaining w1 of
                       (Inr next_offset, w2) \<Rightarrow>
                         if next_offset > first then (Inr next_offset, w2) else pause env blocking k w2
                     | (Inl e1, w2) \<Rightarrow>
                         if blocking \<or> e1 = Transport Base_Fault then (Inl e1, w2) else pause env blocking k w2)))"

primrec send_with_reconciliation ::
  "('b, 's) up_env \<Rightarrow> bool \<Rightarrow> string \<Rightarrow> int \<Rightarrow> 'b list \<Rightarrow> int \<Rightarrow> nat \<Rightarrow> ('s, int) step" where
  "send_with_reconciliation env blocking url first payload whole 0 =
     reconcile_step env blocking url first payload whole 0 None"
| "send_with_reconciliation env blocking url first payload whole (Suc n) =
     reconcile_step env blocking url first payload whole (Suc n)
       (Some (send_with_reconciliation env blocking url first payload whole n))"

definition send_chunk ::
  "('b, 's) up_env \<Rightarrow> bool \<Rightarrow> string \<Rightarrow> nat \<Rightarrow> int \<Rightarrow> int \<Rightarrow> int \<Rightarrow> ('s, int) step" where
  "send_chunk env blocking url retries part whole offset w =
     (case read_range env offset (min part (whole - offset)) whole w of
        (Inl e, w1) \<Rightarrow> (Inl e, w1)
      | (Inr payload, w1) \<Rightarrow>
          (case send_with_reconciliation env blocking url offset payload whole retries w1 of
             (r, w2) \<Rightarrow> (r, release_payload (uw_leases w) w2)))"

section \<open>The upload\<close>

function upload_loop ::
  "('b, 's) up_env \<Rightarrow> bool \<Rightarrow> string \<Rightarrow> nat \<Rightarrow> int \<Rightarrow> int \<Rightarrow> int \<times> int \<Rightarrow> int \<Rightarrow> ('s, unit) step" where
  "upload_loop env blocking url retries part whole initial offset w =
     (if \<not> offset < whole then (Inr (), w)
      else case stat env w of
             (Inl e, w1) \<Rightarrow> (Inl e, w1)
           | (Inr current, w1) \<Rightarrow>
               if current \<noteq> initial
               then (Inl (Py (OSError ''remote upload spool changed before GCS resumable commit'')), w1)
               else case send_chunk env blocking url retries part whole offset w1 of
                      (Inl e, w2) \<Rightarrow> (Inl e, w2)
                    | (Inr next_offset, w2) \<Rightarrow>
                        if next_offset \<le> offset
                        then (Inl (Py (RuntimeError ''GCS resumable upload made no forward progress'')), w2)
                        else upload_loop env blocking url retries part whole initial next_offset w2)"
  by pat_completeness auto
termination
  by (relation "measure (\<lambda>(env, blocking, url, retries, part, whole, initial, offset, w). nat (whole - offset))") auto

declare upload_loop.simps [simp del]

definition initiate :: "('b, 's) up_env \<Rightarrow> bool \<Rightarrow> int \<Rightarrow> ('s, string) step" where
  "initiate env blocking n =
     sbind (call env (Initiate n)) (\<lambda>r.
       if rs_status r = 200 \<or> rs_status r = 201
       then (case (if blocking then header_or (rs_headers r) ''Location'' ''location'' else map_of (rs_headers r) ''Location'') of
               Some (c # s) \<Rightarrow> sret (c # s)
             | _ \<Rightarrow> sraise (RuntimeError ''GCS resumable initiation returned no session location''))
       else if transient_status (rs_status r) then sraise (TransientGcsUploadError ''GCS resumable initiation failed'')
       else if blocking then (\<lambda>w. (Inl (Http_Status (rs_status r)), w))
       else sraise (RuntimeError ''GCS resumable initiation failed''))"

definition or_abort :: "('b, 's) up_env \<Rightarrow> string \<Rightarrow> ('s, 'a) step \<Rightarrow> ('s, 'a) step" where
  "or_abort env url body w =
     (case body w of
        (Inr x, w1) \<Rightarrow> (Inr x, w1)
      | (Inl e, w1) \<Rightarrow> (Inl e, snd (call env (Cancel url) w1)))"

definition final_check :: "('b, 's) up_env \<Rightarrow> bool \<Rightarrow> int \<times> int \<Rightarrow> int \<Rightarrow> ('s, unit) step" where
  "final_check env blocking initial n =
     sbind (stat env) (\<lambda>final.
       if (if blocking then final \<noteq> initial else fst final \<noteq> n)
       then sraise (OSError ''remote upload spool changed before GCS publication completed'') else sret ())"

definition upload_gcs_resumable_file ::
  "('b, 's) up_env \<Rightarrow> bool \<Rightarrow> runtime \<Rightarrow> limit_option \<Rightarrow> threading_mode \<Rightarrow> ('s, string) step" where
  "upload_gcs_resumable_file env blocking rt limit mode =
     sbind (stat env) (\<lambda>found.
     sbind (sresult (remote_upload_policy rt ''gcs'' (Inr (fst found)) limit (if blocking then Single else mode))) (\<lambda>tuning.
     sbind (sresult (budget_from_limit (rt_host rt) limit)) (\<lambda>budget.
     let retries = nat (async_retries budget); n = up_file_size tuning in
     sbind (stat env) (\<lambda>initial.
     sbind (retry env blocking (initiate env blocking n) retries) (\<lambda>url.
     sbind (or_abort env url (upload_loop env blocking url retries (up_part_bytes tuning) n initial 0)) (\<lambda>_.
     sbind (final_check env blocking initial n) (\<lambda>_. sret url)))))))"


section \<open>What the service promises\<close>

text \<open>
  The documented behaviour of a resumable session: it keeps a prefix of the object,
  a range that starts within it extends it by some of the bytes beyond it, bytes it
  already has are ignored, status 308 reports the bytes it has in a Range header
  (none when it has none), and only a complete object is answered with 200 or 201.
  Failed requests may or may not have had their effect.
\<close>

definition reports :: "nat \<Rightarrow> int \<Rightarrow> reply \<Rightarrow> bool" where
  "reports len whole r \<longleftrightarrow>
     (case r of
        Broken _ \<Rightarrow> True
      | Reply x \<Rightarrow>
          (rs_status x = 308 \<longrightarrow> header_or (rs_headers x) ''Range'' ''range''
             = (if len = 0 then None else Some (''bytes=0-'' @ decimal (len - 1))))
          \<and> (rs_status x = 200 \<or> rs_status x = 201 \<longrightarrow> int len = whole))"

definition conforming :: "('b request \<Rightarrow> 's \<Rightarrow> reply \<times> 's) \<Rightarrow> (string \<Rightarrow> 's \<Rightarrow> 'b list) \<Rightarrow> bool" where
  "conforming serve persisted \<longleftrightarrow>
     (\<forall>n s x s' url. serve (Initiate n) s = (Reply x, s') \<longrightarrow> rs_status x = 200 \<or> rs_status x = 201 \<longrightarrow>
        header_or (rs_headers x) ''Location'' ''location'' = Some url \<longrightarrow> persisted url s' = [])
     \<and> (\<forall>url whole s r s'. serve (Query url whole) s = (r, s') \<longrightarrow>
          persisted url s' = persisted url s \<and> reports (length (persisted url s')) whole r)
     \<and> (\<forall>url first xs whole s r s'. serve (Put url first xs whole) s = (r, s') \<longrightarrow>
          reports (length (persisted url s')) whole r
          \<and> (0 \<le> first \<longrightarrow> first \<le> int (length (persisted url s)) \<longrightarrow>
              (\<exists>k. persisted url s' = persisted url s @ take k (drop (length (persisted url s) - nat first) xs))))"

text \<open>Every byte of \<open>ys\<close> is the byte of the file at its position, at one of the observations in between.\<close>

definition bytes_seen :: "('b, 's) up_env \<Rightarrow> nat \<Rightarrow> nat \<Rightarrow> 'b list \<Rightarrow> bool" where
  "bytes_seen env t0 t1 ys \<longleftrightarrow>
     (\<forall>i<length ys. \<exists>k c m. t0 \<le> k \<and> k < t1 \<and> ue_file env k = Some (c, m) \<and> i < length c \<and> ys ! i = c ! i)"

text \<open>Size and modification time identify the content: between two equal stamps nothing changed.\<close>

definition stamps_identify :: "(nat \<Rightarrow> ('b list \<times> int) option) \<Rightarrow> bool" where
  "stamps_identify file \<longleftrightarrow>
     (\<forall>i j k c d m. i \<le> k \<and> k \<le> j \<and> file i = Some (c, m) \<and> file j = Some (d, m) \<and> length c = length d
        \<longrightarrow> file k = Some (c, m))"

section \<open>Numbers in headers\<close>

lemma decimal_all_digits: "list_all isdigit (decimal n)"
proof (induction n rule: decimal.induct)
  case (1 n)
  then show ?case by (cases "n < 10") (simp_all add: decimal_small decimal_step)
qed

lemma decimal_not_Nil: "decimal n \<noteq> []"
  by (cases "n < 10") (simp_all add: decimal_small decimal_step)

lemma digits_append: "int_of_digits acc (s @ [c]) = 10 * int_of_digits acc s + digit_value c"
  by (induction acc s rule: int_of_digits.induct) simp_all

lemma digits_decimal: "int_of_digits 0 (decimal n) = n"
proof (induction n rule: decimal.induct)
  case (1 n)
  then show ?case by (cases "n < 10") (simp_all add: decimal_small decimal_step digits_append)
qed

lemma digit_groups_digits: "list_all isdigit s \<Longrightarrow> s \<noteq> [] \<Longrightarrow> digit_groups s = Some s"
proof (induction s rule: digit_groups.induct)
  case (3 c d s)
  have "d \<noteq> CHR ''_''" using 3(2) by (auto simp: isdigit_def)
  then show ?case using 3 by simp
qed simp_all

lemma decimal_length: "n < 10 ^ k \<Longrightarrow> 0 < k \<Longrightarrow> length (decimal n) \<le> k"
proof (induction n arbitrary: k rule: decimal.induct)
  case (1 n)
  show ?case
  proof (cases "n < 10")
    case False
    then obtain j where j: "k = Suc j" "0 < j" using "1.prems" by (cases k; cases "k - 1") auto
    then have "n div 10 < 10 ^ j" using "1.prems"(1) by (simp add: less_mult_imp_div_less mult.commute)
    then have "length (decimal (n div 10)) \<le> j" using 1(1) [OF False] j(2) by blast
    then show ?thesis using False j(1) by (simp add: decimal_step)
  qed (use "1.prems"(2) in \<open>simp add: decimal_small\<close>)
qed

lemma strip_digits: "list_all isdigit s \<Longrightarrow> strip s = s"
proof -
  have ns: "isdigit c \<Longrightarrow> \<not> isspace c" for c by (auto simp: isdigit_def isspace_def Let_def)
  have d: "list_all isdigit s \<Longrightarrow> dropWhile isspace s = s" for s by (cases s) (auto simp: ns)
  assume "list_all isdigit s"
  then show ?thesis using d [of s] d [of "rev s"] by (simp add: strip_def lstrip_def rstrip_def)
qed

lemma py_int_decimal:
  assumes "n < 2 ^ 64"
  shows "py_int (decimal n) = Some (int n)"
proof -
  note dg = decimal_all_digits [of n] decimal_not_Nil [of n]
  have "n < 10 ^ 20" using assms by simp
  then have l: "\<not> length (decimal n) > 4300" using decimal_length [of n 20] by simp
  obtain c s where cs: "decimal n = c # s" using dg(2) by (cases "decimal n") auto
  then have "c \<noteq> CHR ''-''" "c \<noteq> CHR ''+''" using dg(1) by (auto simp: isdigit_def)
  then show ?thesis
    using digit_groups_digits [OF dg] strip_digits [OF dg(1)] l digits_decimal [of n]
    by (simp add: py_int_def digits_int_def cs)
qed


section \<open>Reasoning about steps\<close>

definition ensures ::
  "('s up_world \<Rightarrow> bool) \<Rightarrow> ('s, 'a) step \<Rightarrow> ('a \<Rightarrow> 's up_world \<Rightarrow> bool) \<Rightarrow> ('s up_world \<Rightarrow> bool) \<Rightarrow> bool" where
  "ensures P m Q E \<longleftrightarrow>
     (\<forall>w r w'. P w \<longrightarrow> m w = (r, w') \<longrightarrow> (case r of Inl e \<Rightarrow> E w' | Inr x \<Rightarrow> Q x w'))"

lemma ensuresI:
  assumes "\<And>w e w'. P w \<Longrightarrow> m w = (Inl e, w') \<Longrightarrow> E w'" "\<And>w x w'. P w \<Longrightarrow> m w = (Inr x, w') \<Longrightarrow> Q x w'"
  shows "ensures P m Q E"
  using assms by (auto simp: ensures_def split: sum.split)

lemma ensuresD:
  assumes "ensures P m Q E" "P w"
  shows "m w = (Inl e, w') \<Longrightarrow> E w'" "m w = (Inr x, w') \<Longrightarrow> Q x w'"
  using assms unfolding ensures_def by fastforce+

lemma ensures_bind:
  assumes "ensures P m R E" "\<And>x. ensures (R x) (f x) Q E"
  shows "ensures P (sbind m f) Q E"
proof -
  have "(case r of Inl e \<Rightarrow> E w' | Inr x \<Rightarrow> Q x w')" if "P w" "sbind m f w = (r, w')" for w r w'
  proof (cases "m w")
    case (Pair a w1)
    then show ?thesis
      using that ensuresD [OF assms(1) that(1), of _ w1] assms(2) by (cases a) (auto simp: sbind_def ensures_def)
  qed
  then show ?thesis by (auto simp: ensures_def)
qed

lemma ensures_weaken:
  assumes "ensures P m Q E" "\<And>w. P' w \<Longrightarrow> P w" "\<And>x w. Q x w \<Longrightarrow> Q' x w" "\<And>w. E w \<Longrightarrow> E' w"
  shows "ensures P' m Q' E'"
  using assms unfolding ensures_def by (fastforce split: sum.splits)

lemma ensures_result: "ensures P (sresult r) (\<lambda>x w. P w \<and> r = Inr x) P"
  by (auto simp: ensures_def sresult_def split: sum.splits)

lemma ensures_ret: "ensures (Q x) (sret x) Q E"
  by (auto simp: ensures_def sret_def)

text \<open>Predicates that do not depend on the counter survive an observation.\<close>

definition stable_under_ticks :: "('s up_world \<Rightarrow> bool) \<Rightarrow> bool" where
  "stable_under_ticks P \<longleftrightarrow> (\<forall>w. P w \<longrightarrow> P (tick w))"

lemma ensures_checkpoint: "stable_under_ticks P \<Longrightarrow> ensures P (checkpoint env) (\<lambda>_. P) P"
  by (auto simp: ensures_def checkpoint_def stable_under_ticks_def)

lemma ensures_admit: "stable_under_ticks P \<Longrightarrow> ensures P (admit env) (\<lambda>_. P) P"
  by (auto simp: ensures_def admit_def stable_under_ticks_def split: option.splits)

lemma ensures_retry_step:
  assumes "stable_under_ticks P" "\<And>x. stable_under_ticks (Q x)" "ensures P operation Q P"
    "again = None \<or> ensures P (the again) Q P" "\<And>x w. Q x w \<Longrightarrow> P w"
  shows "ensures P (retry_step env blocking operation again) Q P"
  unfolding retry_step_def
proof (rule ensures_bind [OF ensures_checkpoint [OF assms(1)]])
  fix u
  note op = ensures_bind [OF ensures_admit [OF assms(1), of env], where f = "\<lambda>_. operation", OF assms(3)]
  note wait = ensures_checkpoint [OF assms(1), of env]
  show "ensures P (\<lambda>w. case sbind (admit env) (\<lambda>_. operation) w of
         (Inl e, w1) \<Rightarrow>
           (case again of
              None \<Rightarrow> (Inl e, w1)
            | Some k \<Rightarrow> if \<not> retryable blocking e then (Inl e, w1) else sbind (checkpoint env) (\<lambda>_. k) w1)
       | (Inr x, w1) \<Rightarrow> if blocking then sbind (checkpoint env) (\<lambda>_. sret x) w1 else (Inr x, w1)) Q P"
    (is "ensures P ?m Q P")
  proof -
    have "case r of Inl e \<Rightarrow> P w' | Inr x \<Rightarrow> Q x w'" if "P w" "?m w = (r, w')" for w r w'
    proof (cases "sbind (admit env) (\<lambda>_. operation) w")
      case (Pair a w1)
      show ?thesis
      proof (cases a)
        case (Inl e)
        then have P1: "P w1" using ensuresD(1) [OF op that(1)] Pair by simp
        show ?thesis
        proof (cases "again = None \<or> \<not> retryable blocking e")
          case True
          then show ?thesis using that(2) Pair Inl P1 by (auto split: option.splits)
        next
          case False
          then obtain k where k: "again = Some k" by auto
          then have "sbind (checkpoint env) (\<lambda>_. k) w1 = (r, w')" using that(2) Pair Inl False by simp
          then show ?thesis
            using ensures_bind [OF wait, where f = "\<lambda>_. k" and Q = Q] assms(4) k P1 by (auto simp: ensures_def)
        qed
      next
        case (Inr x)
        then have Q1: "Q x w1" using ensuresD(2) [OF op that(1)] Pair by simp
        then have "Q x (tick w1)" "P (tick w1)" using assms(2,5) by (auto simp: stable_under_ticks_def)
        then show ?thesis
          using that(2) Pair Inr Q1 by (auto simp: sbind_def checkpoint_def sret_def split: if_splits)
      qed
    qed
    then show ?thesis by (auto simp: ensures_def)
  qed
qed

lemma ensures_retry:
  assumes "stable_under_ticks P" "\<And>x. stable_under_ticks (Q x)" "ensures P operation Q P" "\<And>x w. Q x w \<Longrightarrow> P w"
  shows "ensures P (retry env blocking operation n) Q P"
proof -
  have st: "ensures P (retry_step env blocking operation again) Q P" if "again = None \<or> ensures P (the again) Q P" for again
    using assms(1-3) that assms(4) by (rule ensures_retry_step)
  have "ensures P (retry_loop env blocking operation k) Q P" for k
    by (induction k) (simp_all add: st)
  then show ?thesis by (simp add: retry_def)
qed


section \<open>One range on a conforming service\<close>

text \<open>The object of the session is the start \<open>A\<close> and some of the payload.\<close>

definition grown :: "'b list \<Rightarrow> 'b list \<Rightarrow> 'b list \<Rightarrow> bool" where
  "grown A payload ys \<longleftrightarrow> (\<exists>j. ys = A @ take j payload)"

definition sending :: "(string \<Rightarrow> 's \<Rightarrow> 'b list) \<Rightarrow> string \<Rightarrow> 'b list \<Rightarrow> 'b list \<Rightarrow> nat \<Rightarrow> nat \<Rightarrow> 's up_world \<Rightarrow> bool" where
  "sending persisted url A payload t l w \<longleftrightarrow>
     grown A payload (persisted url (uw_server w)) \<and> t \<le> uw_tick w \<and> uw_leases w = l"

definition has_bytes :: "(string \<Rightarrow> 's \<Rightarrow> 'b list) \<Rightarrow> string \<Rightarrow> int \<Rightarrow> 's up_world \<Rightarrow> bool" where
  "has_bytes persisted url n w \<longleftrightarrow> int (length (persisted url (uw_server w))) = n"

lemma sending_ticks:
  "stable_under_ticks (sending persisted url A payload t l)"
  "stable_under_ticks (\<lambda>w. sending persisted url A payload t l w \<and> has_bytes persisted url n w)"
  by (auto simp: stable_under_ticks_def sending_def has_bytes_def tick_def)

lemma grown_put:
  assumes "grown A payload ys"
  shows "grown A payload (ys @ take k (drop (length ys - length A) payload))"
proof -
  obtain j where j: "ys = A @ take j payload" using assms by (auto simp: grown_def)
  show ?thesis
  proof (cases "j \<le> length payload")
    case True
    then have "ys @ take k (drop (length ys - length A) payload) = A @ take (j + k) payload"
      using j by (simp add: take_add)
    then show ?thesis by (auto simp: grown_def)
  next
    case False
    then show ?thesis using j by (auto simp: grown_def intro: exI [of _ j])
  qed
qed

lemma next_offset_reported:
  assumes "reports len whole (Reply r)" "len < 2 ^ 64" "gcs_resumable_next_offset r whole a b = Inr n"
  shows "n = int len"
proof -
  consider "rs_status r = 200 \<or> rs_status r = 201" | "rs_status r = 308" using assms(3)
    by (auto simp: gcs_resumable_next_offset_def split: if_splits)
  then show ?thesis
  proof cases
    case 1
    then show ?thesis using assms(1,3) by (auto simp: reports_def gcs_resumable_next_offset_def split: if_splits)
  next
    case 2
    define e where "e = (case header_or (rs_headers r) ''Range'' ''range'' of
                    None \<Rightarrow> - 1
                  | Some raw \<Rightarrow>
                      if starts_with ''bytes=0-'' raw
                      then (case py_int (drop 8 raw) of None \<Rightarrow> - 1 | Some n \<Rightarrow> n) else - 1)"
    have "n = e + 1"
      using assms(3) 2 by (auto simp: gcs_resumable_next_offset_def e_def [symmetric] Let_def split: option.splits if_splits)
    moreover have "e = int len - 1"
    proof (cases len)
      case (Suc m)
      have "header_or (rs_headers r) ''Range'' ''range'' = Some (''bytes=0-'' @ decimal m)"
        using assms(1) 2 Suc by (simp add: reports_def)
      moreover have "py_int (decimal m) = Some (int m)" using assms(2) Suc by (intro py_int_decimal) simp
      ultimately show ?thesis using Suc by (simp add: e_def starts_with_def)
    qed (use assms(1) 2 in \<open>simp add: reports_def e_def\<close>)
    ultimately show ?thesis by simp
  qed
qed


lemma grown_length: "grown A payload ys \<Longrightarrow> length A + length payload < k \<Longrightarrow> length ys < k"
  by (auto simp: grown_def)

lemma query_step:
  assumes "conforming (ue_serve env) persisted" "length A + length payload < 2 ^ 64"
  shows "ensures (sending persisted url A payload t l) (query env url whole)
    (\<lambda>n w. sending persisted url A payload t l w \<and> has_bytes persisted url n w) (sending persisted url A payload t l)"
proof -
  have "(case r of Inl e \<Rightarrow> sending persisted url A payload t l w'
      | Inr n \<Rightarrow> sending persisted url A payload t l w' \<and> has_bytes persisted url n w')"
    if P: "sending persisted url A payload t l w" and r: "query env url whole w = (r, w')" for w r w'
  proof (cases "ue_serve env (Query url whole) (uw_server w)")
    case (Pair x s)
    have c: "persisted url s = persisted url (uw_server w)" "reports (length (persisted url s)) whole x"
      using assms(1) Pair unfolding conforming_def by blast+
    have w': "w' = w\<lparr>uw_server := s\<rparr>"
      using r Pair by (auto simp: query_def sbind_def call_def sresult_def split: reply.splits)
    have s': "sending persisted url A payload t l w'" using P c(1) by (simp add: sending_def w')
    moreover have "has_bytes persisted url n w'" if n: "r = Inr n" for n
    proof -
      obtain y where y: "x = Reply y" "gcs_resumable_next_offset y whole None None = Inr n"
        using r Pair n by (auto simp: query_def sbind_def call_def sresult_def split: reply.splits sum.splits)
      have "length (persisted url s) < 2 ^ 64" using P c(1) grown_length assms(2) by (auto simp: sending_def)
      then show ?thesis using next_offset_reported c(2) y by (auto simp: has_bytes_def w')
    qed
    ultimately show ?thesis by (auto split: sum.split)
  qed
  then show ?thesis by (auto simp: ensures_def)
qed

lemma send_step:
  assumes "conforming (ue_serve env) persisted" "length A + length payload < 2 ^ 64"
  shows "ensures (sending persisted url A payload t l) (send_range env url (int (length A)) payload whole)
    (\<lambda>n w. sending persisted url A payload t l w \<and> has_bytes persisted url n w) (sending persisted url A payload t l)"
proof -
  have "(case r of Inl e \<Rightarrow> sending persisted url A payload t l w'
      | Inr n \<Rightarrow> sending persisted url A payload t l w' \<and> has_bytes persisted url n w')"
    if P: "sending persisted url A payload t l w" and r: "send_range env url (int (length A)) payload whole w = (r, w')" for w r w'
  proof (cases "ue_serve env (Put url (int (length A)) payload whole) (uw_server w)")
    case (Pair x s)
    let ?y = "persisted url (uw_server w)"
    have g: "grown A payload ?y" using P by (simp add: sending_def)
    then have le: "int (length A) \<le> int (length ?y)" by (auto simp: grown_def)
    have c: "reports (length (persisted url s)) whole x"
      and "\<exists>k. persisted url s = ?y @ take k (drop (length ?y - nat (int (length A))) payload)"
      using assms(1) Pair le of_nat_0_le_iff unfolding conforming_def by blast+
    then have g': "grown A payload (persisted url s)" using grown_put [OF g] by auto
    have w': "w' = w\<lparr>uw_server := s\<rparr>"
      using r Pair by (auto simp: send_range_def sbind_def call_def sresult_def split: reply.splits)
    have s': "sending persisted url A payload t l w'" using P g' by (simp add: sending_def w')
    moreover have "has_bytes persisted url n w'" if n: "r = Inr n" for n
    proof -
      obtain y a b where y: "x = Reply y" "gcs_resumable_next_offset y whole a b = Inr n"
        using r Pair n by (auto simp: send_range_def sbind_def call_def sresult_def split: reply.splits sum.splits)
      have "length (persisted url s) < 2 ^ 64" by (rule grown_length [OF g' assms(2)])
      then show ?thesis using next_offset_reported c y by (auto simp: has_bytes_def w')
    qed
    ultimately show ?thesis by (auto split: sum.split)
  qed
  then show ?thesis by (auto simp: ensures_def)
qed

lemma ensures_pause:
  "stable_under_ticks P \<Longrightarrow> ensures P k Q P \<Longrightarrow> ensures P (pause env blocking k) Q P"
  by (auto simp: pause_def intro: ensures_bind ensures_checkpoint)

text \<open>A range either makes progress, and returns what the service has, or fails.\<close>

lemma reconcile_ensures:
  assumes "conforming (ue_serve env) persisted" "length A + length payload < 2 ^ 64"
  shows "ensures (sending persisted url A payload t l)
    (send_with_reconciliation env blocking url (int (length A)) payload whole n)
    (\<lambda>x w. sending persisted url A payload t l w \<and> has_bytes persisted url x w \<and> int (length A) < x)
    (sending persisted url A payload t l)"
proof -
  let ?P = "sending persisted url A payload t l"
  let ?Q = "\<lambda>x w. ?P w \<and> has_bytes persisted url x w \<and> int (length A) < x"
  note send = send_step [OF assms, of url t l whole]
  have qry: "ensures ?P (retry env blocking (query env url whole) m) (\<lambda>x w. ?P w \<and> has_bytes persisted url x w) ?P" for m
    by (rule ensures_retry [OF sending_ticks(1) sending_ticks(2) query_step [OF assms]]) blast
  have step: "ensures ?P (reconcile_step env blocking url (int (length A)) payload whole m again) ?Q ?P"
    if ag: "again = None \<or> ensures ?P (the again) ?Q ?P" for m again
  proof -
    have pz: "ensures ?P (pause env blocking k) ?Q ?P" if "again = Some k" for k
      using ag that by (intro ensures_pause sending_ticks) simp
    have "(case r of Inl e \<Rightarrow> ?P w' | Inr x \<Rightarrow> ?Q x w')"
      if P: "?P w" and r: "reconcile_step env blocking url (int (length A)) payload whole m again w = (r, w')" for w r w'
    proof (cases "send_range env url (int (length A)) payload whole w")
      case (Pair a w1)
      show ?thesis
      proof (cases a)
        case (Inr x)
        then have "?P w1" "has_bytes persisted url x w1" using ensuresD(2) [OF send P] Pair by auto
        then show ?thesis
          using r Pair Inr pz by (auto simp: reconcile_step_def ensures_def split: if_splits option.splits)
      next
        case (Inl e)
        then have P1: "?P w1" using ensuresD(1) [OF send P] Pair by auto
        show ?thesis
        proof (cases "again = None \<or> \<not> retryable blocking e")
          case True
          then show ?thesis using r Pair Inl P1 by (auto simp: reconcile_step_def split: option.splits)
        next
          case False
          then obtain k where k: "again = Some k" by auto
          obtain b w2 where b: "retry env blocking (query env url whole) m w1 = (b, w2)" by fastforce
          have P2: "?P w2" "\<And>x. b = Inr x \<Longrightarrow> has_bytes persisted url x w2"
            using ensuresD [OF qry P1] b by (cases b; auto)+
          show ?thesis
            using r Pair Inl False k b P2 pz [OF k]
            by (cases b) (auto simp: reconcile_step_def ensures_def split: if_splits)
        qed
      qed
    qed
    then show ?thesis by (auto simp: ensures_def)
  qed
  show ?thesis by (induction n) (simp_all add: step)
qed


section \<open>The loop on a conforming service\<close>

definition up_inv ::
  "('b, 's) up_env \<Rightarrow> (string \<Rightarrow> 's \<Rightarrow> 'b list) \<Rightarrow> string \<Rightarrow> int \<Rightarrow> nat \<Rightarrow> nat \<Rightarrow> int \<Rightarrow> 's up_world \<Rightarrow> bool" where
  "up_inv env persisted url whole t0 l offset w \<longleftrightarrow>
     int (length (persisted url (uw_server w))) = offset \<and> offset \<le> whole
     \<and> bytes_seen env t0 (uw_tick w) (persisted url (uw_server w)) \<and> t0 \<le> uw_tick w \<and> uw_leases w = l"

lemma bytes_seen_grown:
  assumes "bytes_seen env t0 t1 A" "ue_file env k = Some (c, m)" "t0 \<le> k" "k < t2" "t1 \<le> t2"
    "payload = take j (drop (length A) c)" "grown A payload ys"
  shows "bytes_seen env t0 t2 ys"
  unfolding bytes_seen_def
proof (intro allI impI)
  fix i assume i: "i < length ys"
  obtain q where ys: "ys = A @ take q payload" using assms(7) by (auto simp: grown_def)
  show "\<exists>k c m. t0 \<le> k \<and> k < t2 \<and> ue_file env k = Some (c, m) \<and> i < length c \<and> ys ! i = c ! i"
  proof (cases "i < length A")
    case True
    then obtain k' c' m' where "t0 \<le> k'" "k' < t1" "ue_file env k' = Some (c', m')" "i < length c'" "A ! i = c' ! i"
      using assms(1) by (auto simp: bytes_seen_def)
    moreover have "ys ! i = A ! i" using True ys by (simp add: nth_append)
    ultimately show ?thesis using assms(5) by (metis order_less_le_trans)
  next
    case False
    then obtain d where d: "i = length A + d" by (metis le_add_diff_inverse not_less)
    then have dq: "d < q" "d < j" "length A + d < length c" using i ys assms(6) by auto
    then have "i < length c" "ys ! i = c ! i" using d ys assms(6) by (simp_all add: nth_append)
    then show ?thesis using assms(2-4) by blast
  qed
qed

lemma read_range_shape:
  assumes "read_range env offset len whole w = (r, w')"
  shows "uw_server w' = uw_server w" "uw_tick w' = Suc (uw_tick w)"
    "\<not> (\<exists>p. r = Inr p) \<Longrightarrow> uw_leases w' = uw_leases w"
    "r = Inr p \<Longrightarrow> \<exists>c m. ue_file env (uw_tick w) = Some (c, m) \<and> p = take (nat len) (drop (nat offset) c) \<and> int (length p) = len"
proof -
  define a where "a = (case ue_file env (uw_tick w) of
              None \<Rightarrow> read_upload_range ((ue_read env (uw_tick w))\<lparr>re_open := Inl (OSError ''no such file'')\<rparr>) [] offset len whole
            | Some (content, _) \<Rightarrow> read_upload_range (ue_read env (uw_tick w)) content offset len whole)"
  have r: "(r, w') = sresult (fst a) ((tick w)\<lparr>uw_leases := uw_leases w + snd a\<rparr>)"
    using assms by (simp add: read_range_def a_def [symmetric] split: prod.splits)
  show "uw_server w' = uw_server w" "uw_tick w' = Suc (uw_tick w)" using r by (simp_all add: sresult_def tick_def)
  have l: "snd a \<le> (if is_ok (fst a) then 1 else 0)"
    by (cases "ue_file env (uw_tick w)") (simp_all only: a_def option.case prod.case_eq_if read_range_leases)
  have k: "(\<exists>p. r = Inr p) \<longleftrightarrow> is_ok (fst a)" using r by (auto simp: sresult_def is_ok_def split: sum.splits)
  then show "\<not> (\<exists>p. r = Inr p) \<Longrightarrow> uw_leases w' = uw_leases w" using l r by (simp add: sresult_def)
  assume "r = Inr p"
  then have p: "fst a = Inr p" using r by (auto simp: sresult_def split: sum.splits)
  show "\<exists>c m. ue_file env (uw_tick w) = Some (c, m) \<and> p = take (nat len) (drop (nat offset) c) \<and> int (length p) = len"
  proof (cases "ue_file env (uw_tick w)")
    case None
    then show ?thesis using p by (auto simp: a_def read_upload_range_def Let_def split: if_splits sum.splits)
  next
    case (Some cm)
    then show ?thesis using p read_range_ok [of "ue_read env (uw_tick w)"] by (cases cm) (auto simp: a_def)
  qed
qed

lemma send_chunk_inv:
  assumes "conforming (ue_serve env) persisted" "whole < 2 ^ 63" "1 \<le> part" "offset < whole"
    "up_inv env persisted url whole t0 l offset w" "send_chunk env blocking url retries part whole offset w = (r, w')"
  shows "uw_leases w' = l" "uw_tick w \<le> uw_tick w'" "r = Inr x \<Longrightarrow> up_inv env persisted url whole t0 l x w' \<and> offset < x"
proof -
  define A where "A = persisted url (uw_server w)"
  have A: "offset = int (length A)" "bytes_seen env t0 (uw_tick w) A" "t0 \<le> uw_tick w" "uw_leases w = l"
    using assms(5) by (auto simp: up_inv_def A_def)
  define len where "len = min part (whole - offset)"
  obtain a w1 where rd: "read_range env offset len whole w = (a, w1)" by fastforce
  note sh = read_range_shape [OF rd]
  have "uw_leases w' = l \<and> uw_tick w \<le> uw_tick w' \<and> (r = Inr x \<longrightarrow> up_inv env persisted url whole t0 l x w' \<and> offset < x)"
  proof (cases a)
    case (Inl e)
    then have "r = Inl e" "w' = w1" using assms(6) rd by (simp_all add: send_chunk_def len_def)
    then show ?thesis using sh(2,3) Inl A(4) by simp
  next
    case (Inr payload)
    obtain c m where c: "ue_file env (uw_tick w) = Some (c, m)" "payload = take (nat len) (drop (length A) c)"
      "int (length payload) = len" using sh(4) [OF Inr] A(1) by auto
    have small: "length A + length payload < 2 ^ 64"
    proof -
      have "int (length A + length payload) \<le> whole" using c(3) A(1) by (simp add: len_def)
      then have "int (length A + length payload) < int (2 ^ 64)" using assms(2) by simp
      then show ?thesis by linarith
    qed
    obtain b w2 where b: "send_with_reconciliation env blocking url offset payload whole retries w1 = (b, w2)" by fastforce
    have rb: "r = b" "w' = w2\<lparr>uw_leases := l\<rparr>"
      using assms(6) rd Inr b A(4) by (simp_all add: send_chunk_def len_def release_payload_def)
    have S: "sending persisted url A payload (Suc (uw_tick w)) (uw_leases w1) w1"
      using sh(1,2) by (auto simp: sending_def grown_def A_def intro: exI [of _ 0])
    note E = ensuresD [OF reconcile_ensures [OF assms(1) small, folded A(1)] S]
    have S2: "sending persisted url A payload (Suc (uw_tick w)) (uw_leases w1) w2" using E b by (cases b) auto
    have "up_inv env persisted url whole t0 l x w' \<and> offset < x" if "b = Inr x"
    proof -
      have x: "has_bytes persisted url x w2" "offset < x" using E(2) b that by auto
      have g: "grown A payload (persisted url (uw_server w2))" "Suc (uw_tick w) \<le> uw_tick w2" using S2 by (auto simp: sending_def)
      have "bytes_seen env t0 (uw_tick w2) (persisted url (uw_server w2))"
        by (rule bytes_seen_grown [OF A(2) c(1) A(3) _ _ c(2) g(1)]) (use g(2) in simp_all)
      moreover have "x \<le> whole"
      proof -
        have "length (persisted url (uw_server w2)) < Suc (length A + length payload)" by (rule grown_length [OF g(1)]) simp
        then show ?thesis using x(1) c(3) A(1) by (simp add: has_bytes_def len_def)
      qed
      ultimately show ?thesis using x g(2) A(3) rb(2) by (simp add: up_inv_def has_bytes_def)
    qed
    then show ?thesis using rb S2 by (auto simp: sending_def)
  qed
  then show "uw_leases w' = l" "uw_tick w \<le> uw_tick w'" "r = Inr x \<Longrightarrow> up_inv env persisted url whole t0 l x w' \<and> offset < x"
    by simp_all
qed


lemma stat_shape:
  assumes "stat env w = (r, w')"
  shows "w' = tick w" "r = Inr st \<Longrightarrow> \<exists>c m. ue_file env (uw_tick w) = Some (c, m) \<and> st = (int (length c), m)"
  using assms by (auto simp: stat_def split: option.splits)

lemma up_inv_tick: "up_inv env persisted url whole t0 l offset w \<Longrightarrow> up_inv env persisted url whole t0 l offset (tick w)"
  by (auto simp: up_inv_def tick_def bytes_seen_def intro: less_SucI) (metis less_SucI)

lemma upload_loop_inv:
  assumes "conforming (ue_serve env) persisted" "whole < 2 ^ 63" "1 \<le> part"
    "up_inv env persisted url whole t0 l offset w"
    "upload_loop env blocking url retries part whole initial offset w = (r, w')"
  shows "uw_leases w' = l \<and> uw_tick w \<le> uw_tick w' \<and> (r = Inr u \<longrightarrow> up_inv env persisted url whole t0 l whole w')"
  using assms
proof (induction env blocking url retries part whole initial offset w arbitrary: r rule: upload_loop.induct)
  case (1 env blocking url retries part whole initial offset w)
  note inv = "1.prems"(4) and run = "1.prems"(5)
  show ?case
  proof (cases "offset < whole")
    case False
    then have "r = Inr ()" "w' = w" "offset = whole"
      using run inv by (simp_all add: upload_loop.simps [of _ _ _ _ _ _ _ offset] up_inv_def)
    then show ?thesis using inv by (simp add: up_inv_def)
  next
    case True
    obtain a w1 where st: "stat env w = (a, w1)" by fastforce
    have w1: "w1 = tick w" using stat_shape(1) [OF st] .
    then have inv1: "up_inv env persisted url whole t0 l offset w1" using up_inv_tick [OF inv] by simp
    have base: "uw_leases w1 = l" "uw_tick w \<le> uw_tick w1" using inv1 by (simp_all add: up_inv_def w1 tick_def)
    show ?thesis
    proof (cases "a = Inr initial")
      case False
      then have "\<exists>e. r = Inl e" "w' = w1"
        using run True st by (auto simp: upload_loop.simps [of _ _ _ _ _ _ _ offset] split: sum.splits if_splits)
      then show ?thesis using base by auto
    next
      case ok: True
      obtain b w2 where ch: "send_chunk env blocking url retries part whole offset w1 = (b, w2)" by fastforce
      note sc = send_chunk_inv [OF "1.prems"(1-3) True inv1 ch]
      show ?thesis
      proof (cases b)
        case (Inl e)
        then have "r = Inl e" "w' = w2"
          using run True st ok ch by (simp_all add: upload_loop.simps [of _ _ _ _ _ _ _ offset])
        then show ?thesis using sc(1,2) base by simp
      next
        case (Inr x)
        then have x: "up_inv env persisted url whole t0 l x w2" "offset < x" using sc(3) by simp_all
        then have run2: "upload_loop env blocking url retries part whole initial x w2 = (r, w')"
          using run True st ok ch Inr by (simp add: upload_loop.simps [of _ _ _ _ _ _ _ offset])
        show ?thesis
          using "1.IH" [OF _ st [symmetric] ok _ ch [symmetric] Inr _ "1.prems"(1-3) x(1) run2] True x(2) sc(2) base
          by simp
      qed
    qed
  qed
qed

lemma initiate_empty:
  assumes "conforming (ue_serve env) persisted"
  shows "ensures (\<lambda>w. t0 \<le> uw_tick w \<and> uw_leases w = l) (retry env blocking (initiate env blocking n) retries)
    (\<lambda>url w. (t0 \<le> uw_tick w \<and> uw_leases w = l) \<and> persisted url (uw_server w) = []) (\<lambda>w. t0 \<le> uw_tick w \<and> uw_leases w = l)"
proof (rule ensures_retry)
  show "ensures (\<lambda>w. t0 \<le> uw_tick w \<and> uw_leases w = l) (initiate env blocking n)
    (\<lambda>url w. (t0 \<le> uw_tick w \<and> uw_leases w = l) \<and> persisted url (uw_server w) = []) (\<lambda>w. t0 \<le> uw_tick w \<and> uw_leases w = l)"
  proof (rule ensuresI)
    fix w e w'
    assume "t0 \<le> uw_tick w \<and> uw_leases w = l" "initiate env blocking n w = (Inl e, w')"
    then show "t0 \<le> uw_tick w' \<and> uw_leases w' = l"
      by (auto simp: initiate_def sbind_def call_def sret_def sraise_def
          split: prod.splits reply.splits if_splits option.splits list.splits)
  next
    fix w url w'
    assume P: "t0 \<le> uw_tick w \<and> uw_leases w = l" and run: "initiate env blocking n w = (Inr url, w')"
    obtain x s where s: "ue_serve env (Initiate n) (uw_server w) = (x, s)" by fastforce
    obtain y where y: "x = Reply y" "rs_status y = 200 \<or> rs_status y = 201" "w' = w\<lparr>uw_server := s\<rparr>" "url \<noteq> []"
      "(if blocking then header_or (rs_headers y) ''Location'' ''location'' else map_of (rs_headers y) ''Location'') = Some url"
      using run s by (auto simp: initiate_def sbind_def call_def sret_def sraise_def
          split: prod.splits reply.splits if_splits option.splits list.splits)
    then have "header_or (rs_headers y) ''Location'' ''location'' = Some url"
      by (auto simp: header_or_def split: if_splits list.splits option.splits)
    then have "persisted url s = []" using assms s y(1,2) unfolding conforming_def by blast
    then show "(t0 \<le> uw_tick w' \<and> uw_leases w' = l) \<and> persisted url (uw_server w') = []" using P y(3) by simp
  qed
qed (auto simp: stable_under_ticks_def tick_def)


lemma sbind_Inr: "sbind m f w = (Inr y, w') \<longleftrightarrow> (\<exists>x w1. m w = (Inr x, w1) \<and> f x w1 = (Inr y, w'))"
  by (cases "m w"; cases "fst (m w)") (auto simp: sbind_def)

lemma sresult_Inr: "sresult r w = (Inr y, w') \<longleftrightarrow> r = Inr y \<and> w' = w"
  by (auto simp: sresult_def split: sum.splits)

lemma uploadE:
  assumes "upload_gcs_resumable_file env blocking rt limit mode w = (Inr url, w')"
  obtains c0 m0 c m d e part retries w3 w4 where
    "ue_file env (uw_tick w) = Some (c0, m0)" "ue_file env (Suc (uw_tick w)) = Some (c, m)" "1 \<le> part"
    "retry env blocking (initiate env blocking (int (length c0))) retries (tick (tick w)) = (Inr url, w3)"
    "upload_loop env blocking url retries part (int (length c0)) (int (length c), m) 0 w3 = (Inr (), w4)"
    "ue_file env (uw_tick w4) = Some (d, e)" "w' = tick w4"
    "if blocking then length d = length c \<and> e = m else length d = length c0"
proof -
  obtain found w1 tuning initial w2 w3 w4 u v and budget :: memory_budget where
    st0: "stat env w = (Inr found, w1)"
    and pol: "remote_upload_policy rt ''gcs'' (Inr (fst found)) limit (if blocking then Single else mode) = Inr tuning"
    and st1: "stat env w1 = (Inr initial, w2)"
    and ini: "retry env blocking (initiate env blocking (up_file_size tuning)) (nat (async_retries budget)) w2 = (Inr url, w3)"
    and loop: "or_abort env url (upload_loop env blocking url (nat (async_retries budget)) (up_part_bytes tuning)
          (up_file_size tuning) initial 0) w3 = (Inr u, w4)"
    and fin: "final_check env blocking initial (up_file_size tuning) w4 = (Inr v, w')"
    using assms unfolding upload_gcs_resumable_file_def Let_def sbind_Inr sresult_Inr sret_def prod.inject sum.inject
    by blast
  obtain c0 m0 where c0: "w1 = tick w" "ue_file env (uw_tick w) = Some (c0, m0)" "fst found = int (length c0)"
    using stat_shape [OF st0] by auto
  obtain c m where c: "w2 = tick w1" "ue_file env (uw_tick w1) = Some (c, m)" "initial = (int (length c), m)"
    using stat_shape [OF st1] by auto
  have size: "up_file_size tuning = int (length c0)" and part: "1 \<le> up_part_bytes tuning"
  proof -
    obtain t policy where t: "1 \<le> t" "tuning = upload_policy_of ''gcs'' (fst found) policy (memory_budget_of_total t)"
      by (rule upload_policyE [OF pol])
    show "up_file_size tuning = int (length c0)" by (simp add: t(2) upload_policy_fields(2) c0(3))
    show "1 \<le> up_part_bytes tuning"
      using desired_part_bounds(1) [OF t(1), of "''gcs''" "fst found"] min_part_bounds(2) [of "''gcs''"]
      by (simp add: t(2) upload_policy_fields(1))
  qed
  have lp: "upload_loop env blocking url (nat (async_retries budget)) (up_part_bytes tuning) (int (length c0)) initial 0 w3 = (Inr (), w4)"
    using loop by (auto simp: or_abort_def size split: prod.splits sum.splits)
  obtain final w5 where f: "stat env w4 = (Inr final, w5)" "w' = w5"
    "\<not> (if blocking then final \<noteq> initial else fst final \<noteq> up_file_size tuning)"
    using fin by (auto simp: final_check_def sbind_Inr sret_def sraise_def split: if_splits)
  obtain d e where d: "w5 = tick w4" "ue_file env (uw_tick w4) = Some (d, e)" "final = (int (length d), e)"
    using stat_shape [OF f(1)] by auto
  show thesis
  proof (rule that)
    show "ue_file env (Suc (uw_tick w)) = Some (c, m)" using c(2) c0(1) by (simp add: tick_def)
    show "retry env blocking (initiate env blocking (int (length c0))) (nat (async_retries budget)) (tick (tick w)) = (Inr url, w3)"
      using ini c(1) c0(1) size by simp
    show "if blocking then length d = length c \<and> e = m else length d = length c0"
      using f(3) d(3) c(3) size by (cases blocking) auto
    show "upload_loop env blocking url (nat (async_retries budget)) (up_part_bytes tuning) (int (length c0)) (int (length c), m) 0 w3
        = (Inr (), w4)" using lp c(3) by simp
  qed (use c0 part f(2) d in simp_all)
qed

section \<open>Properties\<close>


section \<open>A service that keeps its promises\<close>

text \<open>One session that stores at most \<open>rate\<close> bytes of every range.\<close>

definition answer :: "int \<Rightarrow> 'b list \<Rightarrow> reply" where
  "answer whole s =
     Reply (if int (length s) = whole then \<lparr>rs_status = 200, rs_headers = []\<rparr>
            else \<lparr>rs_status = 308,
                  rs_headers = (if s = [] then [] else [(''Range'', ''bytes=0-'' @ decimal (length s - 1))])\<rparr>)"

fun service :: "nat \<Rightarrow> 'b request \<Rightarrow> 'b list \<Rightarrow> reply \<times> 'b list" where
  "service rate (Initiate n) s = (Reply \<lparr>rs_status = 200, rs_headers = [(''Location'', ''u'')]\<rparr>, [])"
| "service rate (Query url whole) s = (answer whole s, s)"
| "service rate (Put url first xs whole) s =
     (let s' = (if 0 \<le> first \<and> first \<le> int (length s) then s @ take rate (drop (length s - nat first) xs) else s)
      in (answer whole s', s'))"
| "service rate (Cancel url) s = (Reply \<lparr>rs_status = 204, rs_headers = []\<rparr>, s)"

lemma answer_reports: "reports (length s) whole (answer whole s)"
  by (auto simp: reports_def answer_def header_or_def)

lemma service_conforms: "conforming (service rate) (\<lambda>_ s. s)"
  unfolding conforming_def
proof (intro conjI allI impI)
  fix url whole s r s'
  assume "service rate (Query url whole) s = (r, s')"
  then show "s' = s" "reports (length s') whole r" using answer_reports by auto
next
  fix url first xs whole s r s'
  assume q: "service rate (Put url first xs whole) s = (r, s')"
  then show "reports (length s') whole r" using answer_reports by (metis service.simps(3) prod.inject)
  assume "0 \<le> first" "first \<le> int (length s)"
  then have "s' = s @ take rate (drop (length s - nat first) xs)" using q by (simp add: Let_def)
  then show "\<exists>k. s' = s @ take k (drop (length s - nat first) xs)" by blast
qed auto

definition quiet_env :: "nat \<Rightarrow> (nat \<Rightarrow> ('b list \<times> int) option) \<Rightarrow> ('b, 'b list) up_env" where
  "quiet_env rate disk =
     \<lparr>ue_serve = service rate, ue_file = disk, ue_cancelled = (\<lambda>_. False), ue_admit = (\<lambda>_. None),
      ue_read = (\<lambda>_. granting_env)\<rparr>"

definition fresh_world :: "'b list up_world" where
  "fresh_world = \<lparr>uw_tick = 0, uw_server = [], uw_leases = 0\<rparr>"

lemma quiet_initiate:
  "retry (quiet_env rate disk) blocking (initiate (quiet_env rate disk) blocking n) 4 \<lparr>uw_tick = k, uw_server = s, uw_leases = l\<rparr>
   = (Inr ''u'', \<lparr>uw_tick = (if blocking then k + 3 else k + 2), uw_server = [], uw_leases = l\<rparr>)"
  by (simp add: retry_def numeral_eq_Suc retry_step_def sbind_def checkpoint_def admit_def initiate_def call_def
      quiet_env_def tick_def sret_def header_or_def)

lemma next_of_answer:
  assumes r: "answer n s = Reply r" and s: "s \<noteq> []" and f: "first \<le> int (length s)" and n: "int (length s) \<le> n"
    and l: "length s < 2 ^ 64"
  shows "gcs_resumable_next_offset r n (Some first) (Some (n - 1)) = Inr (int (length s))"
proof (cases "int (length s) = n")
  case True
  then have "rs_status r = 200" using r by (auto simp: answer_def)
  then show ?thesis using True by (simp add: gcs_resumable_next_offset_def)
next
  case False
  then have st: "rs_status r = 308" "rs_headers r = [(''Range'', ''bytes=0-'' @ decimal (length s - 1))]"
    using r s by (auto simp: answer_def)
  have p: "py_int (decimal (length s - 1)) = Some (int (length s - 1))" using l by (intro py_int_decimal) simp
  have "header_or (rs_headers r) ''Range'' ''range'' = Some (''bytes=0-'' @ decimal (length s - 1))"
    by (simp add: st(2) header_or_def)
  moreover have "starts_with ''bytes=0-'' (''bytes=0-'' @ x)" "drop 8 (''bytes=0-'' @ x) = x" for x
    by (simp_all add: starts_with_def)
  moreover have "int (length s - 1) + 1 = int (length s)" using s by (cases s) auto
  ultimately show ?thesis using st(1) p f n by (simp add: gcs_resumable_next_offset_def Let_def del: append_Cons)
qed

lemma quiet_chunk:
  assumes "disk k = Some (c, m)" "length s < n" "n \<le> length c" "int n \<le> part" "0 < rate" "n < 10"
  shows "send_chunk (quiet_env rate disk) blocking url 4 part (int n) (int (length s)) \<lparr>uw_tick = k, uw_server = s, uw_leases = l\<rparr>
    = (Inr (int (length s + min rate (n - length s))),
       \<lparr>uw_tick = Suc k, uw_server = s @ take rate (take (n - length s) (drop (length s) c)), uw_leases = l\<rparr>)"
proof -
  let ?w = "\<lparr>uw_tick = k, uw_server = s, uw_leases = l\<rparr>"
  let ?p = "take (n - length s) (drop (length s) c)"
  let ?s = "s @ take rate ?p" and ?x = "int (length s + min rate (n - length s))"
  have lp: "length ?p = n - length s" using assms(2,3) by simp
  have len: "min part (int n - int (length s)) = int (length ?p)" using assms(2-4) by simp
  have nn: "nat (int n - int (length s)) = n - length s" by linarith
  have rd: "read_range (quiet_env rate disk) (int (length s)) (int (length ?p)) (int n) ?w
      = (Inr ?p, \<lparr>uw_tick = Suc k, uw_server = s, uw_leases = l + 1\<rparr>)"
    using assms(1-3)
    by (simp add: read_range_def quiet_env_def read_upload_range_def granting_env_def Let_def sresult_def tick_def nn)
  have x: "int (length s) < ?x" "?x = int (length ?s)" "?x \<le> int n" using assms(2,3,5) lp by auto
  have e: "int (length s) + int (length ?p) - 1 = int n - 1" using assms(2) unfolding lp by simp
  have ne: "?s \<noteq> []" using assms(2,3,5) by auto
  obtain r where r: "answer (int n) ?s = Reply r" by (simp add: answer_def)
  have nx: "gcs_resumable_next_offset r (int n) (Some (int (length s))) (Some (int (length s) + int (length ?p) - 1)) = Inr ?x"
    unfolding e x(2) by (rule next_of_answer [OF r ne]) (use x assms(6) in simp_all)
  have sv: "service rate (Put url (int (length s)) ?p (int n)) s = (Reply r, ?s)" using r by (simp add: Let_def)
  have sr: "send_range (quiet_env rate disk) url (int (length s)) ?p (int n) \<lparr>uw_tick = Suc k, uw_server = s, uw_leases = l + 1\<rparr>
      = (Inr ?x, \<lparr>uw_tick = Suc k, uw_server = ?s, uw_leases = l + 1\<rparr>)"
    unfolding send_range_def sbind_def call_def quiet_env_def up_env.select_convs up_world.select_convs sv prod.case
      reply.case sum.case nx sresult_def
    by (simp add: nx del: length_drop)
  have four: "4 = Suc 3" by simp
  show ?thesis using x(1)
    unfolding send_chunk_def len rd four send_with_reconciliation.simps reconcile_step_def sum.case prod.case sr
    by (simp add: release_payload_def)
qed


lemma upload_unfold:
  assumes "ue_file env (uw_tick w) = Some (c, m)"
  obtains part where "262144 \<le> part"
    "upload_gcs_resumable_file env blocking idle_runtime (Limit (64 * MIB)) Single w =
     sbind (stat env) (\<lambda>initial.
     sbind (retry env blocking (initiate env blocking (int (length c))) 4) (\<lambda>url.
     sbind (or_abort env url (upload_loop env blocking url 4 part (int (length c)) initial 0)) (\<lambda>_.
     sbind (final_check env blocking initial (int (length c))) (\<lambda>_. sret url)))) (tick w)"
proof -
  obtain p where p: "remote_upload_policy idle_runtime ''gcs'' (Inr (int (length c))) (Limit (64 * MIB)) Single = Inr p"
    using remote_upload_policy_returns [OF limit_64] by blast
  obtain policy where q: "p = upload_policy_of ''gcs'' (int (length c)) policy (memory_budget_of_total (64 * MIB))"
    using upload_policyE [OF p] limit_64 by (metis sum.inject(2))
  have b: "\<exists>b. budget_from_limit (rt_host idle_runtime) (Limit (64 * MIB)) = Inr b \<and> async_retries b = 4"
  proof -
    have "async_retries (memory_budget_of_total t) = 4" for t
      by (simp only: memory_budget_of_total_def Let_def memory_budget.select_convs)
    then show ?thesis by (simp add: budget_from_limit_def limit_64 memory_budget_from_limit_def)
  qed
  then obtain b where b: "budget_from_limit (rt_host idle_runtime) (Limit (64 * MIB)) = Inr b" "async_retries b = 4" by blast
  have f: "up_file_size p = int (length c)" by (simp add: q upload_policy_fields(2))
  have "1 \<le> 64 * MIB" by (simp add: MIB_def)
  then have part: "262144 \<le> up_part_bytes p"
    using desired_part_bounds(1) [of "64 * MIB" "''gcs''" "int (length c)"]
    by (simp add: q upload_policy_fields(1) provider_min_part_bytes_def GCS_CHUNK_ALIGNMENT_def)
  have st: "stat env w = (Inr (int (length c), m), tick w)" using assms by (simp add: stat_def)
  show thesis
  proof (rule that [OF part])
    show "upload_gcs_resumable_file env blocking idle_runtime (Limit (64 * MIB)) Single w =
     sbind (stat env) (\<lambda>initial.
     sbind (retry env blocking (initiate env blocking (int (length c))) 4) (\<lambda>url.
     sbind (or_abort env url (upload_loop env blocking url 4 (up_part_bytes p) (int (length c)) initial 0)) (\<lambda>_.
     sbind (final_check env blocking initial (int (length c))) (\<lambda>_. sret url)))) (tick w)"
      unfolding upload_gcs_resumable_file_def sbind_def [of "stat env" _ w] st prod.case sum.case fst_conv
        sbind_def [of "sresult r" for r] sresult_def if_cancel p b f Let_def
      by simp
  qed
qed


lemma quiet_stat:
  "disk k = Some (c, m) \<Longrightarrow> stat (quiet_env rate disk) \<lparr>uw_tick = k, uw_server = s, uw_leases = l\<rparr>
     = (Inr (int (length c), m), \<lparr>uw_tick = Suc k, uw_server = s, uw_leases = l\<rparr>)"
  by (simp add: stat_def quiet_env_def tick_def)

lemma quiet_round:
  assumes "disk k = Some (c, m)" "disk (Suc k) = Some (d, e)" "length s < n" "n \<le> length d" "int n \<le> part" "0 < rate" "n < 10"
  shows "upload_loop (quiet_env rate disk) blocking url 4 part (int n) (int (length c), m) (int (length s))
      \<lparr>uw_tick = k, uw_server = s, uw_leases = l\<rparr>
    = upload_loop (quiet_env rate disk) blocking url 4 part (int n) (int (length c), m)
        (int (length s + min rate (n - length s)))
        \<lparr>uw_tick = Suc (Suc k), uw_server = s @ take rate (take (n - length s) (drop (length s) d)), uw_leases = l\<rparr>"
proof -
  have o: "\<not> int (length s + min rate (n - length s)) \<le> int (length s)" "int (length s) < int n" using assms(3,6) by simp_all
  show ?thesis
    unfolding upload_loop.simps [of _ _ _ _ _ _ _ "int (length s)"] quiet_stat [where disk = disk and k = k, OF assms(1)]
      quiet_chunk [where disk = disk and k = "Suc k", OF assms(2-7)] prod.case sum.case
    by (simp only: o if_False simp_thms not_True_eq_False)
qed

lemma quiet_upload:
  assumes "disk 0 = Some (oc, om)" "disk 1 = Some (c, m)"
    "\<And>part. 262144 \<le> part \<Longrightarrow>
       upload_loop (quiet_env rate disk) blocking ''u'' 4 part (int (length oc)) (int (length c), m) 0
         \<lparr>uw_tick = (if blocking then 5 else 4), uw_server = [], uw_leases = 0\<rparr>
       = (Inr (), \<lparr>uw_tick = k, uw_server = s, uw_leases = 0\<rparr>)"
    "disk k = Some (d, e)" "if blocking then length d = length c \<and> e = m else length d = length oc"
  shows "upload_gcs_resumable_file (quiet_env rate disk) blocking idle_runtime (Limit (64 * MIB)) Single fresh_world
    = (Inr ''u'', \<lparr>uw_tick = Suc k, uw_server = s, uw_leases = 0\<rparr>)"
proof -
  have f0: "ue_file (quiet_env rate disk) (uw_tick fresh_world) = Some (oc, om)"
    using assms(1) by (simp add: quiet_env_def fresh_world_def)
  obtain part where part: "262144 \<le> part" and u:
    "upload_gcs_resumable_file (quiet_env rate disk) blocking idle_runtime (Limit (64 * MIB)) Single fresh_world =
     sbind (stat (quiet_env rate disk)) (\<lambda>initial.
     sbind (retry (quiet_env rate disk) blocking (initiate (quiet_env rate disk) blocking (int (length oc))) 4) (\<lambda>url.
     sbind (or_abort (quiet_env rate disk) url
       (upload_loop (quiet_env rate disk) blocking url 4 part (int (length oc)) initial 0)) (\<lambda>_.
     sbind (final_check (quiet_env rate disk) blocking initial (int (length oc))) (\<lambda>_. sret url)))) (tick fresh_world)"
    by (rule upload_unfold [OF f0])
  have t: "tick fresh_world = \<lparr>uw_tick = 1, uw_server = [], uw_leases = 0\<rparr>" by (simp add: tick_def fresh_world_def)
  have k: "(if blocking then Suc 1 + 3 else Suc 1 + 2) = (if blocking then 5 else 4 :: nat)" by simp
  show ?thesis
    unfolding u t sbind_def quiet_stat [where disk = disk and k = 1, OF assms(2)] prod.case sum.case quiet_initiate k or_abort_def
      assms(3) [OF part] final_check_def quiet_stat [where disk = disk and k = k, OF assms(4)] sret_def
    using assms(5) by (cases blocking) simp_all
qed


lemma quiet_done:
  "\<not> offset < whole \<Longrightarrow> upload_loop env blocking url retries part whole initial offset w = (Inr (), w)"
  by (simp add: upload_loop.simps [of _ _ _ _ _ _ _ offset])

definition steady :: "nat \<Rightarrow> (bool list \<times> int) option" where
  "steady k = Some ([True, False, True], 7)"

definition growing :: "nat \<Rightarrow> (bool list \<times> int) option" where
  "growing k = Some (if k = 0 then ([True], 0) else ([True, False], 1))"

definition rewritten :: "nat \<Rightarrow> (bool list \<times> int) option" where
  "rewritten k = Some (if k < 7 then ([True, True], 0) else ([False, False], 1))"

lemma steady_upload:
  "upload_gcs_resumable_file (quiet_env 2 steady) True idle_runtime (Limit (64 * MIB)) Single fresh_world
   = (Inr ''u'', \<lparr>uw_tick = 10, uw_server = [True, False, True], uw_leases = 0\<rparr>)"
proof -
  have l: "upload_loop (quiet_env 2 steady) True ''u'' 4 part (int 3) (int 3, 7) 0 \<lparr>uw_tick = 5, uw_server = [], uw_leases = 0\<rparr>
      = (Inr (), \<lparr>uw_tick = 9, uw_server = [True, False, True], uw_leases = 0\<rparr>)" if "262144 \<le> part" for part
    using quiet_round [where disk = steady and k = 5 and s = "[]" and n = 3 and rate = 2 and part = part and blocking = True
        and url = "''u''" and l = 0 and c = "[True, False, True]" and d = "[True, False, True]" and m = 7 and e = 7]
      quiet_round [where disk = steady and k = 7 and s = "[True, False]" and n = 3 and rate = 2 and part = part
        and blocking = True and url = "''u''" and l = 0 and c = "[True, False, True]" and d = "[True, False, True]"
        and m = 7 and e = 7] that
    by (simp add: steady_def quiet_done)
  show ?thesis
    using quiet_upload [where disk = steady and rate = 2 and blocking = True and k = 9 and s = "[True, False, True]"
        and oc = "[True, False, True]" and c = "[True, False, True]" and d = "[True, False, True]" and m = 7 and om = 7 and e = 7]
      l by (simp add: steady_def)
qed



end
