(* ===== verification/Uris.thy ===== *)
theory Uris
  imports Py_Strings
begin

text \<open>
  Model of the classification of locations in \<^verbatim>\<open>core_impl/uris.py\<close>, with the parts
  of Python's \<^verbatim>\<open>urllib.parse.urlparse\<close> it relies on: leading blanks and control
  characters are dropped, tabs and line breaks removed, the scheme recognized and
  lowered, authority, path, parameters, query and fragment separated.  The check of
  a bracketed IPv6 host is the argument \<open>host_ok\<close>.  Strings hold characters with codes below 256,
  for which the check of normalized authorities never fails.
\<close>

section \<open>Splitting a URI\<close>

record parsed_uri =
  pu_scheme :: string
  pu_netloc :: string
  pu_path :: string

definition control_or_space :: "char \<Rightarrow> bool" where
  "control_or_space c \<longleftrightarrow> (of_char c :: nat) \<le> 32"

definition unsafe_char :: "char \<Rightarrow> bool" where
  "unsafe_char c \<longleftrightarrow> (let n = of_char c :: nat in n = 9 \<or> n = 10 \<or> n = 13)"

definition ascii_alpha :: "char \<Rightarrow> bool" where
  "ascii_alpha c \<longleftrightarrow> (let n = of_char c :: nat in (65 \<le> n \<and> n \<le> 90) \<or> (97 \<le> n \<and> n \<le> 122))"

definition scheme_char :: "char \<Rightarrow> bool" where
  "scheme_char c \<longleftrightarrow> ascii_alpha c \<or> isdigit c \<or> c = CHR ''+'' \<or> c = CHR ''-'' \<or> c = CHR ''.''"

definition split_scheme :: "string \<Rightarrow> string \<times> string" where
  "split_scheme url =
     (case split_once '':'' url of
        Some (s, rest) \<Rightarrow>
          if s \<noteq> [] \<and> ascii_alpha (hd s) \<and> list_all scheme_char s then (lower s, rest) else ([], url)
      | None \<Rightarrow> ([], url))"

definition before_char :: "char \<Rightarrow> string \<Rightarrow> string" where
  "before_char c s = takeWhile (\<lambda>x. x \<noteq> c) s"

definition split_netloc :: "string \<Rightarrow> string \<times> string" where
  "split_netloc url =
     (if starts_with ''//'' url
      then let rest = drop 2 url; stop = (\<lambda>c. c = CHR ''/'' \<or> c = CHR ''?'' \<or> c = CHR ''#'') in
           (takeWhile (\<lambda>c. \<not> stop c) rest, dropWhile (\<lambda>c. \<not> stop c) rest)
      else ([], url))"

definition uses_params :: "string list" where
  "uses_params = [[], ''ftp'', ''hdl'', ''prospero'', ''http'', ''https'', ''shttp'', ''rtsp'', ''rtsps'', ''rtspu'',
     ''sip'', ''sips'', ''mms'', ''sftp'', ''tel'']"

text \<open>Parameters start at the first semicolon of the last segment.\<close>

fun drop_params :: "string \<Rightarrow> string" where
  "drop_params url =
     (let last_segment = rev (takeWhile (\<lambda>c. c \<noteq> CHR ''/'') (rev url)) in
      take (length url - length last_segment) url @ before_char (CHR '';'') last_segment)"

definition urlparse :: "(string \<Rightarrow> bool) \<Rightarrow> string \<Rightarrow> parsed_uri result" where
  "urlparse host_ok text =
     (let url = filter (\<lambda>c. \<not> unsafe_char c) (lstrip control_or_space text);
          (scheme, url) = split_scheme url;
          (netloc, url) = split_netloc url;
          opens = CHR ''['' \<in> set netloc; closes = CHR '']'' \<in> set netloc in
      if opens \<noteq> closes then Inl (ValueError ''Invalid IPv6 URL'')
      else if opens \<and> closes \<and> \<not> host_ok netloc then Inl (ValueError ''Invalid IPv6 URL'')
      else let path = before_char (CHR ''?'') (before_char (CHR ''#'') url) in
        Inr \<lparr>pu_scheme = scheme, pu_netloc = netloc,
             pu_path = (if scheme \<in> set uses_params then drop_params path else path)\<rparr>)"

section \<open>Classification\<close>

datatype provider = Gcs | S3 | Azure | Http

datatype location = Path_Kind | File_Kind | Remote_Kind provider

definition GCS_SCHEMES :: "string list" where "GCS_SCHEMES = [''gcs'', ''gs'']"
definition S3_SCHEMES :: "string list" where "S3_SCHEMES = [''s3'']"
definition AZURE_SCHEMES :: "string list" where
  "AZURE_SCHEMES = [''abfs'', ''abfss'', ''adl'', ''az'', ''azure'', ''wasb'', ''wasbs'']"
definition HTTP_SCHEMES :: "string list" where "HTTP_SCHEMES = [''http'', ''https'']"

definition looks_like_windows_drive_path :: "string \<Rightarrow> bool" where
  "looks_like_windows_drive_path s \<longleftrightarrow> length s \<ge> 2 \<and> s ! 1 = CHR '':'' \<and> isalpha (s ! 0)"

definition location_kind :: "(string \<Rightarrow> bool) \<Rightarrow> string \<Rightarrow> location option result" where
  "location_kind host_ok s =
     (if looks_like_windows_drive_path s then Inr (Some Path_Kind)
      else rlift (\<lambda>p.
        let scheme = lower (pu_scheme p) in
        if scheme = [] then Some Path_Kind
        else if scheme = ''file'' then Some File_Kind
        else if pu_netloc p = [] then None
        else if scheme \<in> set GCS_SCHEMES then Some (Remote_Kind Gcs)
        else if scheme \<in> set S3_SCHEMES then Some (Remote_Kind S3)
        else if scheme \<in> set AZURE_SCHEMES then Some (Remote_Kind Azure)
        else if scheme \<in> set HTTP_SCHEMES
        then Some (Remote_Kind (if contains ''.blob.core.windows.net'' (lower (pu_netloc p)) then Azure else Http))
        else None) (urlparse host_ok s))"

definition remote_provider :: "(string \<Rightarrow> bool) \<Rightarrow> string \<Rightarrow> provider option result" where
  "remote_provider host_ok s =
     rlift (\<lambda>kind. case kind of Some (Remote_Kind p) \<Rightarrow> Some p | _ \<Rightarrow> None) (location_kind host_ok s)"

definition looks_like_remote_uri :: "(string \<Rightarrow> bool) \<Rightarrow> string \<Rightarrow> bool result" where
  "looks_like_remote_uri host_ok s = rlift (\<lambda>p. p \<noteq> None) (remote_provider host_ok s)"

definition looks_like_file_uri :: "(string \<Rightarrow> bool) \<Rightarrow> string \<Rightarrow> bool result" where
  "looks_like_file_uri host_ok s = rlift (\<lambda>k. k = Some File_Kind) (location_kind host_ok s)"

definition looks_like_supported_uri :: "(string \<Rightarrow> bool) \<Rightarrow> string \<Rightarrow> bool result" where
  "looks_like_supported_uri host_ok s = rlift (\<lambda>k. k \<noteq> None \<and> k \<noteq> Some Path_Kind) (location_kind host_ok s)"

definition local_path_or_reject_remote ::
  "(string \<Rightarrow> bool) \<Rightarrow> (string \<Rightarrow> string result) \<Rightarrow> string \<Rightarrow> string \<Rightarrow> string result" where
  "local_path_or_reject_remote host_ok from_file_uri remote_error raw =
     rbind (location_kind host_ok raw) (\<lambda>kind.
       if kind = Some File_Kind then from_file_uri raw
       else if kind = Some Path_Kind then Inr raw
       else if kind \<noteq> None then Inl (ValueError remote_error)
       else rbind (urlparse host_ok raw) (\<lambda>p. if pu_scheme p \<noteq> [] then Inl (ValueError remote_error) else Inr raw))"

definition normalize_extensions :: "string list \<Rightarrow> string list" where
  "normalize_extensions suffixes =
     map (\<lambda>v. if starts_with ''.'' v then v else CHR ''.'' # v) (filter (\<lambda>v. v \<noteq> []) (map lower suffixes))"

definition name_matches :: "string \<Rightarrow> string list \<Rightarrow> bool" where
  "name_matches name suffixes \<longleftrightarrow> list_ex (\<lambda>e. ends_with e (lower name)) suffixes"

section \<open>Facts\<close>

lemma remote_uri_has_authority:
  assumes "remote_provider host_ok s = Inr (Some p)"
  obtains u where "urlparse host_ok s = Inr u" "pu_scheme u \<noteq> []" "pu_netloc u \<noteq> []"
  using assms
  by (auto simp: remote_provider_def location_kind_def Let_def lower_def ok_iff split: if_splits option.splits)

lemma remote_provider_kind:
  "remote_provider host_ok s = Inr (Some p) \<longleftrightarrow> location_kind host_ok s = Inr (Some (Remote_Kind p))"
  by (cases "location_kind host_ok s") (auto simp: remote_provider_def split: option.splits location.splits)

lemma rejected_remote:
  "remote_provider host_ok s = Inr (Some p) \<Longrightarrow> local_path_or_reject_remote host_ok f e s = Inl (ValueError e)"
  by (simp add: remote_provider_kind local_path_or_reject_remote_def)

lemma normalized_extensions_dotted: "list_all (starts_with ''.'') (normalize_extensions suffixes)"
  by (auto simp: normalize_extensions_def list_all_iff starts_with_def)

end
