(* ===== verification/Source_Models.thy ===== *)
theory Source_Models
  imports Uris "HOL-Library.Multiset" "HOL-Library.Product_Lexorder" "HOL-Library.List_Lexorder" "HOL-Library.Char_ord"
begin

text \<open>
  Model of \<^verbatim>\<open>sources/models.py\<close>: remote files and the manifests that freeze a
  selection of them.  A datetime is naive or aware; an aware one is given by the
  microseconds from the first instant of year 1 to it in UTC, so that its
  conversion to UTC fails exactly when they leave the years 1 to 9999.
\<close>

section \<open>Datetimes\<close>

datatype stamp = Naive int | Aware int

definition DAY_US :: int where "DAY_US = 86400000000"

definition MAX_US :: int where "MAX_US = 3652059 * DAY_US"

definition astimezone_utc :: "stamp \<Rightarrow> int result" where
  "astimezone_utc v =
     (case v of
        Naive _ \<Rightarrow> Inl (ValueError ''naive datetime'')
      | Aware t \<Rightarrow> if 0 \<le> t \<and> t < MAX_US then Inr t else Inl (OverflowError ''date value out of range''))"

section \<open>Remote files\<close>

record remote_file =
  rf_uri :: string
  rf_name :: string
  rf_size :: "int option"
  rf_updated :: "stamp option"
  rf_time_created :: "stamp option"
  rf_generation :: "string option"
  rf_metageneration :: "string option"
  rf_etag :: "string option"
  rf_crc32c :: "string option"

definition content_identity :: "remote_file \<Rightarrow> string \<times> string option" where
  "content_identity f = (rf_uri f, rf_generation f)"

definition remote_file_sort_key :: "remote_file \<Rightarrow> string \<times> string" where
  "remote_file_sort_key f = (rf_uri f, case rf_generation f of None \<Rightarrow> [] | Some g \<Rightarrow> g)"

definition is_slash :: "char \<Rightarrow> bool" where
  "is_slash c \<longleftrightarrow> c = CHR ''/''"

definition normalized_remote_path :: "(string \<Rightarrow> bool) \<Rightarrow> string \<Rightarrow> (string \<times> string) result" where
  "normalized_remote_path host_ok uri =
     rlift (\<lambda>p. (lower (pu_netloc p), rstrip is_slash (lstrip is_slash (pu_path p)))) (urlparse host_ok uri)"

definition belongs_to_source :: "(string \<Rightarrow> bool) \<Rightarrow> string \<Rightarrow> string \<Rightarrow> bool result" where
  "belongs_to_source host_ok source_uri object_uri =
     rbind (normalized_remote_path host_ok source_uri) (\<lambda>(source_authority, source_path).
     rlift (\<lambda>(object_authority, object_path).
        source_authority = object_authority
        \<and> (source_path = [] \<or> object_path = source_path \<or> starts_with (source_path @ ''/'') object_path))
       (normalized_remote_path host_ok object_uri))"

section \<open>Manifests\<close>

record source_manifest =
  sm_uri :: string
  sm_files :: "remote_file list"
  sm_provider :: provider

definition blank :: "string option \<Rightarrow> bool" where
  "blank t \<longleftrightarrow> (case t of None \<Rightarrow> True | Some s \<Rightarrow> strip s = [])"

definition check_entry :: "(string \<Rightarrow> bool) \<Rightarrow> string \<Rightarrow> provider \<Rightarrow> remote_file \<Rightarrow> unit result" where
  "check_entry host_ok source_uri provider f =
     rbind (remote_provider host_ok (rf_uri f)) (\<lambda>p.
     rbind (guard_raise (p \<noteq> Some provider)
       (ValueError ''SourceManifest entries must use the same supported filesystem as source_uri'')) (\<lambda>_.
     rbind (belongs_to_source host_ok source_uri (rf_uri f)) (\<lambda>inside.
     rbind (guard_raise (\<not> inside)
       (ValueError ''SourceManifest entry is outside the declared source prefix'')) (\<lambda>_.
     rbind (guard_raise (blank (rf_generation f))
       (ValueError ''SourceManifest GCS entries require an immutable object generation'')) (\<lambda>_.
     rbind (guard_raise (blank (Some (rf_name f)))
       (ValueError ''SourceManifest entry has no usable file name'')) (\<lambda>_.
     guard_raise (case rf_updated f of Some (Naive _) \<Rightarrow> True | _ \<Rightarrow> False)
       (ValueError ''SourceManifest object modification times must be timezone-aware'')))))))"

fun check_entries ::
  "(string \<Rightarrow> bool) \<Rightarrow> string \<Rightarrow> provider \<Rightarrow> (string \<times> string option) set \<Rightarrow> remote_file list \<Rightarrow> unit result" where
  "check_entries host_ok source_uri provider seen [] = Inr ()"
| "check_entries host_ok source_uri provider seen (f # fs) =
     rbind (check_entry host_ok source_uri provider f) (\<lambda>_.
     if content_identity f \<in> seen
     then Inl (ValueError ''SourceManifest contains a duplicate content identity'')
     else check_entries host_ok source_uri provider (insert (content_identity f) seen) fs)"

definition make_manifest :: "(string \<Rightarrow> bool) \<Rightarrow> string \<Rightarrow> remote_file list \<Rightarrow> source_manifest result" where
  "make_manifest host_ok source_uri files =
     (if strip source_uri = [] then Inl (ValueError ''source_uri must be a non-empty string'')
      else rbind (remote_provider host_ok source_uri) (\<lambda>p.
        case p of
          None \<Rightarrow> Inl (ValueError ''SourceManifest source_uri must be a supported remote URI'')
        | Some provider \<Rightarrow>
            if provider \<noteq> Gcs
            then Inl (ValueError ''SourceManifest currently supports only versioned GCS object identities'')
            else let ordered = sort_key remote_file_sort_key files in
              rlift (\<lambda>_. \<lparr>sm_uri = source_uri, sm_files = ordered, sm_provider = provider\<rparr>)
                (check_entries host_ok source_uri provider {} ordered)))"

definition object_count :: "source_manifest \<Rightarrow> nat" where
  "object_count m = length (sm_files m)"

definition manifest_bytes :: "source_manifest \<Rightarrow> int option" where
  "manifest_bytes m =
     (if list_ex (\<lambda>f. rf_size f = None) (sm_files m) then None
      else Some (sum_list (map (\<lambda>f. case rf_size f of None \<Rightarrow> 0 | Some n \<Rightarrow> n) (sm_files m))))"

text \<open>The earliest (or latest) update; comparing a naive with an aware datetime raises.\<close>

fun stamp_less :: "stamp \<Rightarrow> stamp \<Rightarrow> bool result" where
  "stamp_less (Aware a) (Aware b) = Inr (a < b)"
| "stamp_less (Naive a) (Naive b) = Inr (a < b)"
| "stamp_less _ _ = Inl (TypeError ''can't compare offset-naive and offset-aware datetimes'')"

fun best_update :: "(stamp \<Rightarrow> stamp \<Rightarrow> bool result) \<Rightarrow> stamp option \<Rightarrow> remote_file list \<Rightarrow> stamp option option result" where
  "best_update better best [] = Inr (Some best)"
| "best_update better best (f # fs) =
     (case rf_updated f of
        None \<Rightarrow> Inr None
      | Some v \<Rightarrow>
          (case best of
             None \<Rightarrow> best_update better (Some v) fs
           | Some b \<Rightarrow> rbind (better v b) (\<lambda>c. best_update better (Some (if c then v else b)) fs)))"

definition update_of :: "stamp option option result \<Rightarrow> int option result" where
  "update_of r = rbind r (\<lambda>x. case x of Some (Some v) \<Rightarrow> rlift Some (astimezone_utc v) | _ \<Rightarrow> Inr None)"

definition earliest_update :: "source_manifest \<Rightarrow> int option result" where
  "earliest_update m = update_of (best_update stamp_less None (sm_files m))"

definition latest_update :: "source_manifest \<Rightarrow> int option result" where
  "latest_update m = update_of (best_update (\<lambda>v b. stamp_less b v) None (sm_files m))"

definition content_identities :: "source_manifest \<Rightarrow> (string \<times> string option) list" where
  "content_identities m = map content_identity (sm_files m)"

definition diagnostic_objects :: "source_manifest \<Rightarrow> (string \<times> string) list list" where
  "diagnostic_objects m =
     map (\<lambda>f. [(''uri'', rf_uri f), (''generation'', case rf_generation f of None \<Rightarrow> [] | Some g \<Rightarrow> g)]) (sm_files m)"

section \<open>What a manifest guarantees\<close>

definition entry_ok :: "(string \<Rightarrow> bool) \<Rightarrow> string \<Rightarrow> remote_file \<Rightarrow> bool" where
  "entry_ok host_ok source_uri f \<longleftrightarrow> check_entry host_ok source_uri Gcs f = Inr ()"

lemma check_entries_ok:
  "check_entries host_ok u Gcs seen fs = Inr () \<longleftrightarrow>
     list_all (entry_ok host_ok u) fs \<and> distinct (map content_identity fs) \<and> seen \<inter> content_identity ` set fs = {}"
  by (induction fs arbitrary: seen) (auto simp: ok_iff entry_ok_def)

lemma make_manifest_ok:
  "make_manifest host_ok u fs = Inr m \<longleftrightarrow>
     strip u \<noteq> [] \<and> remote_provider host_ok u = Inr (Some Gcs) \<and> list_all (entry_ok host_ok u) fs
     \<and> distinct (map content_identity fs)
     \<and> m = \<lparr>sm_uri = u, sm_files = sort_key remote_file_sort_key fs, sm_provider = Gcs\<rparr>"
proof -
  let ?s = "sort_key remote_file_sort_key fs"
  have m: "mset (map content_identity ?s) = mset (map content_identity fs)" by simp
  have d: "distinct (map content_identity ?s) = distinct (map content_identity fs)"
    using m by (metis mset_eq_imp_distinct_iff)
  show ?thesis
    unfolding make_manifest_def
    by (auto simp: ok_iff Let_def check_entries_ok d list_all_iff split: option.splits if_splits)
qed

lemma entry_okD:
  assumes "entry_ok host_ok u f"
  shows "remote_provider host_ok (rf_uri f) = Inr (Some Gcs)" "\<not> blank (rf_generation f)"
    "rf_updated f \<noteq> Some (Naive t)" "belongs_to_source host_ok u (rf_uri f) = Inr True"
  using assms by (auto simp: entry_ok_def check_entry_def ok_iff)

end
