(* ===== verification/Modified_Time.thy ===== *)
theory Modified_Time
  imports Complex_Main Calendar Source_Models
begin

text \<open>
  Model of \<^verbatim>\<open>pipeline/modified_time.py\<close>: UTC windows, the selection of remote files
  by modification time, and the grouping of one listing into windows by binary
  search.  The listing itself is an argument.
\<close>

section \<open>Windows\<close>

definition aware_utc :: "string \<Rightarrow> stamp \<Rightarrow> int result" where
  "aware_utc field_name v =
     (case v of Naive _ \<Rightarrow> Inl (ValueError (field_name @ '' must be timezone-aware'')) | Aware _ \<Rightarrow> astimezone_utc v)"

record utc_window =
  tw_start :: int
  tw_end :: int

definition make_window :: "stamp \<Rightarrow> stamp \<Rightarrow> utc_window result" where
  "make_window s e =
     rbind (aware_utc ''start'' s) (\<lambda>a. rbind (aware_utc ''end'' e) (\<lambda>b.
       if a \<ge> b then Inl (ValueError ''UTC window start must be earlier than end'')
       else Inr \<lparr>tw_start = a, tw_end = b\<rparr>))"

definition window_contains :: "utc_window \<Rightarrow> stamp \<Rightarrow> bool result" where
  "window_contains w v = rlift (\<lambda>t. tw_start w \<le> t \<and> t < tw_end w) (aware_utc ''value'' v)"

text \<open>\<open>datetime.combine(day, time.min, tzinfo=UTC)\<close> through the ordinal of the day.\<close>

definition days_before_year :: "int \<Rightarrow> int" where
  "days_before_year y = (y - 1) * 365 + (y - 1) div 4 - (y - 1) div 100 + (y - 1) div 400"

definition days_before_month :: "nat \<Rightarrow> nat \<Rightarrow> nat" where
  "days_before_month y m = sum_list (map (days_in_month y) [1..<m])"

definition ordinal :: "date \<Rightarrow> int" where
  "ordinal d = days_before_year (int (year d)) + int (days_before_month (year d) (month d)) + int (day d)"

definition day_start :: "date \<Rightarrow> int" where
  "day_start d = (ordinal d - 1) * DAY_US"

definition day_window :: "date \<Rightarrow> utc_window result" where
  "day_window d =
     (let s = day_start d in
      if s + DAY_US \<ge> MAX_US then Inl (OverflowError ''date value out of range'')
      else make_window (Aware s) (Aware (s + DAY_US)))"

definition build_utc_daily_windows :: "date \<Rightarrow> date \<Rightarrow> utc_window list result" where
  "build_utc_daily_windows start_date end_date =
     (if start_date > end_date then Inl (ValueError ''start_date must be on or before end_date'')
      else case day_range start_date end_date of
             (days, err) \<Rightarrow> rbind (rmap day_window days) (\<lambda>ws. case err of None \<Rightarrow> Inr ws | Some e \<Rightarrow> Inl e))"

section \<open>Selection\<close>

fun select_loop :: "utc_window \<Rightarrow> remote_file list \<Rightarrow> remote_file list result" where
  "select_loop w [] = Inr []"
| "select_loop w (f # fs) =
     (case rf_updated f of
        None \<Rightarrow> Inl (ValueError ''remote object has no modification time'')
      | Some v \<Rightarrow>
          rbind (window_contains w v) (\<lambda>inside.
          rlift (\<lambda>selected. if inside then f # selected else selected) (select_loop w fs)))"

definition select_remote_files_by_modified_time :: "remote_file list \<Rightarrow> utc_window \<Rightarrow> remote_file list result" where
  "select_remote_files_by_modified_time files w = rlift (sort_key remote_file_sort_key) (select_loop w files)"

section \<open>Grouping by binary search\<close>

definition validated_windows :: "utc_window list \<Rightarrow> utc_window list result" where
  "validated_windows windows =
     (let ordered = sort_key (\<lambda>w. (tw_start w, tw_end w)) windows in
      if list_ex (\<lambda>(previous, current). tw_start current < tw_end previous) (zip ordered (tl ordered))
      then Inl (ValueError ''modified-time planning windows must not overlap'') else Inr ordered)"

function bisect_loop :: "int list \<Rightarrow> int \<Rightarrow> nat \<Rightarrow> nat \<Rightarrow> nat" where
  "bisect_loop a x lo hi =
     (if lo < hi
      then let mid = (lo + hi) div 2 in
           if x < a ! mid then bisect_loop a x lo mid else bisect_loop a x (mid + 1) hi
      else lo)"
  by pat_completeness auto
termination
  by (relation "measure (\<lambda>(a, x, lo, hi). hi - lo)") auto

definition bisect_right :: "int list \<Rightarrow> int \<Rightarrow> nat" where
  "bisect_right a x = bisect_loop a x 0 (length a)"

fun assign_files ::
  "utc_window list \<Rightarrow> (string \<times> string option) set \<Rightarrow> remote_file list list \<Rightarrow> remote_file list \<Rightarrow> remote_file list list result" where
  "assign_files windows identities buckets [] = Inr buckets"
| "assign_files windows identities buckets (f # fs) =
     (case rf_updated f of
        None \<Rightarrow> Inl (ValueError ''remote object has no modification time'')
      | Some v \<Rightarrow>
          rbind (aware_utc ''updated'' v) (\<lambda>updated.
          if content_identity f \<in> identities
          then Inl (ValueError ''listing contains duplicate content identity'')
          else let index = int (bisect_right (map tw_start windows) updated) - 1 in
               assign_files windows (insert (content_identity f) identities)
                 (if index \<ge> 0 \<and> updated < tw_end (windows ! nat index)
                  then buckets[nat index := buckets ! nat index @ [f]] else buckets) fs))"

section \<open>Plans\<close>

record window_plan =
  wp_uri :: string
  wp_window :: utc_window
  wp_manifest :: source_manifest
  wp_discovery :: rat

fun members_inside :: "utc_window \<Rightarrow> remote_file list \<Rightarrow> unit result" where
  "members_inside w [] = Inr ()"
| "members_inside w (f # fs) =
     rbind (case rf_updated f of None \<Rightarrow> Inr False | Some v \<Rightarrow> window_contains w v) (\<lambda>inside.
     if \<not> inside then Inl (ValueError ''source manifest contains an object outside its modified-time window'')
     else members_inside w fs)"

definition make_window_plan :: "string \<Rightarrow> utc_window \<Rightarrow> source_manifest \<Rightarrow> rat \<Rightarrow> window_plan result" where
  "make_window_plan source_uri w manifest seconds =
     (if sm_uri manifest \<noteq> source_uri
      then Inl (ValueError ''source manifest URI does not match the window plan URI'')
      else rlift (\<lambda>_. \<lparr>wp_uri = source_uri, wp_window = w, wp_manifest = manifest, wp_discovery = max seconds 0\<rparr>)
        (members_inside w (sm_files manifest)))"

fun build_plans ::
  "(string \<Rightarrow> bool) \<Rightarrow> string \<Rightarrow> bool \<Rightarrow> rat \<Rightarrow> (utc_window \<times> remote_file list) list \<Rightarrow> window_plan list result" where
  "build_plans host_ok source_uri include_empty elapsed [] = Inr []"
| "build_plans host_ok source_uri include_empty elapsed ((w, bucket) # rest) =
     (if bucket = [] \<and> \<not> include_empty then build_plans host_ok source_uri include_empty elapsed rest
      else rbind (make_manifest host_ok source_uri bucket) (\<lambda>manifest.
           rbind (make_window_plan source_uri w manifest elapsed) (\<lambda>plan.
           rlift (Cons plan) (build_plans host_ok source_uri include_empty 0 rest))))"

definition plan_from_listing ::
  "(string \<Rightarrow> bool) \<Rightarrow> string \<Rightarrow> remote_file list \<Rightarrow> utc_window list \<Rightarrow> bool \<Rightarrow> rat \<Rightarrow> window_plan list result" where
  "plan_from_listing host_ok source_uri files windows include_empty discovery_seconds =
     (if strip source_uri = [] then Inl (ValueError ''source_uri must be a non-empty string'')
      else rbind (validated_windows windows) (\<lambda>ordered.
        if ordered = [] then Inr []
        else rbind (assign_files ordered {} (map (\<lambda>_. []) ordered) files) (\<lambda>buckets.
             build_plans host_ok source_uri include_empty (max discovery_seconds 0) (zip ordered buckets))))"

definition plan_listed_gcs_files ::
  "(string \<Rightarrow> bool) \<Rightarrow> string \<Rightarrow> remote_file list \<Rightarrow> date \<Rightarrow> date \<Rightarrow> bool \<Rightarrow> rat \<Rightarrow> window_plan list result" where
  "plan_listed_gcs_files host_ok source_uri files start_date end_date include_empty seconds =
     (if list_ex (\<lambda>f. rf_generation f = None \<or> rf_generation f = Some []) files
      then Inl (ValueError ''GCS modified-time planning requires an immutable object generation'')
      else rbind (build_utc_daily_windows start_date end_date) (\<lambda>windows.
           plan_from_listing host_ok source_uri files windows include_empty seconds))"

definition validate_gcs_prefix :: "(string \<Rightarrow> bool) \<Rightarrow> string \<Rightarrow> unit result" where
  "validate_gcs_prefix host_ok source_uri =
     rbind (remote_provider host_ok source_uri) (\<lambda>p.
       guard_raise (p \<noteq> Some Gcs) (ValueError ''modified-time prefix planning currently supports only GCS URIs''))"

definition plan_gcs_modified_time_windows ::
  "(string \<Rightarrow> bool) \<Rightarrow> string \<Rightarrow> date \<Rightarrow> date \<Rightarrow> remote_file list result \<Rightarrow> bool \<Rightarrow> rat \<Rightarrow> window_plan list result" where
  "plan_gcs_modified_time_windows host_ok source_uri start_date end_date listing include_empty seconds =
     rbind (validate_gcs_prefix host_ok source_uri) (\<lambda>_.
     rbind listing (\<lambda>files.
       plan_listed_gcs_files host_ok source_uri files start_date end_date include_empty (max seconds 0)))"


declare bisect_loop.simps [simp del]

section \<open>Binary search\<close>

lemma bisect_loop_spec:
  assumes "sorted a" "lo \<le> hi" "hi \<le> length a" "\<forall>i<lo. a ! i \<le> x" "\<forall>i. hi \<le> i \<and> i < length a \<longrightarrow> x < a ! i"
  shows "bisect_loop a x lo hi \<le> length a \<and> (\<forall>i<bisect_loop a x lo hi. a ! i \<le> x)
    \<and> (\<forall>i. bisect_loop a x lo hi \<le> i \<and> i < length a \<longrightarrow> x < a ! i)"
  using assms
proof (induction a x lo hi rule: bisect_loop.induct)
  case (1 a x lo hi)
  show ?case
  proof (cases "lo < hi")
    case False
    then show ?thesis using "1.prems" by (simp add: bisect_loop.simps [of a])
  next
    case True
    define mid where "mid = (lo + hi) div 2"
    have mid: "lo \<le> mid" "mid < hi" using True by (auto simp: mid_def)
    show ?thesis
    proof (cases "x < a ! mid")
      case less: True
      have "x < a ! i" if "mid \<le> i" "i < length a" for i
        using sorted_nth_mono [OF "1.prems"(1) that] less by simp
      then have "\<forall>i. mid \<le> i \<and> i < length a \<longrightarrow> x < a ! i" by blast
      moreover have "bisect_loop a x lo hi = bisect_loop a x lo mid"
        using True less unfolding bisect_loop.simps [of a x lo hi] Let_def mid_def by simp
      moreover have "mid \<le> length a" using mid "1.prems"(3) by simp
      ultimately show ?thesis using "1.IH"(1) [OF True mid_def less "1.prems"(1) mid(1) _ "1.prems"(4)] by presburger
    next
      case ge: False
      have "a ! i \<le> x" if "i < mid + 1" for i
        using sorted_nth_mono [OF "1.prems"(1), of i mid] that ge mid "1.prems"(3) by simp
      then have "\<forall>i<mid + 1. a ! i \<le> x" by blast
      moreover have "bisect_loop a x lo hi = bisect_loop a x (mid + 1) hi"
        using True ge unfolding bisect_loop.simps [of a x lo hi] Let_def mid_def by simp
      moreover have "mid + 1 \<le> hi" using mid by simp
      ultimately show ?thesis using "1.IH"(2) [OF True mid_def ge "1.prems"(1) _ "1.prems"(3) _ "1.prems"(5)] by presburger
    qed
  qed
qed

lemma bisect_right_spec:
  assumes "sorted a"
  shows "bisect_right a x \<le> length a" "i < bisect_right a x \<Longrightarrow> a ! i \<le> x"
    "bisect_right a x \<le> i \<Longrightarrow> i < length a \<Longrightarrow> x < a ! i"
  using bisect_loop_spec [OF assms, of 0 "length a" x] by (auto simp: bisect_right_def)

section \<open>Ordered windows\<close>

definition in_window :: "utc_window \<Rightarrow> remote_file \<Rightarrow> bool" where
  "in_window w f \<longleftrightarrow> (case rf_updated f of Some (Aware t) \<Rightarrow> tw_start w \<le> t \<and> t < tw_end w | _ \<Rightarrow> False)"

definition window_ok :: "utc_window \<Rightarrow> bool" where
  "window_ok w \<longleftrightarrow> tw_start w < tw_end w"

definition apart :: "utc_window list \<Rightarrow> bool" where
  "apart ws \<longleftrightarrow> list_all window_ok ws \<and> sorted_wrt (\<lambda>v w. tw_end v \<le> tw_start w) ws"

lemma adjacent_apart:
  "list_all window_ok ws \<Longrightarrow> \<not> list_ex (\<lambda>(p, c). tw_start c < tw_end p) (zip ws (tl ws)) \<Longrightarrow> apart ws"
proof (induction ws)
  case (Cons w ws)
  show ?case
  proof (cases ws)
    case (Cons v vs)
    then have le: "tw_end w \<le> tw_start v" and ap: "apart ws" using "Cons.prems" "Cons.IH" by auto
    moreover have "tw_end w \<le> tw_start u" if "u \<in> set vs" for u
    proof -
      have "tw_end v \<le> tw_start u" "tw_start v < tw_end v"
        using ap Cons that by (auto simp: apart_def window_ok_def)
      then show ?thesis using le by simp
    qed
    ultimately show ?thesis using "Cons.prems" Cons by (auto simp: apart_def)
  qed (use "Cons.prems" in \<open>simp add: apart_def\<close>)
qed (simp add: apart_def)

lemma validated_windows_ok:
  assumes "validated_windows ws = Inr ordered" "list_all window_ok ws"
  shows "apart ordered" "ordered = sort_key (\<lambda>w. (tw_start w, tw_end w)) ws"
proof -
  show o: "ordered = sort_key (\<lambda>w. (tw_start w, tw_end w)) ws"
    using assms(1) by (simp add: validated_windows_def Let_def split: if_splits)
  have "list_all window_ok ordered" using assms(2) by (simp add: o list_all_iff)
  then show "apart ordered" using assms(1) adjacent_apart by (auto simp: validated_windows_def Let_def o split: if_splits)
qed

lemma apart_starts: "apart ws \<Longrightarrow> sorted (map tw_start ws)"
  by (induction ws) (fastforce simp: apart_def window_ok_def list_all_iff)+

lemma bucket_index:
  fixes ws :: "utc_window list" and t :: int
  assumes "apart ws" "j < length ws"
  defines "r \<equiv> bisect_right (map tw_start ws) t"
  shows "(tw_start (ws ! j) \<le> t \<and> t < tw_end (ws ! j)) \<longleftrightarrow> (0 < r \<and> j = r - 1 \<and> t < tw_end (ws ! (r - 1)))"
proof -
  note sp = bisect_right_spec [OF apart_starts [OF assms(1)], where x = t, folded r_def, simplified]
  have step: "tw_end (ws ! i) \<le> tw_start (ws ! k)" if "i < k" "k < length ws" for i k
    using assms(1) that sorted_wrt_nth_less unfolding apart_def by blast
  show ?thesis
  proof
    assume t: "tw_start (ws ! j) \<le> t \<and> t < tw_end (ws ! j)"
    then have jr: "j < r" using sp(3) [of j] assms(2) by (metis not_le nth_map)
    moreover have "\<not> j < r - 1"
    proof
      assume "j < r - 1"
      then have "tw_end (ws ! j) \<le> tw_start (ws ! (r - 1))" "tw_start (ws ! (r - 1)) \<le> t"
        using step [of j "r - 1"] sp(1) sp(2) [of "r - 1"] by auto
      then show False using t by simp
    qed
    ultimately have "0 < r" "j = r - 1" by linarith+
    then show "0 < r \<and> j = r - 1 \<and> t < tw_end (ws ! (r - 1))" using t by simp
  next
    assume "0 < r \<and> j = r - 1 \<and> t < tw_end (ws ! (r - 1))"
    then show "tw_start (ws ! j) \<le> t \<and> t < tw_end (ws ! j)" using sp(2) [of j] assms(2) by auto
  qed
qed


section \<open>Files and buckets\<close>

text \<open>The files a listing may hold: with a modification time that converts to UTC.\<close>

definition dated :: "remote_file \<Rightarrow> bool" where
  "dated f \<longleftrightarrow> (\<exists>t. rf_updated f = Some (Aware t) \<and> 0 \<le> t \<and> t < MAX_US)"

lemma aware_utc_Inr: "aware_utc n v = Inr t \<longleftrightarrow> v = Aware t \<and> 0 \<le> t \<and> t < MAX_US"
  by (auto simp: aware_utc_def astimezone_utc_def split: stamp.splits if_splits)

lemma contains_dated: "rf_updated f = Some (Aware t) \<Longrightarrow> dated f \<Longrightarrow> window_contains w (Aware t) = Inr (in_window w f)"
  by (auto simp: window_contains_def dated_def in_window_def aware_utc_def astimezone_utc_def)

lemma select_loop_ok: "list_all dated fs \<Longrightarrow> select_loop w fs = Inr (filter (in_window w) fs)"
proof (induction fs)
  case (Cons f fs)
  then obtain t where t: "rf_updated f = Some (Aware t)" "dated f" by (auto simp: dated_def)
  then show ?case using contains_dated [OF t] Cons by auto
qed simp

lemma assign_files_ok:
  assumes "apart ws" "length buckets = length ws" "assign_files ws ids buckets fs = Inr out"
  shows "list_all dated fs \<and> distinct (map content_identity fs) \<and> length out = length ws
    \<and> (\<forall>j<length ws. out ! j = buckets ! j @ filter (in_window (ws ! j)) fs)"
  using assms(2,3)
proof (induction fs arbitrary: ids buckets)
  case (Cons f fs)
  obtain v updated where v: "rf_updated f = Some v" "aware_utc ''updated'' v = Inr updated"
    "content_identity f \<notin> ids"
    using Cons.prems(2) by (auto simp: ok_iff split: option.splits if_splits)
  then have t: "rf_updated f = Some (Aware updated)" and d: "dated f" by (auto simp: aware_utc_Inr dated_def)
  define r where "r = bisect_right (map tw_start ws) updated"
  define hit where "hit \<longleftrightarrow> 0 < r \<and> updated < tw_end (ws ! (r - 1))"
  define nb where "nb = (if hit then buckets[r - 1 := buckets ! (r - 1) @ [f]] else buckets)"
  have idx: "(0 \<le> int r - 1 \<and> updated < tw_end (ws ! (r - 1))) = hit" "nat (int r - 1) = r - 1"
    by (auto simp: hit_def nat_diff_distrib)
  have run: "assign_files ws (insert (content_identity f) ids) nb fs = Inr out"
    using Cons.prems(2) v(3)
    unfolding assign_files.simps v(1,2) option.case rbind_Inr Let_def r_def [symmetric] idx nb_def [symmetric] by simp
  have r: "hit \<Longrightarrow> r - 1 < length ws"
    using bisect_right_spec(1) [OF apart_starts [OF assms(1)], of updated] by (auto simp: hit_def r_def)
  have nx: "nb ! j = buckets ! j @ filter (in_window (ws ! j)) [f]" if "j < length ws" for j
    using bucket_index [OF assms(1) that, of updated] Cons.prems(1) r t that
    by (auto simp: nb_def hit_def in_window_def r_def [symmetric] nth_list_update)
  have len: "length nb = length ws" using Cons.prems(1) by (simp add: nb_def)
  note ih = Cons.IH [OF len run]
  have new: "content_identity f \<notin> content_identity ` set fs"
  proof -
    have "assign_files ws ids buckets fs = Inr out \<Longrightarrow> ids \<inter> content_identity ` set fs = {}" for ids buckets fs
      by (induction fs arbitrary: ids buckets) (fastforce simp: ok_iff Let_def split: option.splits if_splits)+
    then show ?thesis using run by blast
  qed
  show ?case using ih nx d new by auto
qed simp

lemma members_inside_ok: "list_all dated fs \<Longrightarrow> members_inside w fs = Inr u \<longleftrightarrow> list_all (in_window w) fs"
proof (induction fs)
  case (Cons f fs)
  then obtain t where t: "rf_updated f = Some (Aware t)" "dated f" by (auto simp: dated_def)
  then show ?case using contains_dated [OF t] Cons by auto
qed simp

lemma build_plans_ok:
  assumes "build_plans host_ok u include elapsed wbs = Inr plans"
  shows "map (\<lambda>p. (wp_window p, sm_files (wp_manifest p))) plans
    = map (\<lambda>(w, b). (w, sort_key remote_file_sort_key b)) (filter (\<lambda>(w, b). include \<or> b \<noteq> []) wbs)"
  using assms
proof (induction wbs arbitrary: elapsed plans)
  case (Cons wb wbs)
  obtain w b where wb: "wb = (w, b)" by (cases wb)
  show ?case
  proof (cases "b = [] \<and> \<not> include")
    case True
    then show ?thesis using Cons wb by auto
  next
    case False
    then obtain m p rest where "make_manifest host_ok u b = Inr m" "make_window_plan u w m elapsed = Inr p"
      "build_plans host_ok u include 0 wbs = Inr rest" "plans = p # rest"
      using Cons.prems wb by (auto simp: ok_iff)
    moreover from this have "wp_window p = w" "sm_files (wp_manifest p) = sort_key remote_file_sort_key b"
      by (auto simp: make_window_plan_def make_manifest_ok ok_iff split: if_splits)
    ultimately show ?thesis using Cons.IH wb False by auto
  qed
qed simp


lemma grouping_shape:
  assumes "plan_from_listing host_ok u files ws inc sec = Inr plans" "list_all window_ok ws"
  obtains ordered where "validated_windows ws = Inr ordered" "apart ordered"
    "ordered \<noteq> [] \<longrightarrow> list_all dated files \<and> distinct (map content_identity files)"
    "map (\<lambda>p. (wp_window p, sm_files (wp_manifest p))) plans
      = filter (\<lambda>(w, fs). inc \<or> fs \<noteq> []) (map (\<lambda>w. (w, sort_key remote_file_sort_key (filter (in_window w) files))) ordered)"
proof -
  obtain ordered where o: "validated_windows ws = Inr ordered"
    and rest: "ordered \<noteq> [] \<Longrightarrow> \<exists>buckets. assign_files ordered {} (map (\<lambda>_. []) ordered) files = Inr buckets
        \<and> build_plans host_ok u inc (max sec 0) (zip ordered buckets) = Inr plans"
    and none: "ordered = [] \<Longrightarrow> plans = []"
    using assms(1) by (auto simp: plan_from_listing_def ok_iff split: if_splits)
  note ap = validated_windows_ok(1) [OF o assms(2)]
  show thesis
  proof (cases "ordered = []")
    case True
    then show ?thesis using that [OF o ap] none by simp
  next
    case False
    then obtain buckets where b: "assign_files ordered {} (map (\<lambda>_. []) ordered) files = Inr buckets"
      "build_plans host_ok u inc (max sec 0) (zip ordered buckets) = Inr plans" using rest by blast
    have a: "list_all dated files" "distinct (map content_identity files)" "length buckets = length ordered"
      "\<And>j. j < length ordered \<Longrightarrow> buckets ! j = filter (in_window (ordered ! j)) files"
      using assign_files_ok [OF ap _ b(1)] by auto
    have "zip ordered buckets = map (\<lambda>w. (w, filter (in_window w) files)) ordered"
      using a(3,4) by (intro nth_equalityI) auto
    then have "map (\<lambda>p. (wp_window p, sm_files (wp_manifest p))) plans
        = map (\<lambda>(w, b). (w, sort_key remote_file_sort_key b))
            (filter (\<lambda>(w, b). inc \<or> b \<noteq> []) (map (\<lambda>w. (w, filter (in_window w) files)) ordered))"
      using build_plans_ok [OF b(2)] by simp
    also have "\<dots> = filter (\<lambda>(w, fs). inc \<or> fs \<noteq> [])
        (map (\<lambda>w. (w, sort_key remote_file_sort_key (filter (in_window w) files))) ordered)"
    proof (induction ordered)
      case (Cons w ws)
      have "sort_key remote_file_sort_key fs = [] \<longleftrightarrow> fs = []" for fs by (metis length_0_conv length_sort)
      then show ?case using Cons by (cases inc) simp_all
    qed simp
    finally show ?thesis using that [OF o ap] a(1,2) by blast
  qed
qed

lemma buckets_disjoint:
  assumes "apart ws" "distinct (map content_identity files)"
  shows "distinct (map content_identity (concat (map (\<lambda>w. sort_key k (filter (in_window w) files)) ws)))"
  using assms(1)
proof (induction ws)
  case (Cons w ws)
  have inj: "f = g" if "f \<in> set files" "g \<in> set files" "content_identity f = content_identity g" for f g
    using assms(2) that by (auto simp: distinct_map inj_on_def)
  have "\<not> (in_window w f \<and> in_window v f)" if "v \<in> set ws" for v f
    using Cons.prems that by (fastforce simp: apart_def in_window_def split: option.splits stamp.splits)
  moreover have "distinct (map content_identity (sort_key k (filter (in_window w) files)))"
  proof -
    have "mset (map content_identity (sort_key k (filter (in_window w) files))) = mset (map content_identity (filter (in_window w) files))"
      by simp
    then show ?thesis using distinct_map_filter [OF assms(2)] by (metis mset_eq_imp_distinct_iff)
  qed
  moreover have "apart ws" using Cons.prems by (simp add: apart_def)
  ultimately show ?case using Cons.IH inj by (fastforce simp: image_iff)
qed simp

lemma plans_disjoint:
  assumes "apart ordered" "ordered \<noteq> [] \<longrightarrow> list_all dated files \<and> distinct (map content_identity files)"
    "map (\<lambda>p. (wp_window p, sm_files (wp_manifest p))) plans
      = filter (\<lambda>(w, fs). inc \<or> fs \<noteq> []) (map (\<lambda>w. (w, sort_key remote_file_sort_key (filter (in_window w) files))) ordered)"
  shows "distinct (map content_identity (concat (map (\<lambda>p. sm_files (wp_manifest p)) plans)))"
proof (cases "ordered = []")
  case False
  have "concat (map snd (filter (\<lambda>(w, fs). inc \<or> fs \<noteq> []) xs)) = concat (map snd xs)"
    for xs :: "(utc_window \<times> remote_file list) list" by (induction xs) auto
  then have c: "concat (map (\<lambda>p. sm_files (wp_manifest p)) plans)
      = concat (map (\<lambda>w. sort_key remote_file_sort_key (filter (in_window w) files)) ordered)"
    using arg_cong [OF assms(3), of "\<lambda>xs. concat (map snd xs)"] by (simp add: comp_def)
  show ?thesis unfolding c by (rule buckets_disjoint [OF assms(1)]) (use assms(2) False in simp)
qed (use assms(3) in simp)

text \<open>
  C24: grouping a listing by binary search is selecting per window.  Whenever planning
  succeeds, its plans are, in the order of the windows, exactly the windows with
  the files that \<^verbatim>\<open>select_remote_files_by_modified_time\<close> selects for each of them,
  empty ones only on request, and no object is in two plans.
\<close>

theorem grouping_is_selection:
  assumes "plan_from_listing host_ok u files ws inc sec = Inr plans" "list_all window_ok ws"
  obtains ordered selections where "validated_windows ws = Inr ordered"
    "ordered \<noteq> [] \<longrightarrow> rmap (select_remote_files_by_modified_time files) ordered = Inr selections"
    "ordered = [] \<longrightarrow> selections = []"
    "map (\<lambda>p. (wp_window p, sm_files (wp_manifest p))) plans = filter (\<lambda>(w, fs). inc \<or> fs \<noteq> []) (zip ordered selections)"
    "distinct (map content_identity (concat (map (\<lambda>p. sm_files (wp_manifest p)) plans)))"
proof -
  obtain ordered where o: "validated_windows ws = Inr ordered" "apart ordered"
    and d: "ordered \<noteq> [] \<longrightarrow> list_all dated files \<and> distinct (map content_identity files)"
    and m: "map (\<lambda>p. (wp_window p, sm_files (wp_manifest p))) plans
      = filter (\<lambda>(w, fs). inc \<or> fs \<noteq> []) (map (\<lambda>w. (w, sort_key remote_file_sort_key (filter (in_window w) files))) ordered)"
    by (rule grouping_shape [OF assms])
  define sel where "sel = map (\<lambda>w. sort_key remote_file_sort_key (filter (in_window w) files)) ordered"
  have "rmap (select_remote_files_by_modified_time files) ordered = Inr sel" if "ordered \<noteq> []"
    using select_loop_ok d that by (simp add: rmap_eq_Inr select_remote_files_by_modified_time_def sel_def)
  moreover have z: "zip ordered sel = map (\<lambda>w. (w, sort_key remote_file_sort_key (filter (in_window w) files))) ordered"
    unfolding sel_def by (induction ordered) simp_all
  moreover note plans_disjoint [OF o(2) d m]
  ultimately show thesis
    by (intro that [of ordered sel]) (use o(1) m in \<open>simp_all add: sel_def\<close>)
qed

section \<open>Days\<close>

lemma days_before_month_Suc: "1 \<le> m \<Longrightarrow> days_before_month y (Suc m) = days_before_month y m + days_in_month y m"
  by (simp add: days_before_month_def)

lemma days_before_december: "days_before_month y 12 = (if is_leap y then 335 else 334)"
proof -
  have u: "[1..<12] = [1, 2, 3, 4, 5, 6, 7, 8, 9, 10, 11 :: nat]" by code_simp
  show ?thesis unfolding days_before_month_def u by (simp add: days_in_month_def)
qed

lemma div_pred:
  assumes "0 < (k :: int)"
  shows "z div k - (z - 1) div k = (if z mod k = 0 then 1 else 0)"
proof (cases "z mod k = 0")
  case True
  then have "z - 1 = k * (z div k - 1) + (k - 1)" using mult_div_mod_eq [of k z] by (simp add: algebra_simps)
  then have "(z - 1) div k = z div k - 1" by (rule int_div_pos_eq) (use assms in simp_all)
  then show ?thesis using True by simp
next
  case False
  then have r: "0 < z mod k" "z mod k < k" using pos_mod_sign [OF assms, of z] pos_mod_bound [OF assms, of z] by linarith+
  have "z - 1 = k * (z div k) + (z mod k - 1)" using mult_div_mod_eq [of k z] by simp
  then have "(z - 1) div k = z div k" by (rule int_div_pos_eq) (use r in simp_all)
  then show ?thesis using False by simp
qed

lemma leap_sum:
  "(B \<longrightarrow> A) \<Longrightarrow> (C \<longrightarrow> B) \<Longrightarrow> 365 + (if A then 1 else 0) - (if B then 1 else 0) + (if C then 1 else 0)
     = (if A \<and> (\<not> B \<or> C) then 366 else 365 :: int)"
  by (cases A; cases B; cases C) simp_all

lemma days_before_year_Suc:
  assumes "1 \<le> y"
  shows "days_before_year (int (Suc y)) = days_before_year (int y) + (if is_leap y then 366 else 365)"
proof -
  define z where "z = int y"
  have q: "z div 4 - (z - 1) div 4 = (if z mod 4 = 0 then 1 else 0)"
    "z div 100 - (z - 1) div 100 = (if z mod 100 = 0 then 1 else 0)"
    "z div 400 - (z - 1) div 400 = (if z mod 400 = 0 then 1 else 0)" by (rule div_pred, simp)+
  have "int y mod 4 = int (y mod 4)" "int y mod 100 = int (y mod 100)" "int y mod 400 = int (y mod 400)"
    by (simp_all add: zmod_int)
  then have l: "is_leap y \<longleftrightarrow> z mod 4 = 0 \<and> (z mod 100 \<noteq> 0 \<or> z mod 400 = 0)"
    unfolding is_leap_def z_def by simp
  have "4 dvd (100 :: int)" "100 dvd (400 :: int)" by simp_all
  then have imp: "z mod 100 = 0 \<longrightarrow> z mod 4 = 0" "z mod 400 = 0 \<longrightarrow> z mod 100 = 0"
    unfolding mod_eq_0_iff_dvd by (blast intro: dvd_trans)+
  have e: "int (Suc y) - 1 = z" by (simp add: z_def)
  have g: "z * 365 + a - b + c - ((z - 1) * 365 + a' - b' + c') = 365 + (a - a') - (b - b') + (c - c')"
    for a b c a' b' c' :: int by simp
  have "days_before_year (int (Suc y)) - days_before_year z
      = 365 + (z div 4 - (z - 1) div 4) - (z div 100 - (z - 1) div 100) + (z div 400 - (z - 1) div 400)"
    unfolding days_before_year_def e by (rule g)
  then have "days_before_year (int (Suc y)) - days_before_year z = (if is_leap y then 366 else 365)"
    unfolding q l by (simp only: leap_sum [OF imp])
  then show ?thesis unfolding z_def by simp
qed

lemma next_day_start:
  assumes "valid_date d" "next_day d = Inr e"
  shows "day_start e = day_start d + DAY_US"
proof -
  have "ordinal e = ordinal d + 1"
  proof (cases "day d < days_in_month (year d) (month d)")
    case True
    then show ?thesis using assms(2) by (auto simp: next_day_def ordinal_def)
  next
    case False
    then have dm: "day d = days_in_month (year d) (month d)" using assms(1) by (auto simp: valid_date_def)
    show ?thesis
    proof (cases "month d < 12")
      case True
      then show ?thesis using assms False dm by (auto simp: next_day_def ordinal_def days_before_month_Suc valid_date_def)
    next
      case m: False
      then have "month d = 12" "e = Date (year d + 1) 1 1" using assms False by (auto simp: next_day_def valid_date_def split: if_splits)
      moreover have "days_before_month (Suc (year d)) 1 = 0" by (simp add: days_before_month_def)
      ultimately show ?thesis
        using dm days_before_year_Suc [of "year d"] assms(1) days_before_december [of "year d"]
        by (auto simp: ordinal_def valid_date_def days_in_month_def)
    qed
  qed
  then show ?thesis by (simp add: day_start_def algebra_simps)
qed

lemma day_range_covers:
  assumes "valid_date d" "valid_date e" "d \<le> e" "day_start d \<le> t" "t < day_start e + DAY_US"
  shows "\<exists>x\<in>set (fst (day_range d e)). day_start x \<le> t \<and> t < day_start x + DAY_US"
  using assms
proof (induction d e rule: day_range.induct)
  case (1 d e)
  have le: "\<not> e < d" using "1.prems"(3) by simp
  show ?case
  proof (cases "next_day d")
    case (Inl err)
    then have "e = d" using next_day_last [OF "1.prems"(1) Inl "1.prems"(2)] "1.prems"(3) by simp
    then show ?thesis using le Inl "1.prems" by (simp add: day_range.simps [of d])
  next
    case (Inr d')
    have mem: "set (fst (day_range d e)) = insert d (set (fst (day_range d' e)))"
      using le Inr by (simp add: day_range.simps [of d] split: prod.splits)
    note v = next_day_valid [OF "1.prems"(1) Inr] and s = next_day_start [OF "1.prems"(1) Inr]
    show ?thesis
    proof (cases "t < day_start d + DAY_US")
      case True
      then show ?thesis using mem "1.prems"(4) by auto
    next
      case False
      then have "e \<noteq> d" using "1.prems"(5) by auto
      then have "d' \<le> e" using next_day_least [OF "1.prems"(1) Inr "1.prems"(2)] "1.prems"(3) by simp
      then show ?thesis using "1.IH" [OF le Inr] v s False "1.prems"(2,5) mem by auto
    qed
  qed
qed

lemma daily_windows_ok:
  assumes "build_utc_daily_windows sd ed = Inr ws"
  shows "sd \<le> ed" "ws = map (\<lambda>d. \<lparr>tw_start = day_start d, tw_end = day_start d + DAY_US\<rparr>) (fst (day_range sd ed))"
    "list_all window_ok ws"
proof -
  obtain days err where r: "day_range sd ed = (days, err)" by fastforce
  have w: "day_window d = Inr v \<Longrightarrow> v = \<lparr>tw_start = day_start d, tw_end = day_start d + DAY_US\<rparr>" for d v
    by (auto simp: day_window_def make_window_def aware_utc_Inr ok_iff Let_def split: if_splits)
  show "sd \<le> ed" using assms by (auto simp: build_utc_daily_windows_def split: if_splits)
  have "rmap day_window days = Inr ws"
    using assms r by (auto simp: build_utc_daily_windows_def ok_iff split: if_splits option.splits)
  then show ws: "ws = map (\<lambda>d. \<lparr>tw_start = day_start d, tw_end = day_start d + DAY_US\<rparr>) (fst (day_range sd ed))"
    using w r by (auto simp: rmap_eq_Inr intro!: nth_equalityI)
  show "list_all window_ok ws" by (simp add: ws list_all_iff window_ok_def DAY_US_def)
qed

lemma distinct_concat_unique:
  "distinct (map g (concat (map F ps))) \<Longrightarrow> p \<in> set ps \<Longrightarrow> q \<in> set ps \<Longrightarrow> x \<in> set (F p) \<Longrightarrow> x \<in> set (F q) \<Longrightarrow> p = q"
proof (induction ps)
  case (Cons a ps)
  have "g ` set (F a) \<inter> g ` set (concat (map F ps)) = {}" "distinct (map g (concat (map F ps)))"
    using Cons.prems(1) by simp_all
  then have "x \<in> set (F a) \<Longrightarrow> r \<in> set ps \<Longrightarrow> x \<notin> set (F r)" for r by auto
  then show ?case using Cons by auto
qed simp

lemma plan_members:
  assumes "map (\<lambda>p. (wp_window p, sm_files (wp_manifest p))) plans
      = filter P (map (\<lambda>w. (w, sort_key remote_file_sort_key (filter (in_window w) files))) ordered)"
    and "p \<in> set plans" "g \<in> set (sm_files (wp_manifest p))"
  shows "g \<in> set files \<and> in_window (wp_window p) g"
proof -
  have "(wp_window p, sm_files (wp_manifest p)) \<in> set (map (\<lambda>p. (wp_window p, sm_files (wp_manifest p))) plans)"
    using assms(2) by auto
  then obtain w where "wp_window p = w" "sm_files (wp_manifest p) = sort_key remote_file_sort_key (filter (in_window w) files)"
    unfolding assms(1) by auto
  then show ?thesis using assms(3) by simp
qed

text \<open>
  C12: daily planning loses no object.  When the plan of a GCS prefix for a range of
  days succeeds, every listed object modified between the first instant of the first
  day and the end of the last day is in exactly one plan, the one of its UTC day,
  and every object of a plan is a listed one modified on the day of the plan.
\<close>

theorem daily_plan_is_exact:
  assumes "plan_gcs_modified_time_windows host_ok u sd ed (Inr files) inc sec = Inr plans" "valid_date sd" "valid_date ed"
    "f \<in> set files" "rf_updated f = Some (Aware t)" "day_start sd \<le> t" "t < day_start ed + DAY_US"
  shows "(\<exists>!p. p \<in> set plans \<and> f \<in> set (sm_files (wp_manifest p)))
    \<and> (\<exists>p d. p \<in> set plans \<and> f \<in> set (sm_files (wp_manifest p)) \<and> sd \<le> d \<and> d \<le> ed \<and> day_start d \<le> t
        \<and> wp_window p = \<lparr>tw_start = day_start d, tw_end = day_start d + DAY_US\<rparr>)
    \<and> (\<forall>p g. p \<in> set plans \<and> g \<in> set (sm_files (wp_manifest p)) \<longrightarrow> g \<in> set files \<and> in_window (wp_window p) g)"
proof -
  obtain ws where b: "build_utc_daily_windows sd ed = Inr ws"
    and pl: "plan_from_listing host_ok u files ws inc (max sec 0) = Inr plans"
    using assms(1) by (auto simp: plan_gcs_modified_time_windows_def plan_listed_gcs_files_def ok_iff split: if_splits)
  note dw = daily_windows_ok [OF b]
  obtain ordered where o: "validated_windows ws = Inr ordered" "apart ordered"
    and d: "ordered \<noteq> [] \<longrightarrow> list_all dated files \<and> distinct (map content_identity files)"
    and m: "map (\<lambda>p. (wp_window p, sm_files (wp_manifest p))) plans
      = filter (\<lambda>(w, fs). inc \<or> fs \<noteq> []) (map (\<lambda>w. (w, sort_key remote_file_sort_key (filter (in_window w) files))) ordered)"
    by (rule grouping_shape [OF pl dw(3)])
  obtain x where x: "x \<in> set (fst (day_range sd ed))" "day_start x \<le> t" "t < day_start x + DAY_US"
    using day_range_covers [OF assms(2,3) dw(1) assms(6,7)] by blast
  let ?w = "\<lparr>tw_start = day_start x, tw_end = day_start x + DAY_US\<rparr>"
  let ?fs = "sort_key remote_file_sort_key (filter (in_window ?w) files)"
  have "?w \<in> set ordered" using x(1) dw(2) validated_windows_ok(2) [OF o(1) dw(3)] by simp
  moreover have f: "f \<in> set ?fs" using assms(4,5) x(2,3) by (simp add: in_window_def)
  moreover have "?fs \<noteq> []" using f by (metis list.set_intros(1) empty_iff empty_set)
  ultimately have "(?w, ?fs) \<in> set (map (\<lambda>p. (wp_window p, sm_files (wp_manifest p))) plans)"
    unfolding m by (simp only: set_filter set_map) auto
  then obtain p where q: "p \<in> set plans" "(?w, ?fs) = (wp_window p, sm_files (wp_manifest p))" unfolding set_map by blast
  have e: "sm_files (wp_manifest p) = ?fs" "wp_window p = ?w" using q(2) by (metis prod.inject)+
  have p: "p \<in> set plans" "wp_window p = ?w" "f \<in> set (sm_files (wp_manifest p))" using q(1) e(2) f unfolding e(1) by blast+
  have "distinct (map content_identity (concat (map (\<lambda>p. sm_files (wp_manifest p)) plans)))"
    by (rule plans_disjoint [OF o(2) d m])
  then have "q = p" if "q \<in> set plans" "f \<in> set (sm_files (wp_manifest q))" for q
    using distinct_concat_unique [of content_identity "\<lambda>p. sm_files (wp_manifest p)" plans q p f] that p(1,3) by blast
  moreover have "sd \<le> x" "x \<le> ed" using day_range_spec [OF assms(2), of ed] x(1) by auto
  moreover have "g \<in> set files \<and> in_window (wp_window q) g" if "q \<in> set plans" "g \<in> set (sm_files (wp_manifest q))" for q g
    using plan_members [OF m that] by blast
  ultimately show ?thesis using p x(2) by blast
qed

definition sample_file :: remote_file where
  "sample_file =
     \<lparr>rf_uri = ''gs://b/p/a.csv'', rf_name = ''a.csv'', rf_size = Some 3, rf_updated = Some (Aware (day_start (Date 2024 1 2) + 5)),
      rf_time_created = None, rf_generation = Some ''1'', rf_metageneration = None, rf_etag = None, rf_crc32c = None\<rparr>"

lemma sample_planned:
  "is_ok (plan_gcs_modified_time_windows (\<lambda>_. True) ''gs://b/p'' (Date 2024 1 1) (Date 2024 1 3) (Inr [sample_file]) False 0)"
  by code_simp


theorem daily_plan_is_exact_witness:
  "\<exists>plans. plan_gcs_modified_time_windows (\<lambda>_. True) ''gs://b/p'' (Date 2024 1 1) (Date 2024 1 3) (Inr [sample_file]) False 0 = Inr plans
     \<and> (\<exists>!p. p \<in> set plans \<and> sample_file \<in> set (sm_files (wp_manifest p)))"
proof -
  obtain plans where
    p: "plan_gcs_modified_time_windows (\<lambda>_. True) ''gs://b/p'' (Date 2024 1 1) (Date 2024 1 3) (Inr [sample_file]) False 0 = Inr plans"
    using sample_planned by (auto simp: is_ok_def split: sum.splits)
  have v: "valid_date (Date 2024 1 1)" "valid_date (Date 2024 1 3)" by code_simp+
  have t: "day_start (Date 2024 1 1) \<le> day_start (Date 2024 1 2) + 5"
    "day_start (Date 2024 1 2) + 5 < day_start (Date 2024 1 3) + DAY_US" by code_simp+
  have "rf_updated sample_file = Some (Aware (day_start (Date 2024 1 2) + 5))" by (simp add: sample_file_def)
  from daily_plan_is_exact [OF p v _ this t] show ?thesis using p by simp
qed

definition sample_windows :: "utc_window list" where
  "sample_windows =
     [\<lparr>tw_start = day_start (Date 2024 1 3), tw_end = day_start (Date 2024 1 3) + 7\<rparr>,
      \<lparr>tw_start = day_start (Date 2024 1 2), tw_end = day_start (Date 2024 1 3)\<rparr>]"

lemma sample_grouped: "is_ok (plan_from_listing (\<lambda>_. True) ''gs://b/p'' [sample_file] sample_windows True 0)"
  by code_simp

theorem grouping_is_selection_witness:
  "\<exists>plans ordered selections. plan_from_listing (\<lambda>_. True) ''gs://b/p'' [sample_file] sample_windows True 0 = Inr plans
     \<and> validated_windows sample_windows = Inr ordered
     \<and> map (\<lambda>p. (wp_window p, sm_files (wp_manifest p))) plans = zip ordered selections"
proof -
  obtain plans where p: "plan_from_listing (\<lambda>_. True) ''gs://b/p'' [sample_file] sample_windows True 0 = Inr plans"
    using sample_grouped by (auto simp: is_ok_def split: sum.splits)
  have w: "list_all window_ok sample_windows" by code_simp
  obtain ordered selections where "validated_windows sample_windows = Inr ordered"
    "map (\<lambda>p. (wp_window p, sm_files (wp_manifest p))) plans = filter (\<lambda>(w, fs). True \<or> fs \<noteq> []) (zip ordered selections)"
    by (rule grouping_is_selection [OF p w])
  moreover have "filter (\<lambda>(w, fs). True \<or> fs \<noteq> []) xs = xs" for xs :: "(utc_window \<times> remote_file list) list" by simp
  ultimately show ?thesis using p by metis
qed

end
