(* ===== verification/Packetization.thy ===== *)
theory Packetization
  imports Source_Models Memory_Budget
begin

text \<open>
  Model of \<^verbatim>\<open>remote_impl/packetization.py\<close> and of the walk over packets in
  \<^verbatim>\<open>api_impl/input/directory_preparation.py\<close>: remote files are staged in ordered
  packets bounded by a number of files and by their known or estimated bytes.
\<close>

record packet_policy =
  pp_max_files :: int
  pp_target_bytes :: int

definition policy_of_memory_budget :: "memory_budget \<Rightarrow> packet_policy" where
  "policy_of_memory_budget budget =
     (let concurrent_packets = max 1 (mb_remote_chunk_prefetch budget);
          fair_share = total_bytes budget div max 4 (concurrent_packets * 2) in
      \<lparr>pp_max_files = mb_async_prefetch_files budget * 4,
       pp_target_bytes = max (io_chunk_bytes budget) (min (64 * MIB) fair_share)\<rparr>)"

definition remote_staging_packet_policy :: "host \<Rightarrow> limit_option \<Rightarrow> packet_policy result" where
  "remote_staging_packet_policy h limit = rlift policy_of_memory_budget (budget_from_limit h limit)"

definition size_estimate :: "int \<Rightarrow> remote_file \<Rightarrow> int" where
  "size_estimate unknown f = (case rf_size f of Some n \<Rightarrow> if n \<ge> 0 then n else unknown | None \<Rightarrow> unknown)"

fun packet_loop :: "int \<Rightarrow> int \<Rightarrow> remote_file list \<Rightarrow> int \<Rightarrow> remote_file list \<Rightarrow> remote_file list" where
  "packet_loop byte_limit unknown selected known_bytes [] = selected"
| "packet_loop byte_limit unknown selected known_bytes (f # fs) =
     (let estimate = size_estimate unknown f in
      if selected \<noteq> [] \<and> known_bytes + estimate > byte_limit then selected
      else let selected = selected @ [f]; known_bytes = known_bytes + estimate in
        if known_bytes \<ge> byte_limit then selected
        else packet_loop byte_limit unknown selected known_bytes fs)"

definition unknown_size_estimate :: "int \<Rightarrow> int \<Rightarrow> int" where
  "unknown_size_estimate max_files target_bytes = max 1 (max 1 target_bytes div max 1 max_files)"

definition remote_file_packet :: "remote_file list \<Rightarrow> int \<Rightarrow> int \<Rightarrow> int \<Rightarrow> remote_file list" where
  "remote_file_packet files start max_files target_bytes =
     (if start < 0 \<or> start \<ge> int (length files) then []
      else packet_loop (max 1 target_bytes) (unknown_size_estimate max_files target_bytes) [] 0
             (take (nat (max 1 max_files)) (drop (nat start) files)))"

definition remote_file_packet_estimated_bytes :: "remote_file list \<Rightarrow> int \<Rightarrow> int \<Rightarrow> int \<Rightarrow> int" where
  "remote_file_packet_estimated_bytes files start max_files target_bytes =
     (let selected = remote_file_packet files start max_files target_bytes in
      if selected = [] then 0
      else sum_list (map (size_estimate (unknown_size_estimate max_files target_bytes)) selected))"

definition next_chunk_start :: "remote_file list \<Rightarrow> int \<Rightarrow> int \<Rightarrow> int \<Rightarrow> int" where
  "next_chunk_start files max_files target_bytes start =
     start + int (length (remote_file_packet files start max_files target_bytes))"

section \<open>One packet\<close>

lemma packet_loop_shape:
  "\<exists>k. packet_loop b u selected known fs = selected @ take k fs \<and> (selected = [] \<and> fs \<noteq> [] \<longrightarrow> 0 < k)"
proof (induction fs arbitrary: selected known)
  case (Cons f fs)
  show ?case
  proof (cases "(selected \<noteq> [] \<and> known + size_estimate u f > b) \<or> known + size_estimate u f \<ge> b")
    case True
    then show ?thesis
      by (cases "selected \<noteq> [] \<and> known + size_estimate u f > b")
        (auto simp: Let_def intro: exI [of _ 0] exI [of _ 1])
  next
    case False
    obtain k where k: "packet_loop b u (selected @ [f]) (known + size_estimate u f) fs = (selected @ [f]) @ take k fs"
      using Cons.IH [of "selected @ [f]"] by blast
    then have "packet_loop b u selected known (f # fs) = selected @ take (Suc k) (f # fs)" using False by (simp add: Let_def)
    then show ?thesis by blast
  qed
qed simp

lemma packet_prefix:
  assumes "0 \<le> start" "start < int (length files)"
  obtains k where "remote_file_packet files start m t = take k (drop (nat start) files)" "0 < k" "k \<le> nat (max 1 m)"
proof -
  let ?fs = "take (nat (max 1 m)) (drop (nat start) files)"
  have ne: "?fs \<noteq> []" using assms by simp
  obtain k where "packet_loop (max 1 t) (unknown_size_estimate m t) [] 0 ?fs = take k ?fs" "0 < k"
    using packet_loop_shape [of "max 1 t" "unknown_size_estimate m t" "[]" 0 ?fs] ne by auto
  then show thesis
    using assms by (intro that [of "min k (nat (max 1 m))"]) (auto simp: remote_file_packet_def min.commute)
qed

lemma size_estimate_nonneg: "1 \<le> u \<Longrightarrow> 0 \<le> size_estimate u f"
  by (auto simp: size_estimate_def split: option.split)

lemma packet_loop_bytes:
  assumes "1 \<le> u" "known = sum_list (map (size_estimate u) selected)" "selected \<noteq> [] \<longrightarrow> known < b \<or> length selected = 1"
    "known < b \<or> selected = []"
  shows "let p = packet_loop b u selected known fs in sum_list (map (size_estimate u) p) \<le> b \<or> length p \<le> 1"
  using assms(2-4)
proof (induction fs arbitrary: selected known)
  case (Cons f fs)
  let ?k = "known + size_estimate u f"
  show ?case
  proof (cases "selected \<noteq> [] \<and> ?k > b")
    case True
    then show ?thesis using Cons.prems by (auto simp: Let_def)
  next
    case False
    show ?thesis
    proof (cases "?k \<ge> b")
      case True
      then show ?thesis using Cons.prems False by (cases "selected = []") (auto simp: Let_def)
    next
      case small: False
      then have "packet_loop b u selected known (f # fs) = packet_loop b u (selected @ [f]) ?k fs"
        using False by (simp add: Let_def)
      then show ?thesis using Cons.IH [of ?k "selected @ [f]"] Cons.prems(1) small by simp
    qed
  qed
qed (use size_estimate_nonneg [OF assms(1)] in \<open>auto simp: Let_def\<close>)

section \<open>All packets\<close>

text \<open>
  The prefetch window of \<^verbatim>\<open>api_impl/source_plan/remote.py\<close> submits the packet at
  \<open>_next_start\<close> and moves to \<open>committed_next_start\<close> until the manifest is used up.
  Waiting for a free slot or a storage lease only delays the next submission, so the
  submitted packets are those of this recursion.
\<close>

definition committed_next_start :: "remote_file list \<Rightarrow> int \<Rightarrow> int \<Rightarrow> int \<Rightarrow> int" where
  "committed_next_start files max_files target_bytes start =
     max (start + 1) (next_chunk_start files max_files target_bytes start)"

function packets_from :: "remote_file list \<Rightarrow> int \<Rightarrow> int \<Rightarrow> int \<Rightarrow> remote_file list list" where
  "packets_from files max_files target_bytes start =
     (if start \<ge> int (length files) then []
      else remote_file_packet files start max_files target_bytes
        # packets_from files max_files target_bytes (committed_next_start files max_files target_bytes start))"
  by pat_completeness auto
termination
  by (relation "measure (\<lambda>(files, m, t, start). nat (int (length files) - start))")
    (auto simp: committed_next_start_def)

declare packets_from.simps [simp del]

lemma packets_from_spec:
  assumes "0 \<le> start"
  shows "concat (packets_from files m t start) = drop (nat start) files
    \<and> (\<forall>p\<in>set (packets_from files m t start). p \<noteq> [] \<and> int (length p) \<le> max 1 m
        \<and> (sum_list (map (size_estimate (unknown_size_estimate m t)) p) \<le> max 1 t \<or> length p = 1))"
  using assms
proof (induction files m t start rule: packets_from.induct)
  case (1 files m t start)
  show ?case
  proof (cases "start < int (length files)")
    case False
    then show ?thesis by (simp add: packets_from.simps [of files m t start])
  next
    case True
    obtain k where k: "remote_file_packet files start m t = take k (drop (nat start) files)" "0 < k" "k \<le> nat (max 1 m)"
      by (rule packet_prefix [OF "1.prems" True])
    let ?p = "take k (drop (nat start) files)"
    have ne: "?p \<noteq> []" using True "1.prems" k(2) by simp
    have len: "int (length ?p) \<le> max 1 m" using k(3) by (auto simp: min_def)
    have u: "1 \<le> unknown_size_estimate m t" by (simp add: unknown_size_estimate_def)
    have bytes: "sum_list (map (size_estimate (unknown_size_estimate m t)) ?p) \<le> max 1 t \<or> length ?p = 1"
    proof -
      have "sum_list (map (size_estimate (unknown_size_estimate m t)) ?p) \<le> max 1 t \<or> length ?p \<le> 1"
        using packet_loop_bytes [OF u, of 0 "[]" "max 1 t" "take (nat (max 1 m)) (drop (nat start) files)"] True "1.prems" k(1)
        by (simp add: remote_file_packet_def Let_def)
      then show ?thesis using ne by (cases ?p) auto
    qed
    define n where "n = committed_next_start files m t start"
    have "1 \<le> length ?p" using ne by (cases ?p) auto
    then have "n = start + int (length ?p)" unfolding n_def committed_next_start_def next_chunk_start_def k(1) by linarith
    then have n: "0 \<le> n" "nat n = nat start + length ?p" using "1.prems" by (simp_all add: nat_add_distrib)
    have ih: "concat (packets_from files m t n) = drop (nat n) files
      \<and> (\<forall>p\<in>set (packets_from files m t n). p \<noteq> [] \<and> int (length p) \<le> max 1 m
        \<and> (sum_list (map (size_estimate (unknown_size_estimate m t)) p) \<le> max 1 t \<or> length p = 1))"
      using "1.IH" True n(1) by (simp add: n_def)
    have e: "packets_from files m t start = ?p # packets_from files m t n"
      using True by (simp add: packets_from.simps [of files m t start] k(1) n_def)
    have "?p @ drop (nat n) files = drop (nat start) files"
      unfolding n(2) by (metis append_take_drop_id drop_drop add.commute length_take min.commute take_take drop_all
          drop_take diff_self_eq_0 append_Nil2 linear min_def)
    then show ?thesis unfolding e using ih ne len bytes by simp
  qed
qed

text \<open>
  C26: packets partition the selection.  Following the packets from the first file
  visits every file exactly once and in order, ends, and every packet has at least
  one file, at most the allowed number of files, and bytes within the target unless
  it is a single file.
\<close>

theorem packets_partition_files:
  "concat (packets_from files m t 0) = files
   \<and> list_all (\<lambda>p. p \<noteq> [] \<and> int (length p) \<le> max 1 m
        \<and> (sum_list (map (size_estimate (unknown_size_estimate m t)) p) \<le> max 1 t \<or> length p = 1)) (packets_from files m t 0)"
  using packets_from_spec [of 0 files m t] by (simp add: list_all_iff)

end
