(* ===== verification/Keyed_Ledger.thy ===== *)
theory Keyed_Ledger
  imports Prelude
begin

text \<open>
  The contract that the ledgers of the process share: charges under keys, each put
  once and taken out exactly.  An operation may refuse, and a refusal changes no
  charge.  What a ledger does to a key before it stores it is \<open>key_of\<close>; what an
  operation reads of its surroundings (a clock, the outcome of a call) is its first
  argument.
\<close>

definition ledger_total :: "('k \<rightharpoonup> int) \<Rightarrow> int" where
  "ledger_total m = (\<Sum>k\<in>dom m. the (m k))"

datatype ('e, 'k) ledger_op = Put 'e 'k int | Take 'e 'k int

primrec run_op ::
  "('e \<Rightarrow> 'k \<Rightarrow> int \<Rightarrow> 's \<Rightarrow> bool \<times> 's) \<Rightarrow> ('e \<Rightarrow> 'k \<Rightarrow> int \<Rightarrow> 's \<Rightarrow> bool \<times> 's) \<Rightarrow> ('e, 'k) ledger_op \<Rightarrow> 's \<Rightarrow> bool \<times> 's" where
  "run_op put takeout (Put e k b) s = put e k b s"
| "run_op put takeout (Take e k b) s = takeout e k b s"

primrec run_ops ::
  "('e \<Rightarrow> 'k \<Rightarrow> int \<Rightarrow> 's \<Rightarrow> bool \<times> 's) \<Rightarrow> ('e \<Rightarrow> 'k \<Rightarrow> int \<Rightarrow> 's \<Rightarrow> bool \<times> 's) \<Rightarrow> ('e, 'k) ledger_op list \<Rightarrow> 's \<Rightarrow> bool list \<times> 's" where
  "run_ops put takeout [] s = ([], s)"
| "run_ops put takeout (x # xs) s =
     (case run_op put takeout x s of (r, s1) \<Rightarrow> case run_ops put takeout xs s1 of (rs, s2) \<Rightarrow> (r # rs, s2))"

primrec map_op :: "('k \<Rightarrow> 'k) \<Rightarrow> ('e, 'k) ledger_op \<times> bool \<Rightarrow> ('k \<rightharpoonup> int) \<Rightarrow> 'k \<rightharpoonup> int" where
  "map_op key_of (x, accepted) m =
     (if accepted then (case x of Put e k b \<Rightarrow> m(key_of k \<mapsto> b) | Take e k b \<Rightarrow> m(key_of k := None)) else m)"

lemma ledger_total_put:
  assumes "finite (dom m)" "m k = None"
  shows "ledger_total (m(k \<mapsto> b)) = ledger_total m + b"
proof -
  have "ledger_total (m(k \<mapsto> b)) = (\<Sum>x\<in>insert k (dom m). the ((m(k \<mapsto> b)) x))" by (simp add: ledger_total_def)
  also have "\<dots> = b + (\<Sum>x\<in>dom m. the ((m(k \<mapsto> b)) x))" using assms by (subst sum.insert) auto
  also have "(\<Sum>x\<in>dom m. the ((m(k \<mapsto> b)) x)) = ledger_total m"
    unfolding ledger_total_def using assms(2) by (intro sum.cong) auto
  finally show ?thesis by (simp only: add.commute)
qed

lemma ledger_total_take:
  assumes "finite (dom m)" "m k = Some b"
  shows "ledger_total (m(k := None)) = ledger_total m - b"
proof -
  have "(m(k := None))(k \<mapsto> b) = m" using assms(2) by (auto simp: fun_eq_iff)
  then show ?thesis using ledger_total_put [of "m(k := None)" k b] assms(1) by simp
qed

lemma ledger_total_list:
  "distinct (map fst xs) \<Longrightarrow> ledger_total (map_of xs) = sum_list (map snd xs)"
  by (induction xs) (auto simp: ledger_total_put finite_dom_map_of map_of_eq_None_iff ledger_total_def [of Map.empty])

lemma ledger_total_nonneg: "(\<And>k b. m k = Some b \<Longrightarrow> 0 \<le> b) \<Longrightarrow> 0 \<le> ledger_total m"
  unfolding ledger_total_def by (rule sum_nonneg) force

locale keyed_ledger =
  fixes valid :: "'s \<Rightarrow> bool"
    and charges :: "'s \<Rightarrow> 'k \<rightharpoonup> int"
    and key_of :: "'k \<Rightarrow> 'k"
    and put :: "'e \<Rightarrow> 'k \<Rightarrow> int \<Rightarrow> 's \<Rightarrow> bool \<times> 's"
    and takeout :: "'e \<Rightarrow> 'k \<Rightarrow> int \<Rightarrow> 's \<Rightarrow> bool \<times> 's"
  assumes finite_charges: "valid s \<Longrightarrow> finite (dom (charges s))"
    and put_valid: "valid s \<Longrightarrow> valid (snd (put e k b s))"
    and put_charges: "valid s \<Longrightarrow>
      charges (snd (put e k b s)) = (if fst (put e k b s) then (charges s)(key_of k \<mapsto> b) else charges s)"
    and take_valid: "valid s \<Longrightarrow> valid (snd (takeout e k b s))"
    and take_charges: "valid s \<Longrightarrow>
      charges (snd (takeout e k b s)) = (if fst (takeout e k b s) then (charges s)(key_of k := None) else charges s)"
begin

lemma run_op_valid: "valid s \<Longrightarrow> valid (snd (run_op put takeout x s))"
  by (cases x) (simp_all add: put_valid take_valid)

lemma run_op_charges:
  "valid s \<Longrightarrow> charges (snd (run_op put takeout x s)) = map_op key_of (x, fst (run_op put takeout x s)) (charges s)"
  by (cases x) (simp_all add: put_charges take_charges)

lemma run_ops_refine:
  "valid s \<Longrightarrow> valid (snd (run_ops put takeout xs s))
     \<and> charges (snd (run_ops put takeout xs s)) = fold (map_op key_of) (zip xs (fst (run_ops put takeout xs s))) (charges s)"
proof (induction xs arbitrary: s)
  case (Cons x xs)
  obtain r t where t: "run_op put takeout x s = (r, t)" by fastforce
  have "valid t" using run_op_valid [OF Cons.prems, of x] t by simp
  from Cons.IH [OF this] show ?case
    using run_op_charges [OF Cons.prems, of x] t by (simp add: split_beta)
qed simp

text \<open>A charge that is put and taken out again leaves the ledger as it was.\<close>

lemma put_take_charges:
  assumes "valid s" "charges s (key_of k) = None" "fst (put e k b s)" "fst (takeout e' k b (snd (put e k b s)))"
  shows "charges (snd (takeout e' k b (snd (put e k b s)))) = charges s"
  using assms put_valid [OF assms(1), of e k b] by (auto simp: take_charges put_charges)

lemma put_total:
  assumes "valid s" "charges s (key_of k) = None" "fst (put e k b s)"
  shows "ledger_total (charges (snd (put e k b s))) = ledger_total (charges s) + b"
  using assms by (simp add: put_charges ledger_total_put finite_charges)

lemma take_total:
  assumes "valid s" "charges s (key_of k) = Some b" "fst (takeout e k b s)"
  shows "ledger_total (charges (snd (takeout e k b s))) = ledger_total (charges s) - b"
  using assms by (simp add: take_charges ledger_total_take finite_charges)

end

end
