(* ===== verification/Terminal_Ownership.thy ===== *)
theory Terminal_Ownership
  imports Keyed_Ledger "HOL-Library.Product_Lexorder" "HOL-Library.List_Lexorder" "HOL-Library.Char_ord"
begin

text \<open>
  Model of \<^verbatim>\<open>core_impl/terminal_ownership.py\<close>: a fixed bank of slots that records
  which runtime owners survive until shutdown.  The slots are the authority; the
  count of owners is a mirror that every publication and retirement compares with
  them.  The process number and the clock are arguments.  Values are typed, so that
  only the range checks of the arguments can raise.
\<close>

section \<open>State\<close>

definition MAX_TERMINAL_OWNERS :: int where "MAX_TERMINAL_OWNERS = 8192"
definition MAX_LABEL_CHARS :: nat where "MAX_LABEL_CHARS = 64"
definition TERMINAL_OWNER_RECORD_BYTES :: int where "TERMINAL_OWNER_RECORD_BYTES = 128"
definition MAX_GENERATION :: int where "MAX_GENERATION = 2 ^ 63 - 1"

definition bounded_label :: "string \<Rightarrow> string" where
  "bounded_label value = (if length value \<le> MAX_LABEL_CHARS then value else take MAX_LABEL_CHARS value)"

record owner_slot =
  sl_active :: bool
  sl_category :: string
  sl_token :: int
  sl_retained_bytes :: int
  sl_since_ns :: int
  sl_generation :: int

definition cleared_slot :: owner_slot where
  "cleared_slot = \<lparr>sl_active = False, sl_category = [], sl_token = 0, sl_retained_bytes = 0, sl_since_ns = 0, sl_generation = 0\<rparr>"

record ownership_ledger =
  tl_pid :: int
  tl_capacity :: int
  tl_slots :: "owner_slot list"
  tl_owners :: int
  tl_generation :: int
  tl_generation_exhausted :: bool
  tl_rejected :: int
  tl_rejected_latched :: bool
  tl_corrupted :: bool

definition reset_ledger :: "int \<Rightarrow> ownership_ledger \<Rightarrow> ownership_ledger" where
  "reset_ledger pid l =
     l\<lparr>tl_pid := pid, tl_slots := map (\<lambda>_. cleared_slot) (tl_slots l), tl_owners := 0, tl_generation := 0,
       tl_generation_exhausted := False, tl_rejected := 0, tl_rejected_latched := False, tl_corrupted := False\<rparr>"

definition init_ledger :: "int \<Rightarrow> int \<Rightarrow> ownership_ledger result" where
  "init_ledger pid capacity =
     (if capacity \<le> 0 \<or> capacity > MAX_TERMINAL_OWNERS
      then Inl (ValueError ''terminal ownership capacity must be in [1, 8192]'')
      else Inr (reset_ledger pid \<lparr>tl_pid = pid, tl_capacity = capacity, tl_slots = replicate (nat capacity) cleared_slot,
        tl_owners = 0, tl_generation = 0, tl_generation_exhausted = False, tl_rejected = 0, tl_rejected_latched = False,
        tl_corrupted = False\<rparr>))"

definition ensure_process :: "int \<Rightarrow> ownership_ledger \<Rightarrow> ownership_ledger" where
  "ensure_process pid l = (if tl_pid l \<noteq> pid then reset_ledger pid l else l)"

section \<open>Helpers under the lock\<close>

definition prepare_generation_advance :: "ownership_ledger \<Rightarrow> int option \<times> ownership_ledger" where
  "prepare_generation_advance l =
     (if tl_generation_exhausted l then (None, l)
      else if tl_generation l \<ge> MAX_GENERATION
      then (None, l\<lparr>tl_generation_exhausted := True, tl_rejected_latched := True\<rparr>)
      else (Some (tl_generation l + 1), l))"

fun first_slot :: "(owner_slot \<Rightarrow> bool) \<Rightarrow> owner_slot list \<Rightarrow> nat option" where
  "first_slot P [] = None"
| "first_slot P (s # ss) = (if P s then Some 0 else map_option Suc (first_slot P ss))"

definition slot_matches :: "string \<Rightarrow> int \<Rightarrow> owner_slot \<Rightarrow> bool" where
  "slot_matches category token s \<longleftrightarrow> sl_active s \<and> sl_token s = token \<and> sl_category s = category"

definition find_slot :: "string \<Rightarrow> int \<Rightarrow> ownership_ledger \<Rightarrow> nat option" where
  "find_slot category token l = first_slot (slot_matches category token) (tl_slots l)"

definition find_free_slot :: "ownership_ledger \<Rightarrow> nat option" where
  "find_free_slot l = first_slot (\<lambda>s. \<not> sl_active s) (tl_slots l)"

definition record_rejection :: "ownership_ledger \<Rightarrow> ownership_ledger" where
  "record_rejection l =
     l\<lparr>tl_rejected_latched := True, tl_rejected := (if tl_rejected l < MAX_GENERATION then tl_rejected l + 1 else tl_rejected l)\<rparr>"

definition active_slot_count :: "ownership_ledger \<Rightarrow> int" where
  "active_slot_count l = int (length (filter sl_active (tl_slots l)))"

definition validate_owner_cache :: "ownership_ledger \<Rightarrow> int \<times> ownership_ledger" where
  "validate_owner_cache l =
     (let authoritative = active_slot_count l in
      (authoritative, if tl_owners l \<noteq> authoritative then record_rejection (l\<lparr>tl_corrupted := True\<rparr>) else l))"

section \<open>Operations\<close>

definition publish_existing :: "nat \<Rightarrow> int \<Rightarrow> ownership_ledger \<Rightarrow> bool \<times> ownership_ledger" where
  "publish_existing i retained_bytes l =
     (let existing = tl_slots l ! i in
      if retained_bytes \<noteq> sl_retained_bytes existing
      then case prepare_generation_advance l of
             (None, l1) \<Rightarrow> (False, l1)
           | (Some g, l1) \<Rightarrow>
               (True, l1\<lparr>tl_slots := (tl_slots l1)[i := existing\<lparr>sl_retained_bytes := retained_bytes, sl_generation := g\<rparr>],
                         tl_generation := g\<rparr>)
      else (True, l))"

definition publish_new :: "string \<Rightarrow> int \<Rightarrow> int \<Rightarrow> int \<Rightarrow> int \<Rightarrow> ownership_ledger \<Rightarrow> bool \<times> ownership_ledger" where
  "publish_new category token retained_bytes now authoritative l =
     (if authoritative \<ge> tl_capacity l then (False, record_rejection l)
      else case prepare_generation_advance l of
        (None, l1) \<Rightarrow> (False, l1)
      | (Some g, l1) \<Rightarrow>
          (case find_free_slot l1 of
             None \<Rightarrow> (False, record_rejection (l1\<lparr>tl_corrupted := True\<rparr>))
           | Some i \<Rightarrow>
               (True, l1\<lparr>tl_slots := (tl_slots l1)[i := \<lparr>sl_active = True, sl_category = category, sl_token = token,
                           sl_retained_bytes = retained_bytes, sl_since_ns = now, sl_generation = g\<rparr>],
                         tl_owners := authoritative + 1, tl_generation := g\<rparr>)))"

definition publish :: "int \<Rightarrow> int \<Rightarrow> string \<Rightarrow> int \<Rightarrow> int \<Rightarrow> ownership_ledger \<Rightarrow> bool result \<times> ownership_ledger" where
  "publish pid now category token retained_bytes l =
     (let l = ensure_process pid l; category = bounded_label category in
      if retained_bytes < 0 then (Inl (ValueError ''terminal retained_bytes must be >= 0''), l)
      else case validate_owner_cache l of
        (authoritative, l1) \<Rightarrow>
          if tl_corrupted l1 then (Inr False, l1)
          else apfst Inr (case find_slot category token l1 of
                 Some i \<Rightarrow> publish_existing i retained_bytes l1
               | None \<Rightarrow> publish_new category token retained_bytes now authoritative l1))"

definition advance_after_retire :: "ownership_ledger \<Rightarrow> ownership_ledger" where
  "advance_after_retire l =
     (case prepare_generation_advance l of (None, l1) \<Rightarrow> l1 | (Some g, l1) \<Rightarrow> l1\<lparr>tl_generation := g\<rparr>)"

definition retire :: "int \<Rightarrow> string \<Rightarrow> int \<Rightarrow> ownership_ledger \<Rightarrow> ownership_ledger" where
  "retire pid category token l =
     (let l = ensure_process pid l; category = bounded_label category in
      case validate_owner_cache l of
        (authoritative, l1) \<Rightarrow>
          (case find_slot category token l1 of
             None \<Rightarrow> l1
           | Some i \<Rightarrow>
               advance_after_retire (l1\<lparr>tl_slots := (tl_slots l1)[i := cleared_slot], tl_owners := authoritative - 1\<rparr>)))"

definition in_category :: "string \<Rightarrow> owner_slot \<Rightarrow> bool" where
  "in_category category s \<longleftrightarrow> sl_active s \<and> sl_category s = category"

definition retire_category :: "int \<Rightarrow> string \<Rightarrow> ownership_ledger \<Rightarrow> ownership_ledger" where
  "retire_category pid category l =
     (let l = ensure_process pid l; category = bounded_label category in
      case validate_owner_cache l of
        (authoritative, l1) \<Rightarrow>
          let retired = int (length (filter (in_category category) (tl_slots l1))) in
          if retired = 0 then l1
          else advance_after_retire
            (l1\<lparr>tl_slots := map (\<lambda>s. if in_category category s then cleared_slot else s) (tl_slots l1),
               tl_owners := authoritative - retired\<rparr>))"

section \<open>Snapshots\<close>

record ownership_snapshot =
  ts_owners :: int
  ts_retained_bytes :: int
  ts_metadata_bytes :: int
  ts_capacity :: int
  ts_rejected :: int
  ts_oldest_since_ns :: int
  ts_generation :: int
  ts_generation_exhausted :: bool
  ts_categories :: "(string \<times> int) list"
  ts_corrupted :: bool

definition total_attributed_bytes :: "ownership_snapshot \<Rightarrow> int" where
  "total_attributed_bytes s = ts_retained_bytes s + ts_metadata_bytes s"

fun count_category :: "string \<Rightarrow> (string \<times> int) list \<Rightarrow> (string \<times> int) list" where
  "count_category c [] = [(c, 1)]"
| "count_category c ((d, n) # counts) = (if d = c then (d, n + 1) # counts else (d, n) # count_category c counts)"

fun snapshot_loop :: "owner_slot list \<Rightarrow> (string \<times> int) list \<times> int \<times> int \<times> int \<Rightarrow> (string \<times> int) list \<times> int \<times> int \<times> int" where
  "snapshot_loop [] acc = acc"
| "snapshot_loop (s # ss) (counts, retained, oldest, owners) =
     (if \<not> sl_active s then snapshot_loop ss (counts, retained, oldest, owners)
      else snapshot_loop ss (count_category (sl_category s) counts, retained + sl_retained_bytes s,
             (if oldest = 0 \<or> sl_since_ns s < oldest then sl_since_ns s else oldest), owners + 1))"

definition snapshot_of :: "ownership_ledger \<Rightarrow> ownership_snapshot" where
  "snapshot_of l =
     (case snapshot_loop (tl_slots l) ([], 0, 0, 0) of
        (counts, retained, oldest, owners) \<Rightarrow>
          \<lparr>ts_owners = owners, ts_retained_bytes = retained, ts_metadata_bytes = owners * TERMINAL_OWNER_RECORD_BYTES,
           ts_capacity = tl_capacity l,
           ts_rejected = (if tl_rejected_latched l then max 1 (tl_rejected l) else tl_rejected l),
           ts_oldest_since_ns = oldest, ts_generation = tl_generation l,
           ts_generation_exhausted = tl_generation_exhausted l, ts_categories = sort counts, ts_corrupted = tl_corrupted l\<rparr>)"

definition snapshot :: "int \<Rightarrow> ownership_ledger \<Rightarrow> ownership_snapshot \<times> ownership_ledger" where
  "snapshot pid l = (let l = ensure_process pid l in (snapshot_of l, l))"

section \<open>The ledger as a map\<close>

definition slot_key :: "owner_slot \<Rightarrow> string \<times> int" where
  "slot_key s = (sl_category s, sl_token s)"

definition slot_entries :: "owner_slot list \<Rightarrow> ((string \<times> int) \<times> int) list" where
  "slot_entries ss = map (\<lambda>s. (slot_key s, sl_retained_bytes s)) (filter sl_active ss)"

definition owner_map :: "ownership_ledger \<Rightarrow> string \<times> int \<rightharpoonup> int" where
  "owner_map l = map_of (slot_entries (tl_slots l))"

definition slot_ok :: "int \<Rightarrow> owner_slot \<Rightarrow> bool" where
  "slot_ok g s \<longleftrightarrow> sl_active s \<longrightarrow>
     0 \<le> sl_retained_bytes s \<and> length (sl_category s) \<le> MAX_LABEL_CHARS \<and> 1 \<le> sl_generation s \<and> sl_generation s \<le> g"

definition latch_ok :: "ownership_ledger \<Rightarrow> bool" where
  "latch_ok l \<longleftrightarrow> 0 \<le> tl_rejected l \<and> (tl_generation_exhausted l \<or> tl_rejected l \<noteq> 0 \<longrightarrow> tl_rejected_latched l)"

definition ledger_ok :: "int \<Rightarrow> ownership_ledger \<Rightarrow> bool" where
  "ledger_ok pid l \<longleftrightarrow>
     tl_pid l = pid \<and> 1 \<le> tl_capacity l \<and> tl_capacity l \<le> MAX_TERMINAL_OWNERS \<and> int (length (tl_slots l)) = tl_capacity l
     \<and> distinct (map fst (slot_entries (tl_slots l))) \<and> tl_owners l = active_slot_count l \<and> \<not> tl_corrupted l
     \<and> 0 \<le> tl_generation l \<and> tl_generation l \<le> MAX_GENERATION \<and> list_all (slot_ok (tl_generation l)) (tl_slots l) \<and> latch_ok l"

lemma slot_entries_simps [simp]:
  "slot_entries [] = []"
  "slot_entries (s # ss) = (if sl_active s then (slot_key s, sl_retained_bytes s) # slot_entries ss else slot_entries ss)"
  "slot_entries (xs @ ys) = slot_entries xs @ slot_entries ys"
  by (simp_all add: slot_entries_def)

lemma cleared_slot_inactive [simp]: "\<not> sl_active cleared_slot"
  by (simp add: cleared_slot_def)

lemma slot_entries_cleared [simp]: "slot_entries (map (\<lambda>_. cleared_slot) xs) = []"
  by (induction xs) simp_all

lemma length_slot_entries: "length (slot_entries ss) = length (filter sl_active ss)"
  by (simp add: slot_entries_def)

lemma first_slot_Some:
  assumes "first_slot P xs = Some i"
  obtains as x bs where "xs = as @ x # bs" "i = length as" "P x" "list_all (\<lambda>s. \<not> P s) as"
proof -
  have "\<exists>as x bs. xs = as @ x # bs \<and> i = length as \<and> P x \<and> list_all (\<lambda>s. \<not> P s) as"
    using assms
  proof (induction P xs arbitrary: i rule: first_slot.induct)
    case (2 P s ss)
    show ?case
    proof (cases "P s")
      case True
      then show ?thesis using "2.prems" by (intro exI [of _ "[]"]) auto
    next
      case False
      then obtain j where j: "first_slot P ss = Some j" "i = Suc j" using "2.prems" by auto
      from "2.IH" [OF False j(1)] obtain as x bs where "ss = as @ x # bs" "j = length as" "P x" "list_all (\<lambda>s. \<not> P s) as"
        by blast
      then show ?thesis using j(2) False by (intro exI [of _ "s # as"]) auto
    qed
  qed simp
  then show thesis using that by blast
qed

lemma first_slot_None: "first_slot P xs = None \<longleftrightarrow> list_all (\<lambda>s. \<not> P s) xs"
  by (induction P xs rule: first_slot.induct) auto

lemma find_slot_None: "find_slot c t l = None \<longleftrightarrow> owner_map l (c, t) = None"
  unfolding find_slot_def first_slot_None owner_map_def map_of_eq_None_iff
  by (auto simp: slot_entries_def list_all_iff slot_matches_def slot_key_def image_image)

lemma map_of_replace:
  "k \<notin> fst ` set xs \<Longrightarrow> map_of (xs @ (k, b) # ys) = (map_of (xs @ ys))(k \<mapsto> b)"
  by (induction xs) (auto simp: fun_eq_iff)

lemma map_of_take_out:
  "distinct (map fst (xs @ (k, b) # ys)) \<Longrightarrow> map_of (xs @ ys) = (map_of (xs @ (k, b) # ys))(k := None)"
proof -
  assume d: "distinct (map fst (xs @ (k, b) # ys))"
  then have "map_of (xs @ ys) k = None" by (auto simp: map_of_eq_None_iff)
  moreover have "k \<notin> fst ` set xs" using d by auto
  ultimately show ?thesis by (simp add: map_of_replace fun_eq_iff del: map_of_append)
qed

lemma map_of_change:
  assumes "distinct (map fst (xs @ (k, b) # ys))"
  shows "map_of (xs @ (k, c) # ys) = (map_of (xs @ (k, b) # ys))(k \<mapsto> c)"
proof -
  have "k \<notin> fst ` set xs" using assms by auto
  then show ?thesis by (simp add: map_of_replace del: map_of_append)
qed

lemma slot_ok_mono: "slot_ok g s \<Longrightarrow> g \<le> h \<Longrightarrow> slot_ok h s"
  by (auto simp: slot_ok_def)

lemma slots_ok_mono: "list_all (slot_ok g) ss \<Longrightarrow> g \<le> h \<Longrightarrow> list_all (slot_ok h) ss"
  by (auto simp: list_all_iff intro: slot_ok_mono)

lemma bounded_label_length: "length (bounded_label c) \<le> MAX_LABEL_CHARS"
  by (simp add: bounded_label_def)

lemma validate_ok: "ledger_ok pid l \<Longrightarrow> validate_owner_cache l = (active_slot_count l, l)"
  by (simp add: validate_owner_cache_def ledger_ok_def)

lemma ensure_ok: "ledger_ok pid l \<Longrightarrow> ensure_process pid l = l"
  by (simp add: ensure_process_def ledger_ok_def)

lemma record_rejection_ok:
  "ledger_ok pid l \<Longrightarrow> ledger_ok pid (record_rejection l) \<and> owner_map (record_rejection l) = owner_map l \<and> tl_rejected_latched (record_rejection l)"
  by (simp add: ledger_ok_def record_rejection_def owner_map_def active_slot_count_def latch_ok_def)

lemma prepare_None:
  "ledger_ok pid l \<Longrightarrow> prepare_generation_advance l = (None, l1) \<Longrightarrow> ledger_ok pid l1 \<and> owner_map l1 = owner_map l \<and> tl_rejected_latched l1"
  by (auto simp: ledger_ok_def prepare_generation_advance_def owner_map_def active_slot_count_def latch_ok_def split: if_splits)

lemma prepare_Some:
  "ledger_ok pid l \<Longrightarrow> prepare_generation_advance l = (Some g, l1) \<Longrightarrow> l1 = l \<and> g = tl_generation l + 1 \<and> g \<le> MAX_GENERATION"
  by (auto simp: prepare_generation_advance_def split: if_splits)

section \<open>Every operation keeps the invariant\<close>

text \<open>What an operation on the charge of one owner promises.\<close>

definition refines_put :: "int \<Rightarrow> string \<times> int \<Rightarrow> int \<Rightarrow> ownership_ledger \<Rightarrow> bool \<times> ownership_ledger \<Rightarrow> bool" where
  "refines_put pid k b l r \<longleftrightarrow>
     ledger_ok pid (snd r) \<and> owner_map (snd r) = (if fst r then (owner_map l)(k \<mapsto> b) else owner_map l)
     \<and> (\<not> fst r \<longrightarrow> tl_rejected_latched (snd r))"

lemma ledger_okD:
  assumes "ledger_ok pid l"
  shows "distinct (map fst (slot_entries (tl_slots l)))" "tl_owners l = active_slot_count l"
    "list_all (slot_ok (tl_generation l)) (tl_slots l)" "0 \<le> tl_generation l" "int (length (tl_slots l)) = tl_capacity l"
  using assms by (simp_all add: ledger_ok_def)

lemma ledger_ok_update:
  assumes "ledger_ok pid l" "length ss = length (tl_slots l)" "distinct (map fst (slot_entries ss))"
    "list_all (slot_ok g) ss" "tl_generation l \<le> g" "g \<le> MAX_GENERATION" "n = int (length (filter sl_active ss))"
  shows "ledger_ok pid (l\<lparr>tl_slots := ss, tl_owners := n, tl_generation := g\<rparr>)"
  using assms by (auto simp: ledger_ok_def active_slot_count_def latch_ok_def)

lemma publish_existing_ok:
  assumes l: "ledger_ok pid l" and f: "find_slot c t l = Some i" and b: "0 \<le> b"
  shows "refines_put pid (c, t) b l (publish_existing i b l)"
proof -
  obtain as x bs where s: "tl_slots l = as @ x # bs" and i: "i = length as" and m: "slot_matches c t x"
    using f unfolding find_slot_def by (rule first_slot_Some)
  have x: "sl_active x" "slot_key x = (c, t)" using m by (simp_all add: slot_matches_def slot_key_def)
  have nth: "tl_slots l ! i = x" by (simp add: s i)
  have d: "distinct (map fst (slot_entries as @ ((c, t), sl_retained_bytes x) # slot_entries bs))"
    using ledger_okD(1) [OF l] x by (simp add: s)
  show ?thesis
  proof (cases "b = sl_retained_bytes x")
    case True
    have "owner_map l (c, t) = Some b" using d True x by (auto simp: owner_map_def s map_of_eq_Some_iff simp del: map_of_append)
    then show ?thesis using True l nth by (auto simp: publish_existing_def refines_put_def Let_def fun_upd_idem)
  next
    case False
    show ?thesis
    proof (cases "prepare_generation_advance l")
      case (Pair o1 l1)
      show ?thesis
      proof (cases o1)
        case None
        then show ?thesis using prepare_None [OF l, of l1] Pair False nth by (simp add: publish_existing_def refines_put_def Let_def)
      next
        case (Some g)
        have g: "l1 = l" "g = tl_generation l + 1" "g \<le> MAX_GENERATION" using prepare_Some [OF l, of g l1] Pair Some by auto
        let ?y = "x\<lparr>sl_retained_bytes := b, sl_generation := g\<rparr>"
        let ?l = "l\<lparr>tl_slots := as @ ?y # bs, tl_generation := g\<rparr>"
        have y: "sl_active ?y" "slot_key ?y = (c, t)" using x by (simp_all add: slot_key_def)
        have oks: "list_all (slot_ok g) (as @ x # bs)" using slots_ok_mono [OF ledger_okD(3) [OF l], of g] g(2) s by simp
        have "slot_ok g ?y" using oks b x(1) g(2) ledger_okD(4) [OF l] by (simp add: slot_ok_def)
        then have "ledger_ok pid (l\<lparr>tl_slots := as @ ?y # bs, tl_owners := tl_owners l, tl_generation := g\<rparr>)"
          using oks d y x g ledger_okD(2) [OF l]
          by (intro ledger_ok_update [OF l]) (simp_all add: s active_slot_count_def)
        then have ok: "ledger_ok pid ?l" by simp
        have "owner_map ?l = (owner_map l)((c, t) \<mapsto> b)"
          using map_of_change [OF d, of b] x y by (simp add: owner_map_def s del: map_of_append)
        then show ?thesis
          using ok Pair Some g(1) False nth by (simp add: publish_existing_def refines_put_def Let_def s i)
      qed
    qed
  qed
qed

lemma free_slot_exists:
  assumes "ledger_ok pid l" "active_slot_count l < tl_capacity l"
  shows "find_free_slot l \<noteq> None"
proof
  assume "find_free_slot l = None"
  then have "filter sl_active (tl_slots l) = tl_slots l"
    by (simp add: find_free_slot_def first_slot_None list_all_iff filter_id_conv)
  then show False using assms ledger_okD(5) [OF assms(1)] by (simp add: active_slot_count_def)
qed

lemma publish_new_ok:
  assumes l: "ledger_ok pid l" and f: "find_slot c t l = None" and b: "0 \<le> b" and c: "length c \<le> MAX_LABEL_CHARS"
  shows "refines_put pid (c, t) b l (publish_new c t b now (active_slot_count l) l)"
proof (cases "active_slot_count l \<ge> tl_capacity l")
  case True
  then show ?thesis using record_rejection_ok [OF l] by (simp add: publish_new_def refines_put_def)
next
  case room: False
  obtain o1 l1 where p: "prepare_generation_advance l = (o1, l1)" by fastforce
  show ?thesis
  proof (cases o1)
    case None
    then show ?thesis using prepare_None [OF l, of l1] p room by (simp add: publish_new_def refines_put_def)
  next
    case (Some g)
    have g: "l1 = l" "g = tl_generation l + 1" "g \<le> MAX_GENERATION" using prepare_Some [OF l, of g l1] p Some by auto
    obtain i where free: "find_free_slot l = Some i" using free_slot_exists [OF l] room by auto
    obtain as x bs where s: "tl_slots l = as @ x # bs" and i: "i = length as" and x: "\<not> sl_active x"
      using free unfolding find_free_slot_def by (rule first_slot_Some)
    let ?y = "\<lparr>sl_active = True, sl_category = c, sl_token = t, sl_retained_bytes = b, sl_since_ns = now, sl_generation = g\<rparr>"
    let ?l = "l\<lparr>tl_slots := as @ ?y # bs, tl_owners := active_slot_count l + 1, tl_generation := g\<rparr>"
    have y: "slot_key ?y = (c, t)" by (simp add: slot_key_def)
    have n: "(c, t) \<notin> fst ` set (slot_entries as @ slot_entries bs)"
      using f x by (simp add: find_slot_None owner_map_def s map_of_eq_None_iff del: map_of_append)
    then have na: "(c, t) \<notin> fst ` set (slot_entries as)" by auto
    have oks: "list_all (slot_ok g) (as @ x # bs)" using slots_ok_mono [OF ledger_okD(3) [OF l], of g] g(2) s by simp
    have "slot_ok g ?y" using b c g(2) ledger_okD(4) [OF l] by (simp add: slot_ok_def)
    then have ok: "ledger_ok pid ?l"
      using oks n y x g ledger_okD(1) [OF l] by (intro ledger_ok_update [OF l]) (auto simp: s active_slot_count_def)
    have "owner_map ?l = (owner_map l)((c, t) \<mapsto> b)"
      using map_of_replace [OF na, of b "slot_entries bs"] x y by (simp add: owner_map_def s del: map_of_append)
    then show ?thesis using ok p Some g(1) room free by (simp add: publish_new_def refines_put_def s i)
  qed
qed

lemma publish_ok:
  assumes "ledger_ok pid l" "0 \<le> b"
  obtains r l' where "publish pid now c t b l = (Inr r, l')" "refines_put pid (bounded_label c, t) b l (r, l')"
proof -
  let ?r = "case find_slot (bounded_label c) t l of Some i \<Rightarrow> publish_existing i b l
    | None \<Rightarrow> publish_new (bounded_label c) t b now (active_slot_count l) l"
  have nc: "\<not> tl_corrupted l" using assms(1) by (simp add: ledger_ok_def)
  have "publish pid now c t b l = apfst Inr ?r"
    using assms nc by (simp add: publish_def ensure_ok validate_ok Let_def)
  moreover have "refines_put pid (bounded_label c, t) b l ?r"
    using publish_existing_ok [OF assms(1) _ assms(2)] publish_new_ok [OF assms(1) _ assms(2) bounded_label_length]
    by (simp split: option.split)
  ultimately show thesis by (cases ?r) (auto intro: that)
qed

lemma publish_negative: "b < 0 \<Longrightarrow> ledger_ok pid l \<Longrightarrow> \<exists>e. publish pid now c t b l = (Inl e, l)"
  by (simp add: publish_def ensure_ok Let_def)

lemma advance_after_retire_ok:
  assumes "ledger_ok pid l"
  shows "ledger_ok pid (advance_after_retire l)" "owner_map (advance_after_retire l) = owner_map l"
proof -
  obtain o1 l1 where p: "prepare_generation_advance l = (o1, l1)" by fastforce
  have "ledger_ok pid (advance_after_retire l) \<and> owner_map (advance_after_retire l) = owner_map l"
  proof (cases o1)
    case None
    then show ?thesis using prepare_None [OF assms, of l1] p by (simp add: advance_after_retire_def)
  next
    case (Some g)
    have g: "l1 = l" "g = tl_generation l + 1" "g \<le> MAX_GENERATION" using prepare_Some [OF assms, of g l1] p Some by auto
    have "list_all (slot_ok g) (tl_slots l)" using slots_ok_mono [OF ledger_okD(3) [OF assms]] g(2) by simp
    then have "ledger_ok pid (l\<lparr>tl_slots := tl_slots l, tl_owners := tl_owners l, tl_generation := g\<rparr>)"
      using g ledger_okD(1,2) [OF assms] by (intro ledger_ok_update [OF assms]) (simp_all add: active_slot_count_def)
    then show ?thesis using p Some g(1) by (simp add: advance_after_retire_def owner_map_def)
  qed
  then show "ledger_ok pid (advance_after_retire l)" "owner_map (advance_after_retire l) = owner_map l" by simp_all
qed

text \<open>Taking slots out, before the generation advances.\<close>

lemma clear_slots_ok:
  assumes l: "ledger_ok pid l" and "length ss = length (tl_slots l)" "distinct (map fst (slot_entries ss))"
    "list_all (slot_ok (tl_generation l)) ss" "n = int (length (filter sl_active ss))"
  shows "ledger_ok pid (l\<lparr>tl_slots := ss, tl_owners := n\<rparr>)"
proof -
  have "tl_generation l \<le> MAX_GENERATION" using l by (simp add: ledger_ok_def)
  from ledger_ok_update [OF l assms(2-4) order_refl this assms(5)] show ?thesis by simp
qed

lemma retire_ok:
  assumes l: "ledger_ok pid l"
  shows "ledger_ok pid (retire pid c t l) \<and> owner_map (retire pid c t l) = (owner_map l)((bounded_label c, t) := None)"
proof (cases "find_slot (bounded_label c) t l")
  case None
  then have "owner_map l (bounded_label c, t) = None" by (simp add: find_slot_None)
  then have "(owner_map l)((bounded_label c, t) := None) = owner_map l" by (simp add: fun_upd_idem)
  then show ?thesis using l None by (simp add: retire_def ensure_ok validate_ok Let_def)
next
  case (Some i)
  obtain as x bs where s: "tl_slots l = as @ x # bs" and i: "i = length as" and m: "slot_matches (bounded_label c) t x"
    using Some unfolding find_slot_def by (rule first_slot_Some)
  have x: "sl_active x" "slot_key x = (bounded_label c, t)" using m by (simp_all add: slot_matches_def slot_key_def)
  let ?l = "l\<lparr>tl_slots := as @ cleared_slot # bs, tl_owners := active_slot_count l - 1\<rparr>"
  have d: "distinct (map fst (slot_entries as @ ((bounded_label c, t), sl_retained_bytes x) # slot_entries bs))"
    using ledger_okD(1) [OF l] x by (simp add: s)
  have "slot_ok (tl_generation l) cleared_slot" by (simp add: slot_ok_def)
  then have ok: "ledger_ok pid ?l"
    using d x ledger_okD(3) [OF l] by (intro clear_slots_ok [OF l]) (simp_all add: s active_slot_count_def)
  have "owner_map ?l = (owner_map l)((bounded_label c, t) := None)"
    using map_of_take_out [OF d] x by (simp add: owner_map_def s del: map_of_append)
  then show ?thesis
    using advance_after_retire_ok [OF ok] Some l by (simp add: retire_def ensure_ok validate_ok Let_def s i)
qed

definition without_category :: "string \<Rightarrow> (string \<times> int \<rightharpoonup> int) \<Rightarrow> string \<times> int \<rightharpoonup> int" where
  "without_category c m = (\<lambda>k. if fst k = c then None else m k)"

definition clear_category :: "string \<Rightarrow> owner_slot \<Rightarrow> owner_slot" where
  "clear_category c s = (if in_category c s then cleared_slot else s)"

lemma entries_clear_category:
  "slot_entries (map (clear_category c) ss) = filter (\<lambda>e. fst (fst e) \<noteq> c) (slot_entries ss)"
  by (induction ss) (auto simp: clear_category_def in_category_def slot_key_def)

lemma map_of_without: "map_of (filter (\<lambda>e. fst (fst e) \<noteq> c) es) = without_category c (map_of es)"
  by (induction es) (auto simp: without_category_def fun_eq_iff)

lemma count_clear_category:
  "length (filter sl_active (map (clear_category c) ss)) + length (filter (in_category c) ss) = length (filter sl_active ss)"
  by (induction ss) (auto simp: clear_category_def in_category_def)

lemma no_category_entries: "length (filter (in_category c) ss) = 0 \<Longrightarrow> map (clear_category c) ss = ss"
  by (induction ss) (auto simp: clear_category_def split: if_splits)

lemma retire_category_ok:
  assumes l: "ledger_ok pid l"
  shows "ledger_ok pid (retire_category pid c l) \<and> owner_map (retire_category pid c l) = without_category (bounded_label c) (owner_map l)"
proof -
  let ?c = "bounded_label c" and ?n = "int (length (filter (in_category (bounded_label c)) (tl_slots l)))"
  let ?ss = "map (clear_category ?c) (tl_slots l)"
  have view: "map_of (slot_entries ?ss) = without_category ?c (owner_map l)"
    by (simp add: entries_clear_category map_of_without owner_map_def)
  show ?thesis
  proof (cases "?n = 0")
    case True
    then have "?ss = tl_slots l" using no_category_entries [of ?c "tl_slots l"] by simp
    then show ?thesis using view l True by (simp add: retire_category_def ensure_ok validate_ok Let_def owner_map_def)
  next
    case False
    let ?l = "l\<lparr>tl_slots := ?ss, tl_owners := active_slot_count l - ?n\<rparr>"
    have "distinct (map fst (slot_entries ?ss))"
      using ledger_okD(1) [OF l] by (simp add: entries_clear_category distinct_map_filter)
    moreover have "list_all (slot_ok (tl_generation l)) ?ss"
      using ledger_okD(3) [OF l] by (auto simp: list_all_iff clear_category_def slot_ok_def)
    ultimately have ok: "ledger_ok pid ?l"
      using count_clear_category [of ?c "tl_slots l"] by (intro clear_slots_ok [OF l]) (simp_all add: active_slot_count_def)
    have "owner_map ?l = without_category ?c (owner_map l)" using view by (simp add: owner_map_def)
    moreover have "retire_category pid c l = advance_after_retire ?l"
      using False l by (simp add: retire_category_def ensure_ok validate_ok Let_def clear_category_def [abs_def])
    ultimately show ?thesis using advance_after_retire_ok [OF ok] by simp
  qed
qed

lemma init_ledger_ok:
  assumes "init_ledger pid capacity = Inr l"
  shows "ledger_ok pid l" "owner_map l = Map.empty" "tl_capacity l = capacity"
proof -
  have e: "slot_entries (replicate n cleared_slot) = []" "filter sl_active (replicate n cleared_slot) = []" for n
    by (induction n) simp_all
  have "1 \<le> capacity" "capacity \<le> MAX_TERMINAL_OWNERS" using assms by (auto simp: init_ledger_def split: if_splits)
  then show "ledger_ok pid l" "owner_map l = Map.empty" "tl_capacity l = capacity"
    using assms by (auto simp: init_ledger_def reset_ledger_def ledger_ok_def owner_map_def active_slot_count_def latch_ok_def
        e slot_ok_def map_replicate_const list_all_iff MAX_GENERATION_def split: if_splits)
qed

section \<open>Rejections stay visible\<close>

lemma prepare_latched: "tl_rejected_latched l \<Longrightarrow> tl_rejected_latched (snd (prepare_generation_advance l))"
  by (simp add: prepare_generation_advance_def)

lemma capacity_simps [simp]:
  "tl_capacity (ensure_process pid l) = tl_capacity l" "tl_capacity (record_rejection l) = tl_capacity l"
  "tl_capacity (snd (prepare_generation_advance l)) = tl_capacity l" "tl_capacity (snd (validate_owner_cache l)) = tl_capacity l"
  by (simp_all add: ensure_process_def reset_ledger_def record_rejection_def prepare_generation_advance_def validate_owner_cache_def Let_def)

lemma publish_latched:
  assumes "ledger_ok pid l" "tl_rejected_latched l"
  shows "tl_rejected_latched (snd (publish pid now c t b l))"
  using assms prepare_latched [OF assms(2)]
  by (auto simp: publish_def ensure_ok validate_ok Let_def publish_existing_def publish_new_def record_rejection_def
      split: option.split prod.split)

lemma retire_latched:
  assumes "ledger_ok pid l" "tl_rejected_latched l"
  shows "tl_rejected_latched (retire pid c t l)" "tl_rejected_latched (retire_category pid c l)"
  using assms
  by (auto simp: retire_def retire_category_def ensure_ok validate_ok Let_def advance_after_retire_def
      prepare_generation_advance_def split: option.split)


section \<open>Interface\<close>

definition terminal_put :: "int \<Rightarrow> int \<Rightarrow> string \<times> int \<Rightarrow> int \<Rightarrow> ownership_ledger \<Rightarrow> bool \<times> ownership_ledger" where
  "terminal_put pid now k b l =
     (case publish pid now (fst k) (snd k) b l of (Inr r, l') \<Rightarrow> (r, l') | (Inl e, l') \<Rightarrow> (False, l'))"

definition terminal_take :: "int \<Rightarrow> int \<Rightarrow> string \<times> int \<Rightarrow> int \<Rightarrow> ownership_ledger \<Rightarrow> bool \<times> ownership_ledger" where
  "terminal_take pid now k b l = (True, retire pid (fst k) (snd k) l)"

definition terminal_key :: "string \<times> int \<Rightarrow> string \<times> int" where
  "terminal_key k = (bounded_label (fst k), snd k)"

lemma terminal_put_refines:
  assumes "ledger_ok pid l"
  shows "ledger_ok pid (snd (terminal_put pid now k b l))
    \<and> owner_map (snd (terminal_put pid now k b l))
        = (if fst (terminal_put pid now k b l) then (owner_map l)(terminal_key k \<mapsto> b) else owner_map l)"
proof (cases "0 \<le> b")
  case True
  obtain r l' where p: "publish pid now (fst k) (snd k) b l = (Inr r, l')" "refines_put pid (bounded_label (fst k), snd k) b l (r, l')"
    by (rule publish_ok [OF assms True])
  then show ?thesis by (simp add: terminal_put_def terminal_key_def refines_put_def)
next
  case False
  then obtain e where "publish pid now (fst k) (snd k) b l = (Inl e, l)"
    using publish_negative [of b pid l now "fst k" "snd k"] assms by auto
  then show ?thesis using assms by (simp add: terminal_put_def)
qed

interpretation terminal: keyed_ledger "ledger_ok pid" owner_map terminal_key "terminal_put pid" "terminal_take pid" for pid
proof (standard, goal_cases)
  case (1 l) show ?case by (simp add: owner_map_def finite_dom_map_of)
next
  case (2 l e k b) then show ?case using terminal_put_refines by blast
next
  case (3 l e k b) then show ?case using terminal_put_refines by blast
next
  case (4 l e k b) then show ?case using retire_ok by (simp add: terminal_take_def)
next
  case (5 l e k b) then show ?case using retire_ok by (simp add: terminal_take_def terminal_key_def)
qed

section \<open>Snapshots\<close>

lemma snapshot_loop_sums:
  "snapshot_loop ss (cs, r, old, n) = (cs', r', old', n') \<Longrightarrow>
     r' = r + sum_list (map snd (slot_entries ss)) \<and> n' = n + int (length (slot_entries ss))"
  by (induction ss "(cs, r, old, n)" arbitrary: cs r old n rule: snapshot_loop.induct) (auto split: if_splits)

lemma map_of_count_category:
  "map_of (count_category c cs) d = (if d = c then Some (1 + (case map_of cs c of None \<Rightarrow> 0 | Some n \<Rightarrow> n)) else map_of cs d)"
  by (induction c cs rule: count_category.induct) auto

lemma count_category_keys: "fst ` set (count_category c cs) = insert c (fst ` set cs)"
  by (induction c cs rule: count_category.induct) auto

lemma count_category_distinct: "distinct (map fst cs) \<Longrightarrow> distinct (map fst (count_category c cs))"
  by (induction c cs rule: count_category.induct) (auto simp: count_category_keys)

lemma snapshot_loop_counts:
  "snapshot_loop ss (cs, r, old, n) = (cs', r', old', n') \<Longrightarrow> distinct (map fst cs) \<Longrightarrow>
     distinct (map fst cs') \<and> map_of cs' c =
       (let k = int (length (filter (in_category c) ss)) in
        if k = 0 then map_of cs c else Some (k + (case map_of cs c of None \<Rightarrow> 0 | Some m \<Rightarrow> m)))"
proof (induction ss "(cs, r, old, n)" arbitrary: cs r old n rule: snapshot_loop.induct)
  case (2 s ss cs r old n)
  show ?case
  proof (cases "sl_active s")
    case False
    then show ?thesis using "2.hyps"(1) [OF False] "2.prems" by (simp add: in_category_def)
  next
    case True
    have p: "snapshot_loop ss (count_category (sl_category s) cs, r + sl_retained_bytes s,
        (if old = 0 \<or> sl_since_ns s < old then sl_since_ns s else old), n + 1) = (cs', r', old', n')"
      using "2.prems"(1) True by simp
    have "distinct (map fst (count_category (sl_category s) cs))" by (rule count_category_distinct [OF "2.prems"(2)])
    from "2.hyps"(2) [OF _ p this] True show ?thesis
      by (auto simp: Let_def in_category_def map_of_count_category split: if_splits option.splits)
  qed
qed simp

lemma snapshot_accounts:
  assumes "ledger_ok pid l"
  shows "ts_owners (snapshot_of l) = int (card (dom (owner_map l)))"
    "ts_retained_bytes (snapshot_of l) = ledger_total (owner_map l)"
    "ts_metadata_bytes (snapshot_of l) = 128 * ts_owners (snapshot_of l)"
    "ts_owners (snapshot_of l) \<le> tl_capacity l"
proof -
  obtain cs r old n where p: "snapshot_loop (tl_slots l) ([], 0, 0, 0) = (cs, r, old, n)" by (metis surj_pair)
  note sums = snapshot_loop_sums [OF p]
  have d: "distinct (map fst (slot_entries (tl_slots l)))" by (rule ledger_okD(1) [OF assms])
  then have "card (dom (owner_map l)) = length (slot_entries (tl_slots l))"
    by (metis owner_map_def dom_map_of_conv_image_fst distinct_card length_map list.set_map)
  moreover have "ledger_total (owner_map l) = sum_list (map snd (slot_entries (tl_slots l)))"
    unfolding owner_map_def by (rule ledger_total_list [OF d])
  moreover have "int (length (slot_entries (tl_slots l))) \<le> tl_capacity l"
    using ledger_okD(5) [OF assms] length_filter_le [of sl_active "tl_slots l"] unfolding length_slot_entries by linarith
  ultimately show "ts_owners (snapshot_of l) = int (card (dom (owner_map l)))"
    "ts_retained_bytes (snapshot_of l) = ledger_total (owner_map l)"
    "ts_metadata_bytes (snapshot_of l) = 128 * ts_owners (snapshot_of l)"
    "ts_owners (snapshot_of l) \<le> tl_capacity l"
    using sums by (simp_all add: snapshot_of_def p TERMINAL_OWNER_RECORD_BYTES_def)
qed


section \<open>Histories\<close>

text \<open>
  The states of a ledger in one process, with the owners published and not retired
  since and whether a publication was ever refused.
\<close>

inductive ledger_reach :: "int \<Rightarrow> int \<Rightarrow> ownership_ledger \<Rightarrow> (string \<times> int \<rightharpoonup> int) \<Rightarrow> bool \<Rightarrow> bool" for pid capacity where
  start: "init_ledger pid capacity = Inr l \<Longrightarrow> ledger_reach pid capacity l Map.empty False"
| published: "ledger_reach pid capacity l m refused \<Longrightarrow> publish pid now c t b l = (Inr r, l') \<Longrightarrow>
    ledger_reach pid capacity l' (if r then m((bounded_label c, t) \<mapsto> b) else m) (refused \<or> \<not> r)"
| raised: "ledger_reach pid capacity l m refused \<Longrightarrow> publish pid now c t b l = (Inl e, l') \<Longrightarrow> ledger_reach pid capacity l' m refused"
| retired: "ledger_reach pid capacity l m refused \<Longrightarrow>
    ledger_reach pid capacity (retire pid c t l) (m((bounded_label c, t) := None)) refused"
| retired_category: "ledger_reach pid capacity l m refused \<Longrightarrow>
    ledger_reach pid capacity (retire_category pid c l) (without_category (bounded_label c) m) refused"

lemma publish_outcome:
  assumes "ledger_ok pid l"
  shows "publish pid now c t b l = (Inr r, l') \<Longrightarrow> 0 \<le> b \<and> refines_put pid (bounded_label c, t) b l (r, l')"
    and "publish pid now c t b l = (Inl e, l') \<Longrightarrow> l' = l"
proof -
  have neg: "\<exists>e. publish pid now c t b l = (Inl e, l)" if "\<not> 0 \<le> b" using publish_negative [of b pid l now c t] that assms by simp
  show "publish pid now c t b l = (Inr r, l') \<Longrightarrow> 0 \<le> b \<and> refines_put pid (bounded_label c, t) b l (r, l')"
    using neg by (cases "0 \<le> b") (auto elim: publish_ok [OF assms, of b now c t])
  show "publish pid now c t b l = (Inl e, l') \<Longrightarrow> l' = l"
    using neg by (cases "0 \<le> b") (auto elim: publish_ok [OF assms, of b now c t])
qed

lemma retire_capacity [simp]:
  "tl_capacity (advance_after_retire l) = tl_capacity l" "tl_capacity (retire pid c t l) = tl_capacity l"
  "tl_capacity (retire_category pid c l) = tl_capacity l"
proof -
  have adv: "tl_capacity (advance_after_retire l) = tl_capacity l" for l
    by (simp add: advance_after_retire_def prepare_generation_advance_def)
  have "tl_capacity l1 = tl_capacity l" if "validate_owner_cache (ensure_process pid l) = (a, l1)" for a l1
    using capacity_simps(4) [of "ensure_process pid l"] that by simp
  then show "tl_capacity (retire pid c t l) = tl_capacity l" "tl_capacity (retire_category pid c l) = tl_capacity l"
    by (auto simp: retire_def retire_category_def Let_def adv split: prod.split option.split)
qed (simp add: advance_after_retire_def prepare_generation_advance_def)

lemma publish_capacity:
  assumes "ledger_ok pid l"
  shows "tl_capacity (snd (publish pid now c t b l)) = tl_capacity l"
proof -
  obtain x y where p: "prepare_generation_advance l = (x, y)" by fastforce
  then have "tl_capacity y = tl_capacity l" using capacity_simps(3) [of l] by simp
  then show ?thesis
    using assms p
    by (auto simp: publish_def ensure_ok validate_ok Let_def publish_existing_def publish_new_def split: option.split)
qed

lemma reach_ok:
  assumes "ledger_reach pid capacity l m refused"
  shows "ledger_ok pid l \<and> owner_map l = m \<and> tl_capacity l = capacity \<and> (refused \<longrightarrow> tl_rejected_latched l)"
  using assms
proof induction
  case (start l)
  then show ?case using init_ledger_ok by simp
next
  case (published l m refused now c t b r l')
  have ok: "ledger_ok pid l" using published.IH by simp
  have "refines_put pid (bounded_label c, t) b l (r, l')" using publish_outcome(1) [OF ok published.hyps(2)] by simp
  moreover have "tl_capacity l' = tl_capacity l" using publish_capacity [OF ok, of now c t b] published.hyps(2) by simp
  moreover have "tl_rejected_latched l \<Longrightarrow> tl_rejected_latched l'" using publish_latched [OF ok, of now c t b] published.hyps(2) by simp
  ultimately show ?case using published.IH by (auto simp: refines_put_def)
next
  case (raised l m refused now c t b e l')
  then show ?case using publish_outcome(2) by blast
next
  case (retired l m refused c t)
  then show ?case using retire_ok retire_latched(1) by simp
next
  case (retired_category l m refused c)
  then show ?case using retire_category_ok retire_latched(2) by simp
qed

text \<open>
  C15: the terminal ledger loses no owner.  After any history of publications,
  retirements of owners and of categories, the snapshot counts exactly the owners
  published and not retired since, attributes exactly their bytes, stays within
  the capacity and is never corrupted; once a publication was refused, every later
  snapshot shows a rejection; and an owner of a free key below capacity is accepted
  as long as generations last.
\<close>

theorem terminal_ledger_is_exact:
  assumes "ledger_reach pid capacity l m refused"
  shows "let s = snapshot_of l in
     ts_owners s = int (card (dom m)) \<and> ts_retained_bytes s = ledger_total m \<and> ts_owners s \<le> capacity \<and> \<not> ts_corrupted s
     \<and> total_attributed_bytes s = ledger_total m + 128 * int (card (dom m))
     \<and> (refused \<longrightarrow> 1 \<le> ts_rejected s)
     \<and> (int (card (dom m)) < capacity \<and> 0 \<le> b \<and> tl_generation l < MAX_GENERATION \<and> \<not> tl_generation_exhausted l
          \<longrightarrow> fst (publish pid now c t b l) = Inr True)"
proof -
  have ok: "ledger_ok pid l" and m: "owner_map l = m" "tl_capacity l = capacity" and lat: "refused \<longrightarrow> tl_rejected_latched l"
    using reach_ok [OF assms] by simp_all
  note acc = snapshot_accounts [OF ok, unfolded m]
  have acpt: "fst (publish pid now c t b l) = Inr True"
    if g: "int (card (dom m)) < capacity" "0 \<le> b" "tl_generation l < MAX_GENERATION" "\<not> tl_generation_exhausted l"
  proof -
    have p: "prepare_generation_advance l = (Some (tl_generation l + 1), l)" using g by (simp add: prepare_generation_advance_def)
    have "card (dom m) = length (slot_entries (tl_slots l))"
      unfolding m(1) [symmetric] owner_map_def dom_map_of_conv_image_fst
      using distinct_card [OF ledger_okD(1) [OF ok]] by (simp add: image_set [symmetric])
    then have n: "active_slot_count l < capacity" using g(1) by (simp add: active_slot_count_def length_slot_entries)
    then obtain i where "find_free_slot l = Some i" using free_slot_exists [OF ok] m(2) by auto
    then show ?thesis
      using g p n ok m(2) by (auto simp: publish_def ensure_ok validate_ok publish_existing_def publish_new_def Let_def ledger_ok_def
        split: option.split)
  qed
  have "\<not> ts_corrupted (snapshot_of l)" "refused \<longrightarrow> 1 \<le> ts_rejected (snapshot_of l)"
    using ok lat by (auto simp: snapshot_of_def ledger_ok_def split: prod.split)
  then show ?thesis using acc acpt by (simp add: Let_def total_attributed_bytes_def)
qed

theorem terminal_ledger_is_exact_witness:
  "\<exists>l. ledger_reach 1 1 l [(''a'', 5) \<mapsto> 7] True \<and> ts_owners (snapshot_of l) = 1 \<and> ts_retained_bytes (snapshot_of l) = 7
     \<and> 1 \<le> ts_rejected (snapshot_of l)"
proof -
  obtain x y z where i: "init_ledger 1 1 = Inr x" and p: "publish 1 100 ''a'' 5 7 x = (Inr True, y)"
    and q: "publish 1 101 ''b'' 6 2 y = (Inr False, z)"
  proof -
    define x where "x = projr (init_ledger 1 1)"
    define y where "y = snd (publish 1 100 ''a'' 5 7 x)"
    define z where "z = snd (publish 1 101 ''b'' 6 2 y)"
    have "init_ledger 1 1 = Inr x" unfolding x_def by code_simp
    moreover have "publish 1 100 ''a'' 5 7 x = (Inr True, y)" unfolding y_def x_def by code_simp
    moreover have "publish 1 101 ''b'' 6 2 y = (Inr False, z)" unfolding z_def y_def x_def by code_simp
    ultimately show thesis by (rule that)
  qed
  have "bounded_label ''a'' = ''a''" by code_simp
  then have "ledger_reach 1 1 z [(''a'', 5) \<mapsto> 7] True"
    using ledger_reach.published [OF ledger_reach.published [OF ledger_reach.start [OF i] p] q] by simp
  moreover have "ledger_total [(''a'', 5 :: int) \<mapsto> 7] = 7" by (simp add: ledger_total_def)
  ultimately show ?thesis using terminal_ledger_is_exact [of 1 1 z "[(''a'', 5) \<mapsto> 7]" True] by (auto simp: Let_def)
qed

end
