(* ===== verification/Static_Control_Plane.thy ===== *)
theory Static_Control_Plane
  imports Keyed_Ledger
begin

text \<open>
  Model of \<^verbatim>\<open>core_impl/static_control_plane.py\<close>: the charges of structures that live
  as long as the process, each registered once under its kind until the registry is
  frozen.  The registrations are the authority and the total is a cache that every
  call compares with them.  Whether the dynamic budget is loaded and how its
  synchronization ends are arguments.  A reservation takes the lock up to twice, so
  its two regions are operations of their own.
\<close>

section \<open>State\<close>

definition MAX_STATIC_CONTROL_KINDS :: nat where "MAX_STATIC_CONTROL_KINDS = 256"

record static_registry =
  sr_entries :: "(string \<times> int) list"
  sr_total :: int
  sr_frozen :: bool
  sr_corrupted :: bool

definition empty_registry :: static_registry where
  "empty_registry = \<lparr>sr_entries = [], sr_total = 0, sr_frozen = False, sr_corrupted = False\<rparr>"

definition authoritative_total :: "static_registry \<Rightarrow> int" where
  "authoritative_total r = sum_list (map snd (sr_entries r))"

definition validate_total :: "static_registry \<Rightarrow> int \<times> static_registry" where
  "validate_total r =
     (let authoritative = authoritative_total r in
      (authoritative, if sr_total r \<noteq> authoritative then r\<lparr>sr_corrupted := True\<rparr> else r))"

definition pop_entry :: "string \<Rightarrow> static_registry \<Rightarrow> static_registry" where
  "pop_entry kind r = r\<lparr>sr_entries := filter (\<lambda>e. fst e \<noteq> kind) (sr_entries r)\<rparr>"

section \<open>Regions under the lock\<close>

definition publish_static :: "string \<Rightarrow> int \<Rightarrow> static_registry \<Rightarrow> bool result \<times> static_registry" where
  "publish_static kind amount r =
     (case validate_total r of
        (authoritative, r) \<Rightarrow>
          if sr_corrupted r
          then (Inl (RuntimeError ''static control-plane registry is corrupted; admission is closed''), r)
          else case map_of (sr_entries r) kind of
            Some existing \<Rightarrow>
              if existing \<noteq> amount then (Inl (RuntimeError ''static control-plane registration changed''), r)
              else (Inr False, r)
          | None \<Rightarrow>
              if sr_frozen r then (Inl (RuntimeError ''static control-plane registry is frozen''), r)
              else if length (sr_entries r) \<ge> MAX_STATIC_CONTROL_KINDS
              then (Inl (RuntimeError ''static control-plane registry capacity exhausted''), r)
              else (Inr True, r\<lparr>sr_entries := sr_entries r @ [(kind, amount)], sr_total := authoritative + amount\<rparr>))"

definition undo_static :: "string \<Rightarrow> int \<Rightarrow> static_registry \<Rightarrow> static_registry" where
  "undo_static kind amount r =
     (case validate_total r of
        (authoritative, r) \<Rightarrow>
          if map_of (sr_entries r) kind = Some amount
          then (pop_entry kind r)\<lparr>sr_total := authoritative - amount\<rparr> else r)"

definition retire_static :: "string \<Rightarrow> int \<Rightarrow> static_registry \<Rightarrow> bool \<times> static_registry" where
  "retire_static kind amount r =
     (case validate_total r of
        (authoritative, r) \<Rightarrow>
          if sr_frozen r \<or> map_of (sr_entries r) kind \<noteq> Some amount then (False, r)
          else if authoritative < amount then (False, r)
          else (True, (pop_entry kind r)\<lparr>sr_total := authoritative - amount\<rparr>))"

section \<open>Operations\<close>

text \<open>Without the budget no synchronization can fail; with it the first one may raise.\<close>

datatype sync_outcome = Not_Loaded | Synced | Sync_Raised pyerr

definition reserve_static_control_plane :: "sync_outcome \<Rightarrow> string \<Rightarrow> int \<Rightarrow> static_registry \<Rightarrow> bool result \<times> static_registry" where
  "reserve_static_control_plane sync kind amount r =
     (if kind = [] \<or> amount < 0 then (Inl (ValueError ''invalid static control-plane registration''), r)
      else case publish_static kind amount r of
        (Inr True, r1) \<Rightarrow> (case sync of Sync_Raised e \<Rightarrow> (Inl e, undo_static kind amount r1) | _ \<Rightarrow> (Inr True, r1))
      | (result, r1) \<Rightarrow> (result, r1))"

definition rollback_static_control_plane :: "sync_outcome \<Rightarrow> string \<Rightarrow> int \<Rightarrow> static_registry \<Rightarrow> bool \<times> static_registry" where
  "rollback_static_control_plane sync kind amount r = retire_static kind amount r"

definition register_static_control_plane :: "sync_outcome \<Rightarrow> string \<Rightarrow> int \<Rightarrow> static_registry \<Rightarrow> unit result \<times> static_registry" where
  "register_static_control_plane sync kind amount r =
     apfst (rlift (\<lambda>_. ())) (reserve_static_control_plane sync kind amount r)"

definition static_control_plane_bytes :: "static_registry \<Rightarrow> int \<times> static_registry" where
  "static_control_plane_bytes r = validate_total r"

definition static_control_plane_entries :: "static_registry \<Rightarrow> (string \<times> int) list" where
  "static_control_plane_entries r = sr_entries r"

definition freeze_static_control_plane :: "static_registry \<Rightarrow> int \<times> static_registry" where
  "freeze_static_control_plane r =
     (case validate_total r of (authoritative, r) \<Rightarrow> (authoritative, r\<lparr>sr_frozen := True\<rparr>))"

section \<open>Invariant\<close>

definition static_ok :: "static_registry \<Rightarrow> bool" where
  "static_ok r \<longleftrightarrow>
     distinct (map fst (sr_entries r)) \<and> sr_total r = authoritative_total r \<and> \<not> sr_corrupted r
     \<and> length (sr_entries r) \<le> MAX_STATIC_CONTROL_KINDS \<and> list_all (\<lambda>e. fst e \<noteq> [] \<and> 0 \<le> snd e) (sr_entries r)"

definition static_map :: "static_registry \<Rightarrow> string \<rightharpoonup> int" where
  "static_map r = map_of (sr_entries r)"

lemma validate_total_ok [simp]: "static_ok r \<Longrightarrow> validate_total r = (authoritative_total r, r)"
  by (simp add: validate_total_def static_ok_def)

lemma authoritative_is_total: "static_ok r \<Longrightarrow> authoritative_total r = ledger_total (static_map r)"
  by (simp add: static_ok_def authoritative_total_def static_map_def ledger_total_list)

lemma amount_nonneg: "static_ok r \<Longrightarrow> static_map r k = Some b \<Longrightarrow> 0 \<le> b"
  by (auto simp: static_ok_def static_map_def list_all_iff dest!: map_of_SomeD)

lemma map_of_pop: "map_of (filter (\<lambda>e. fst e \<noteq> k) es) = (map_of es)(k := None)"
  by (induction es) (auto simp: fun_eq_iff)

lemma sum_pop:
  "distinct (map fst es) \<Longrightarrow> map_of es k = Some b \<Longrightarrow> sum_list (map snd (filter (\<lambda>e. fst e \<noteq> k) es)) = sum_list (map snd es) - (b :: int)"
proof (induction es)
  case (Cons e es)
  have "filter (\<lambda>x. fst x \<noteq> k) es = es" if "k \<notin> fst ` set es" using that by (force simp: filter_id_conv)
  then show ?case using Cons by (cases e) (auto split: if_splits)
qed simp

lemma pop_ok:
  assumes "static_ok r" "map_of (sr_entries r) kind = Some amount"
  shows "static_ok ((pop_entry kind r)\<lparr>sr_total := authoritative_total r - amount\<rparr>)"
    "static_map ((pop_entry kind r)\<lparr>sr_total := authoritative_total r - amount\<rparr>) = (static_map r)(kind := None)"
proof -
  have "length (filter (\<lambda>e. fst e \<noteq> kind) (sr_entries r)) \<le> MAX_STATIC_CONTROL_KINDS"
    using assms(1) length_filter_le [of "\<lambda>e. fst e \<noteq> kind" "sr_entries r"] unfolding static_ok_def by linarith
  then show "static_ok ((pop_entry kind r)\<lparr>sr_total := authoritative_total r - amount\<rparr>)"
    using assms sum_pop [of "sr_entries r" kind amount]
    by (auto simp: static_ok_def pop_entry_def authoritative_total_def distinct_map_filter list_all_iff)
  show "static_map ((pop_entry kind r)\<lparr>sr_total := authoritative_total r - amount\<rparr>) = (static_map r)(kind := None)"
    by (simp add: static_map_def pop_entry_def map_of_pop)
qed

lemma publish_static_ok:
  assumes "static_ok r" "kind \<noteq> []" "0 \<le> amount" "publish_static kind amount r = (x, r')"
  shows "static_ok r'" "static_map r' = (if x = Inr True then (static_map r)(kind \<mapsto> amount) else static_map r)"
    "x = Inr True \<Longrightarrow> static_map r kind = None \<and> \<not> sr_frozen r" "sr_frozen r' = sr_frozen r"
proof -
  have "\<not> sr_corrupted r" using assms(1) by (simp add: static_ok_def)
  then consider (same) "r' = r" "x \<noteq> Inr True"
    | (new) "x = Inr True" "map_of (sr_entries r) kind = None" "\<not> sr_frozen r" "length (sr_entries r) < MAX_STATIC_CONTROL_KINDS"
        "r' = r\<lparr>sr_entries := sr_entries r @ [(kind, amount)], sr_total := authoritative_total r + amount\<rparr>"
    using assms(1,4) by (auto simp: publish_static_def split: option.splits if_splits)
  then have "static_ok r' \<and> static_map r' = (if x = Inr True then (static_map r)(kind \<mapsto> amount) else static_map r)
    \<and> (x = Inr True \<longrightarrow> static_map r kind = None \<and> \<not> sr_frozen r) \<and> sr_frozen r' = sr_frozen r"
  proof cases
    case same
    then show ?thesis using assms(1) by simp
  next
    case new
    have "map_of (sr_entries r @ [(kind, amount)]) = (map_of (sr_entries r))(kind \<mapsto> amount)"
      using new(2) by (auto simp: fun_eq_iff map_add_def split: option.split)
    then show ?thesis
      using new assms(1-3) by (auto simp: static_ok_def static_map_def authoritative_total_def map_of_eq_None_iff)
  qed
  then show "static_ok r'" "static_map r' = (if x = Inr True then (static_map r)(kind \<mapsto> amount) else static_map r)"
    "x = Inr True \<Longrightarrow> static_map r kind = None \<and> \<not> sr_frozen r" "sr_frozen r' = sr_frozen r" by simp_all
qed

lemma undo_static_ok:
  assumes "static_ok r"
  shows "static_ok (undo_static kind amount r)"
    "static_map (undo_static kind amount r) = (if static_map r kind = Some amount then (static_map r)(kind := None) else static_map r)"
    "sr_frozen (undo_static kind amount r) = sr_frozen r"
  using assms pop_ok [OF assms, of kind amount]
  by (auto simp: undo_static_def pop_entry_def static_map_def split: if_splits)

lemma retire_static_ok:
  assumes "static_ok r" "retire_static kind amount r = (x, r')"
  shows "static_ok r'" "static_map r' = (if x then (static_map r)(kind := None) else static_map r)"
    "x \<longleftrightarrow> static_map r kind = Some amount \<and> \<not> sr_frozen r" "sr_frozen r' = sr_frozen r"
proof -
  have "amount \<le> authoritative_total r" if "static_map r kind = Some amount"
  proof -
    have "0 \<le> ledger_total ((static_map r)(kind := None))"
      by (rule ledger_total_nonneg) (use amount_nonneg [OF assms(1)] in \<open>auto split: if_splits\<close>)
    then show ?thesis
      using ledger_total_take [of "static_map r" kind amount] that authoritative_is_total [OF assms(1)]
      by (simp add: static_map_def finite_dom_map_of)
  qed
  then show "static_ok r'" "static_map r' = (if x then (static_map r)(kind := None) else static_map r)"
    "x \<longleftrightarrow> static_map r kind = Some amount \<and> \<not> sr_frozen r" "sr_frozen r' = sr_frozen r"
    using assms pop_ok [OF assms(1), of kind amount]
    by (auto simp: retire_static_def static_map_def pop_entry_def split: if_splits)
qed

section \<open>Interface\<close>

definition static_put :: "sync_outcome \<Rightarrow> string \<Rightarrow> int \<Rightarrow> static_registry \<Rightarrow> bool \<times> static_registry" where
  "static_put sync kind amount r =
     (case reserve_static_control_plane sync kind amount r of (x, r') \<Rightarrow> (x = Inr True, r'))"

lemma static_put_refines:
  assumes "static_ok r"
  shows "static_ok (snd (static_put sync kind amount r))
    \<and> static_map (snd (static_put sync kind amount r))
        = (if fst (static_put sync kind amount r) then (static_map r)(kind \<mapsto> amount) else static_map r)"
proof (cases "kind = [] \<or> amount < 0")
  case True
  then show ?thesis using assms by (simp add: static_put_def reserve_static_control_plane_def)
next
  case False
  obtain x r1 where p: "publish_static kind amount r = (x, r1)" by fastforce
  note ok = publish_static_ok [OF assms _ _ p]
  show ?thesis
  proof (cases "x = Inr True")
    case True
    have m: "static_ok r1" "static_map r1 = (static_map r)(kind \<mapsto> amount)" "static_map r kind = None"
      using ok True False by auto
    have "(static_map r)(kind := None) = static_map r" using m(3) by (simp add: fun_upd_idem)
    then show ?thesis
      using p True False m undo_static_ok(1,2) [OF m(1), of kind amount]
      by (cases sync) (simp_all add: static_put_def reserve_static_control_plane_def)
  next
    case no: False
    then have "reserve_static_control_plane sync kind amount r = (x, r1)"
      using p False by (auto simp: reserve_static_control_plane_def split: sum.split bool.split)
    then show ?thesis using ok no False by (simp add: static_put_def)
  qed
qed

interpretation static: keyed_ledger static_ok static_map "\<lambda>k. k" static_put rollback_static_control_plane
proof (standard, goal_cases)
  case (1 r) show ?case by (simp add: static_map_def finite_dom_map_of)
next
  case (2 r e k b) then show ?case using static_put_refines by blast
next
  case (3 r e k b) then show ?case using static_put_refines by blast
next
  case (4 r e k b) then show ?case
    by (metis rollback_static_control_plane_def retire_static_ok(1) prod.collapse)
next
  case (5 r e k b) then show ?case
    by (metis rollback_static_control_plane_def retire_static_ok(2) prod.collapse)
qed

section \<open>Interleavings\<close>

text \<open>
  Every interleaving of the regions: a reservation publishes and may undo its own
  registration later, when others have run in between.  The map holds the
  registrations in force.
\<close>

inductive static_reach :: "static_registry \<Rightarrow> (string \<rightharpoonup> int) \<Rightarrow> bool" where
  start: "static_reach empty_registry Map.empty"
| publish: "static_reach r m \<Longrightarrow> kind \<noteq> [] \<Longrightarrow> 0 \<le> amount \<Longrightarrow> publish_static kind amount r = (x, r') \<Longrightarrow>
    static_reach r' (if x = Inr True then m(kind \<mapsto> amount) else m)"
| undo: "static_reach r m \<Longrightarrow> static_reach (undo_static kind amount r) (if m kind = Some amount then m(kind := None) else m)"
| retire: "static_reach r m \<Longrightarrow> retire_static kind amount r = (x, r') \<Longrightarrow> static_reach r' (if x then m(kind := None) else m)"
| bytes: "static_reach r m \<Longrightarrow> static_reach (snd (static_control_plane_bytes r)) m"
| freeze: "static_reach r m \<Longrightarrow> static_reach (snd (freeze_static_control_plane r)) m"

lemma freeze_ok:
  assumes "static_ok r"
  shows "static_ok (snd (freeze_static_control_plane r))" "static_map (snd (freeze_static_control_plane r)) = static_map r"
    "fst (freeze_static_control_plane r) = ledger_total (static_map r)"
  using assms authoritative_is_total [OF assms]
  by (simp_all add: freeze_static_control_plane_def static_ok_def static_map_def authoritative_total_def validate_total_def)

lemma static_reach_ok: "static_reach r m \<Longrightarrow> static_ok r \<and> static_map r = m"
proof (induction rule: static_reach.induct)
  case start
  then show ?case by (simp add: static_ok_def static_map_def empty_registry_def authoritative_total_def)
next
  case (publish r m kind amount x r')
  then show ?case using publish_static_ok(1,2) [of r kind amount x r'] by simp
next
  case (undo r m kind amount)
  then show ?case using undo_static_ok(1,2) [of r kind amount] by simp
next
  case (retire r m kind amount x r')
  then show ?case using retire_static_ok(1,2) [of r kind amount x r'] by simp
next
  case (bytes r m)
  then show ?case by (simp add: static_control_plane_bytes_def)
next
  case (freeze r m)
  then show ?case using freeze_ok by simp
qed

text \<open>
  C16: the static baseline is exact.  In every interleaving of the lock regions the
  reported bytes are the sum of the registrations in force, each kind charged at
  most once and at most 256 of them; the registry is never corrupted; a new
  registration adds exactly its amount; and once frozen, a region never adds a charge.
\<close>

theorem static_baseline_is_exact:
  assumes "static_reach r m"
  shows "fst (static_control_plane_bytes r) = ledger_total m \<and> \<not> sr_corrupted r \<and> card (dom m) \<le> 256
    \<and> distinct (map fst (static_control_plane_entries r)) \<and> map_of (static_control_plane_entries r) = m
    \<and> (kind \<noteq> [] \<and> 0 \<le> amount \<longrightarrow>
         (case publish_static kind amount r of (x, r') \<Rightarrow>
            (x = Inr True \<longrightarrow> fst (static_control_plane_bytes r') = ledger_total m + amount \<and> m kind = None)
            \<and> (sr_frozen r \<longrightarrow> x \<noteq> Inr True \<and> static_map r' = m)
            \<and> (m kind = Some amount \<longrightarrow> x = Inr False)))"
proof -
  have ok: "static_ok r" and m: "static_map r = m" using static_reach_ok [OF assms] by simp_all
  have "card (dom m) = length (sr_entries r)"
    unfolding m [symmetric] static_map_def dom_map_of_conv_image_fst
    using distinct_card [of "map fst (sr_entries r)"] ok by (simp add: static_ok_def)
  then have n: "card (dom m) \<le> 256" using ok by (simp add: static_ok_def MAX_STATIC_CONTROL_KINDS_def)
  obtain x r' where p: "publish_static kind amount r = (x, r')" by fastforce
  have "(x = Inr True \<longrightarrow> fst (static_control_plane_bytes r') = ledger_total m + amount \<and> m kind = None)
    \<and> (sr_frozen r \<longrightarrow> x \<noteq> Inr True \<and> static_map r' = m) \<and> (m kind = Some amount \<longrightarrow> x = Inr False)"
    if g: "kind \<noteq> []" "0 \<le> amount"
  proof -
    note pub = publish_static_ok [OF ok g p]
    have "x = Inr False" if "m kind = Some amount"
      using p that ok m by (auto simp: publish_static_def static_map_def static_ok_def validate_total_def)
    moreover have "fst (static_control_plane_bytes r') = ledger_total m + amount" if "x = Inr True"
      using that pub authoritative_is_total [OF pub(1)] m
        ledger_total_put [OF static.finite_charges [OF ok], of kind amount] by (simp add: static_control_plane_bytes_def)
    ultimately show ?thesis using pub m by auto
  qed
  then show ?thesis
    using ok m n p authoritative_is_total [OF ok]
    by (simp add: static_control_plane_bytes_def static_control_plane_entries_def static_ok_def static_map_def)
qed

theorem static_baseline_is_exact_witness:
  "\<exists>r. static_reach r [''core'' \<mapsto> 4096] \<and> fst (static_control_plane_bytes r) = 4096"
proof -
  define x where "x = publish_static ''core'' 4096 empty_registry"
  have t: "fst x = Inr True" unfolding x_def by code_simp
  have "static_reach (snd x) [''core'' \<mapsto> 4096]"
    using static_reach.publish [OF static_reach.start, of "''core''" 4096 "fst x" "snd x"] t by (simp add: x_def)
  moreover have "ledger_total [''core'' \<mapsto> 4096] = 4096" by (simp add: ledger_total_def)
  ultimately show ?thesis using static_baseline_is_exact [of "snd x" "[''core'' \<mapsto> 4096]"] by auto
qed

end
