(* ===== verification/Control_Plane_Budget.thy ===== *)
theory Control_Plane_Budget
  imports Static_Control_Plane
begin

text \<open>
  Model of \<^verbatim>\<open>core_impl/control_plane_budget.py\<close>, the process-wide budget for control
  structures, with the native ledger it mirrors its charges into
  (\<^verbatim>\<open>OperationMemoryLedger\<close> in \<^verbatim>\<open>cpp/src/internal/memory/memory_pool.cc\<close>) and the
  static baseline of \<open>Static_Control_Plane\<close>.  Capabilities are objects in a store,
  because a ticket and the budget share them.  Every call into the native ledger may
  answer, be refused, or take effect and still raise, as an environment indexed by a
  counter decides.  Admissions and releases take the position at which an
  asynchronous exception interrupts their updates (\<open>None\<close> for an undisturbed call).
\<close>

section \<open>The native ledger\<close>

record native_ledger =
  nl_limit :: int
  nl_bytes :: int
  nl_corrupted :: bool

definition native_accepts :: "bool \<Rightarrow> int \<Rightarrow> native_ledger \<Rightarrow> bool" where
  "native_accepts pool_accepts bytes n \<longleftrightarrow>
     0 \<le> bytes \<and> \<not> nl_corrupted n \<and> (bytes = 0 \<or> nl_bytes n + bytes \<le> nl_limit n \<and> pool_accepts)"

definition native_reserve :: "int \<Rightarrow> native_ledger \<Rightarrow> native_ledger" where
  "native_reserve bytes n = n\<lparr>nl_bytes := nl_bytes n + bytes\<rparr>"

definition native_release :: "int \<Rightarrow> native_ledger \<Rightarrow> native_ledger" where
  "native_release bytes n =
     (if bytes \<le> 0 then n
      else if bytes > nl_bytes n then n\<lparr>nl_bytes := 0, nl_corrupted := True\<rparr>
      else n\<lparr>nl_bytes := nl_bytes n - bytes\<rparr>)"

section \<open>State\<close>

definition DEFAULT_CAPACITY_BYTES :: int where "DEFAULT_CAPACITY_BYTES = 256 * 1024 * 1024"
definition MAX_CAPACITY_BYTES :: int where "MAX_CAPACITY_BYTES = 512 * 1024 * 1024"
definition MIN_TICKET_BYTES :: int where "MIN_TICKET_BYTES = 256"
definition MAX_ACTIVE_TICKETS :: nat where "MAX_ACTIVE_TICKETS = 262144"
definition MAX_TICKET_TOKEN :: int where "MAX_TICKET_TOKEN = 2 ^ 63 - 1"

record capability =
  ca_pid :: int
  ca_token :: int
  ca_released :: bool
  ca_retire_requested :: bool

record ticket =
  tk_amount :: int
  tk_kind :: string
  tk_pid :: int
  tk_token :: int
  tk_capability :: nat

record owner_entry =
  oe_capability :: nat
  oe_amount :: int

record control_budget =
  cb_pid :: int
  cb_capacity :: int
  cb_reserved :: int
  cb_peak :: int
  cb_active :: int
  cb_rejected :: int
  cb_over_release :: int
  cb_sequence :: int
  cb_free_tokens :: "nat \<Rightarrow> int"
  cb_free_head :: nat
  cb_free_tail :: nat
  cb_free_count :: nat
  cb_owners :: "(int \<times> owner_entry) list"
  cb_counters_dirty :: bool
  cb_corrupted :: bool
  cb_shadow_ready :: bool
  cb_shadow_bytes :: int
  cb_shadow_dirty :: bool
  cb_native :: native_ledger
  cb_caps :: "nat \<Rightarrow> capability"
  cb_next_cap :: nat
  cb_static :: static_registry
  cb_tick :: nat

datatype cp_error = Py pyerr | Memory_Error | Resource_Error string | Interrupt

datatype native_answer = Answers | Refuses | Answer_Lost

text \<open>The answers of the native calls; those that trim the shadow to a lower target are kept apart.\<close>

record cp_env =
  native_answer :: "nat \<Rightarrow> native_answer"
  trim_answer :: "nat \<Rightarrow> native_answer"
  pool_accepts :: "nat \<Rightarrow> bool"
  resident_stats :: "nat \<Rightarrow> (int \<times> int) option"

definition fresh_ledger :: native_ledger where
  "fresh_ledger = \<lparr>nl_limit = MAX_CAPACITY_BYTES, nl_bytes = 0, nl_corrupted = False\<rparr>"

definition init_budget :: "int \<Rightarrow> static_registry \<Rightarrow> control_budget" where
  "init_budget pid static =
     \<lparr>cb_pid = pid, cb_capacity = DEFAULT_CAPACITY_BYTES, cb_reserved = 0, cb_peak = 0, cb_active = 0, cb_rejected = 0,
      cb_over_release = 0, cb_sequence = 0, cb_free_tokens = (\<lambda>_. 0), cb_free_head = 0, cb_free_tail = 0, cb_free_count = 0,
      cb_owners = [], cb_counters_dirty = False, cb_corrupted = False, cb_shadow_ready = False, cb_shadow_bytes = 0,
      cb_shadow_dirty = False, cb_native = fresh_ledger,
      cb_caps = (\<lambda>_. \<lparr>ca_pid = 0, ca_token = 0, ca_released = False, ca_retire_requested = False\<rparr>), cb_next_cap = 0,
      cb_static = static, cb_tick = 0\<rparr>"

definition ensure_process_locked :: "int \<Rightarrow> control_budget \<Rightarrow> control_budget" where
  "ensure_process_locked pid b =
     (if cb_pid b = pid then b
      else b\<lparr>cb_pid := pid, cb_reserved := 0, cb_peak := 0, cb_active := 0, cb_rejected := 0, cb_over_release := 0,
             cb_sequence := 0, cb_free_tokens := (\<lambda>_. 0), cb_free_head := 0, cb_free_tail := 0, cb_free_count := 0,
             cb_owners := [], cb_counters_dirty := False, cb_corrupted := False, cb_shadow_ready := False,
             cb_shadow_bytes := 0, cb_shadow_dirty := False\<rparr>)"

definition update_cap :: "nat \<Rightarrow> (capability \<Rightarrow> capability) \<Rightarrow> control_budget \<Rightarrow> control_budget" where
  "update_cap c f b = b\<lparr>cb_caps := (cb_caps b)(c := f (cb_caps b c))\<rparr>"

definition collect_ticket :: "int \<Rightarrow> ticket \<Rightarrow> control_budget \<Rightarrow> control_budget" where
  "collect_ticket pid t b =
     (let c = cb_caps b (tk_capability t) in
      if \<not> ca_released c \<and> ca_pid c = pid \<and> ca_token c > 0
      then update_cap (tk_capability t) (\<lambda>c. c\<lparr>ca_retire_requested := True\<rparr>) b else b)"

section \<open>Counters and baseline\<close>

definition entry_valid :: "control_budget \<Rightarrow> owner_entry \<Rightarrow> bool" where
  "entry_valid b e \<longleftrightarrow>
     (let c = cb_caps b (oe_capability e) in ca_pid c = cb_pid b \<and> ca_token c > 0 \<and> oe_amount e \<ge> 0)"

definition reconcile_counters :: "control_budget \<Rightarrow> control_budget" where
  "reconcile_counters b =
     (let valid = filter (entry_valid b) (map snd (cb_owners b)) in
      b\<lparr>cb_corrupted := cb_corrupted b \<or> \<not> list_all (entry_valid b) (map snd (cb_owners b)),
        cb_reserved := sum_list (map oe_amount valid), cb_active := int (length valid), cb_counters_dirty := False\<rparr>)"

definition static_baseline :: "control_budget \<Rightarrow> int \<times> control_budget" where
  "static_baseline b = (case static_control_plane_bytes (cb_static b) of (n, r) \<Rightarrow> (n, b\<lparr>cb_static := r\<rparr>))"

section \<open>The native shadow\<close>

definition prewarm_native_shadow :: "cp_env \<Rightarrow> control_budget \<Rightarrow> (cp_error + unit) \<times> control_budget" where
  "prewarm_native_shadow env b =
     (if cb_shadow_ready b then (Inr (), b)
      else case native_answer env (cb_tick b) of
        Answers \<Rightarrow>
          (Inr (), b\<lparr>cb_tick := cb_tick b + 1, cb_native := fresh_ledger, cb_shadow_ready := True, cb_shadow_bytes := 0,
                     cb_shadow_dirty := False\<rparr>)
      | Refuses \<Rightarrow> (Inl Memory_Error, b\<lparr>cb_tick := cb_tick b + 1\<rparr>)
      | Answer_Lost \<Rightarrow> (Inl Interrupt, b\<lparr>cb_tick := cb_tick b + 1\<rparr>))"

definition call_reserve :: "cp_env \<Rightarrow> int \<Rightarrow> control_budget \<Rightarrow> (cp_error + unit) \<times> control_budget" where
  "call_reserve env bytes b =
     (let a = native_answer env (cb_tick b); b1 = b\<lparr>cb_tick := cb_tick b + 1\<rparr> in
      if a = Refuses \<or> \<not> native_accepts (pool_accepts env (cb_tick b)) bytes (cb_native b) then (Inl Memory_Error, b1)
      else let b2 = b1\<lparr>cb_native := native_reserve bytes (cb_native b)\<rparr> in
        if a = Answers then (Inr (), b2) else (Inl Interrupt, b2))"

definition call_release :: "(nat \<Rightarrow> native_answer) \<Rightarrow> int \<Rightarrow> control_budget \<Rightarrow> (cp_error + unit) \<times> control_budget" where
  "call_release answer bytes b =
     (let a = answer (cb_tick b); b1 = b\<lparr>cb_tick := cb_tick b + 1\<rparr> in
      if a = Refuses then (Inl (Py (RuntimeError ''operation memory ledger is not available'')), b1)
      else let b2 = b1\<lparr>cb_native := native_release bytes (cb_native b)\<rparr> in
        if a = Answers then (Inr (), b2) else (Inl Interrupt, b2))"

definition refresh_shadow :: "cp_env \<Rightarrow> control_budget \<Rightarrow> (cp_error + unit) \<times> control_budget" where
  "refresh_shadow env b =
     (if \<not> cb_shadow_dirty b then (Inr (), b)
      else let b1 = b\<lparr>cb_tick := cb_tick b + 1\<rparr> in
        if native_answer env (cb_tick b) = Answers
        then (Inr (), b1\<lparr>cb_shadow_bytes := nl_bytes (cb_native b), cb_shadow_dirty := False\<rparr>)
        else (Inl Interrupt, b1))"

definition move_shadow :: "cp_env \<Rightarrow> int \<Rightarrow> control_budget \<Rightarrow> (cp_error + unit) \<times> control_budget" where
  "move_shadow env target b =
     (let current = cb_shadow_bytes b in
      if target > current
      then (case call_reserve env (target - current) b of
              (Inl e, b1) \<Rightarrow> (Inl e, b1) | (Inr _, b1) \<Rightarrow> (Inr (), b1\<lparr>cb_shadow_bytes := target\<rparr>))
      else if target < current
      then (case call_release (trim_answer env) (current - target) b of
              (Inl e, b1) \<Rightarrow> (Inl e, b1) | (Inr _, b1) \<Rightarrow> (Inr (), b1\<lparr>cb_shadow_bytes := target\<rparr>))
      else (Inr (), b))"

definition sync_native_shadow :: "cp_env \<Rightarrow> int \<Rightarrow> control_budget \<Rightarrow> (cp_error + unit) \<times> control_budget" where
  "sync_native_shadow env target b =
     (case prewarm_native_shadow env b of
        (Inl e, b1) \<Rightarrow> (Inl e, b1)
      | (Inr _, b1) \<Rightarrow>
          (case refresh_shadow env b1 of
             (Inl e, b2) \<Rightarrow> (Inl e, b2) | (Inr _, b2) \<Rightarrow> move_shadow env target b2))"

definition release_native_shadow :: "cp_env \<Rightarrow> int \<Rightarrow> control_budget \<Rightarrow> control_budget" where
  "release_native_shadow env amount b =
     (if amount \<le> 0 \<or> \<not> cb_shadow_ready b then b
      else case call_release (native_answer env) amount b of
        (Inr _, b1) \<Rightarrow> b1\<lparr>cb_shadow_bytes := max 0 (cb_shadow_bytes b1 - amount)\<rparr>
      | (Inl _, b1) \<Rightarrow> b1\<lparr>cb_shadow_dirty := True\<rparr>)"

definition ensure_native_shadow :: "cp_env \<Rightarrow> int \<Rightarrow> control_budget \<Rightarrow> (cp_error + int) \<times> control_budget" where
  "ensure_native_shadow env pid b =
     (case static_baseline (reconcile_counters (ensure_process_locked pid b)) of
        (base, b1) \<Rightarrow>
          (case sync_native_shadow env (base + cb_reserved b1) b1 of
             (Inl e, b2) \<Rightarrow> (Inl e, b2) | (Inr _, b2) \<Rightarrow> (Inr (cb_shadow_bytes b2), b2)))"

section \<open>Configuration and admission\<close>

definition configure :: "int \<Rightarrow> int \<Rightarrow> control_budget \<Rightarrow> unit result \<times> control_budget" where
  "configure pid capacity_bytes b =
     (if capacity_bytes \<le> 0 \<or> capacity_bytes > MAX_CAPACITY_BYTES
      then (Inl (ValueError ''control-plane capacity must be within (0, 512 MiB]''), b)
      else let b = reconcile_counters (ensure_process_locked pid b) in
        if cb_corrupted b
        then (Inl (RuntimeError ''control-plane budget is quarantined after accounting corruption''), b)
        else case static_baseline b of
          (base, b) \<Rightarrow>
            if capacity_bytes < cb_reserved b + base
            then (Inl (RuntimeError ''control-plane capacity is below live reservations and static baseline''), b)
            else (Inr (), b\<lparr>cb_capacity := capacity_bytes\<rparr>))"

text \<open>The checks before an admission: the name of the exceeded limit, or \<open>None\<close>.\<close>

definition exhausted_limit :: "cp_env \<Rightarrow> int \<Rightarrow> int \<Rightarrow> control_budget \<Rightarrow> (cp_error + string option) \<times> control_budget" where
  "exhausted_limit env amount next_governed b =
     (if next_governed > cb_capacity b \<or> cb_active b + 1 > int MAX_ACTIVE_TICKETS
         \<or> (cb_free_count b = 0 \<and> cb_sequence b \<ge> MAX_TICKET_TOKEN)
      then (Inr (Some ''process_control_plane_bytes''), b)
      else let b1 = b\<lparr>cb_tick := cb_tick b + 1\<rparr> in
        case resident_stats env (cb_tick b) of
          None \<Rightarrow> (Inl (Py (RuntimeError ''native process resident memory ledger returned invalid statistics'')), b1)
        | Some (reserved, capacity) \<Rightarrow>
            (Inr (if reserved + amount > capacity then Some ''process_governed_memory_bytes'' else None), b1))"

definition token_ring_next :: "nat \<Rightarrow> nat" where
  "token_ring_next i = (if i + 1 = MAX_ACTIVE_TICKETS then 0 else i + 1)"

definition token_ring_prev :: "nat \<Rightarrow> nat" where
  "token_ring_prev i = (if i > 0 then i - 1 else MAX_ACTIVE_TICKETS - 1)"

definition set_owner :: "int \<Rightarrow> owner_entry \<Rightarrow> (int \<times> owner_entry) list \<Rightarrow> (int \<times> owner_entry) list" where
  "set_owner token e owners =
     (if map_of owners token = None then owners @ [(token, e)]
      else map (\<lambda>(t, x). if t = token then (t, e) else (t, x)) owners)"

text \<open>
  The statements of the \<^verbatim>\<open>try\<close> block after the native shadow has grown, on the locals
  \<open>shadow_grew\<close> and \<open>namespace_committed\<close> and the budget.
\<close>

type_synonym admission_state = "(bool \<times> bool) \<times> control_budget"

definition admission_steps :: "bool \<Rightarrow> int \<Rightarrow> nat \<Rightarrow> nat \<Rightarrow> owner_entry \<Rightarrow> (admission_state \<Rightarrow> admission_state) list" where
  "admission_steps reuse token next_head next_count entry =
     [\<lambda>((grew, named), b). ((True, named), b)]
     @ (if reuse
        then [\<lambda>(l, b). (l, b\<lparr>cb_free_head := next_head\<rparr>), \<lambda>(l, b). (l, b\<lparr>cb_free_count := next_count\<rparr>)]
        else [\<lambda>(l, b). (l, b\<lparr>cb_sequence := token\<rparr>)])
     @ [\<lambda>((grew, named), b). ((grew, True), b), \<lambda>(l, b). (l, b\<lparr>cb_owners := set_owner token entry (cb_owners b)\<rparr>)]"

definition undo_admission :: "cp_env \<Rightarrow> int \<Rightarrow> bool \<Rightarrow> int \<Rightarrow> nat \<Rightarrow> admission_state \<Rightarrow> control_budget" where
  "undo_admission env current_governed reuse token cap st =
     (case st of ((grew, named), b) \<Rightarrow>
        let b1 = (if \<not> named then b
                  else if reuse then b\<lparr>cb_free_head := token_ring_prev (cb_free_head b), cb_free_count := cb_free_count b + 1\<rparr>
                  else if cb_sequence b = token then b\<lparr>cb_sequence := token - 1\<rparr> else b);
            b2 = (if \<not> grew then b1
                  else case sync_native_shadow env current_governed b1 of
                    (Inl _, b2) \<Rightarrow> b2\<lparr>cb_shadow_dirty := True\<rparr> | (Inr _, b2) \<Rightarrow> b2) in
        update_cap cap (\<lambda>c. c\<lparr>ca_token := 0\<rparr>) b2)"

definition set_mirrors :: "int \<Rightarrow> int \<Rightarrow> int \<Rightarrow> control_budget \<Rightarrow> control_budget" where
  "set_mirrors reserved peak active b = b\<lparr>cb_reserved := reserved, cb_peak := peak, cb_active := active\<rparr>"

definition admission_failed ::
  "cp_env \<Rightarrow> int \<Rightarrow> bool \<Rightarrow> int \<Rightarrow> owner_entry \<Rightarrow> int \<times> int \<times> int \<Rightarrow> admission_state \<Rightarrow> control_budget" where
  "admission_failed env current_governed reuse token entry mirrors st =
     (if map_of (cb_owners (snd st)) token = Some entry
      then (case mirrors of (reserved, peak, active) \<Rightarrow>
        set_mirrors reserved peak active
          (update_cap (oe_capability entry) (\<lambda>c. c\<lparr>ca_retire_requested := True\<rparr>) (snd st)))
      else undo_admission env current_governed reuse token (oe_capability entry) st)"

definition admit_ticket ::
  "cp_env \<Rightarrow> nat option \<Rightarrow> int \<Rightarrow> int \<Rightarrow> int \<Rightarrow> nat \<Rightarrow> control_budget \<Rightarrow> (cp_error + int) \<times> control_budget" where
  "admit_ticket env interrupt current_governed next_governed amount cap b =
     (let mirrors = (cb_reserved b + amount, max (cb_peak b) (cb_reserved b + amount), cb_active b + 1);
          reuse = cb_free_count b > 0;
          token = (if reuse then cb_free_tokens b (cb_free_head b) else cb_sequence b + 1);
          next_head = (if reuse then token_ring_next (cb_free_head b) else cb_free_head b);
          next_count = (if reuse then cb_free_count b - 1 else cb_free_count b);
          entry = \<lparr>oe_capability = cap, oe_amount = amount\<rparr>;
          b1 = update_cap cap (\<lambda>c. c\<lparr>ca_token := token\<rparr>) b in
      case sync_native_shadow env next_governed b1 of
        (Inl e, b2) \<Rightarrow> (Inl e, admission_failed env current_governed reuse token entry mirrors ((False, False), b2))
      | (Inr _, b2) \<Rightarrow>
          let st = apply_all (cut interrupt (admission_steps reuse token next_head next_count entry)) ((False, False), b2) in
          if interrupt = None
          then (case mirrors of (reserved, peak, active) \<Rightarrow> (Inr token, set_mirrors reserved peak active (snd st)))
          else (Inl Interrupt, admission_failed env current_governed reuse token entry mirrors st))"

definition new_capability :: "int \<Rightarrow> control_budget \<Rightarrow> control_budget" where
  "new_capability pid b =
     b\<lparr>cb_caps := (cb_caps b)(cb_next_cap b := \<lparr>ca_pid = pid, ca_token = 0, ca_released = False, ca_retire_requested = False\<rparr>),
       cb_next_cap := cb_next_cap b + 1\<rparr>"

definition check_and_admit ::
  "cp_env \<Rightarrow> nat option \<Rightarrow> int \<Rightarrow> int \<Rightarrow> nat \<Rightarrow> control_budget \<Rightarrow> (cp_error + int) \<times> control_budget" where
  "check_and_admit env interrupt base amount cap b =
     (case exhausted_limit env amount (base + (cb_reserved b + amount)) b of
        (Inl e, b1) \<Rightarrow> (Inl e, b1)
      | (Inr (Some limit_name), b1) \<Rightarrow> (Inl (Resource_Error limit_name), b1\<lparr>cb_rejected := cb_rejected b1 + 1\<rparr>)
      | (Inr None, b1) \<Rightarrow> admit_ticket env interrupt (base + cb_reserved b) (base + (cb_reserved b + amount)) amount cap b1)"

definition reserve_locked ::
  "cp_env \<Rightarrow> int \<Rightarrow> nat option \<Rightarrow> int \<Rightarrow> nat \<Rightarrow> control_budget \<Rightarrow> (cp_error + int) \<times> control_budget" where
  "reserve_locked env pid interrupt amount cap b =
     (let b = reconcile_counters (ensure_process_locked pid b) in
      if cb_corrupted b
      then (Inl (Resource_Error ''process_control_plane_corruption_quarantine''), b\<lparr>cb_rejected := cb_rejected b + 1\<rparr>)
      else case static_baseline b of
        (base, b1) \<Rightarrow>
          (case sync_native_shadow env (base + cb_reserved b1) b1 of
             (Inl e, b2) \<Rightarrow> (Inl e, b2)
           | (Inr _, b2) \<Rightarrow> check_and_admit env interrupt base amount cap b2))"

definition new_ticket :: "int \<Rightarrow> string \<Rightarrow> int \<Rightarrow> int \<Rightarrow> nat \<Rightarrow> ticket" where
  "new_ticket pid kind amount token cap =
     \<lparr>tk_amount = amount, tk_kind = kind, tk_pid = pid, tk_token = token, tk_capability = cap\<rparr>"

definition reserve ::
  "cp_env \<Rightarrow> int \<Rightarrow> nat option \<Rightarrow> string \<Rightarrow> int \<Rightarrow> control_budget \<Rightarrow> (cp_error + ticket) \<times> control_budget" where
  "reserve env pid interrupt kind amount b =
     (if amount < MIN_TICKET_BYTES
      then (Inl (Py (ValueError ''control-plane reservation must be >= 256 bytes'')), b)
      else case prewarm_native_shadow env b of
        (Inl e, b1) \<Rightarrow> (Inl e, b1)
      | (Inr _, b1) \<Rightarrow>
          (case reserve_locked env pid interrupt amount (cb_next_cap b1) (new_capability pid b1) of
             (Inl e, b2) \<Rightarrow> (Inl e, b2)
           | (Inr token, b2) \<Rightarrow> (Inr (new_ticket pid kind amount token (cb_next_cap b1)), b2)))"

section \<open>Release\<close>

definition ticket_release_steps :: "cp_env \<Rightarrow> int \<Rightarrow> nat \<Rightarrow> int \<Rightarrow> control_budget \<Rightarrow> (control_budget \<Rightarrow> control_budget) list" where
  "ticket_release_steps env token cap amount b0 =
     [release_native_shadow env amount]
     @ (if cb_free_count b0 < MAX_ACTIVE_TICKETS
        then [\<lambda>b. b\<lparr>cb_free_tokens := (cb_free_tokens b)(cb_free_tail b0 := token)\<rparr>,
              \<lambda>b. b\<lparr>cb_free_tail := token_ring_next (cb_free_tail b0)\<rparr>,
              \<lambda>b. b\<lparr>cb_free_count := cb_free_count b0 + 1\<rparr>]
        else [\<lambda>b. b\<lparr>cb_over_release := min MAX_TICKET_TOKEN (cb_over_release b + 1)\<rparr>])
     @ [update_cap cap (\<lambda>c. c\<lparr>ca_released := True\<rparr>), update_cap cap (\<lambda>c. c\<lparr>ca_retire_requested := False\<rparr>),
        reconcile_counters]"

definition mark_capability_released :: "nat \<Rightarrow> control_budget \<Rightarrow> control_budget" where
  "mark_capability_released cap b = update_cap cap (\<lambda>c. c\<lparr>ca_released := True, ca_retire_requested := False\<rparr>) b"

definition count_over_release :: "control_budget \<Rightarrow> control_budget" where
  "count_over_release b = b\<lparr>cb_over_release := cb_over_release b + 1\<rparr>"

definition release_capability ::
  "cp_env \<Rightarrow> int \<Rightarrow> nat option \<Rightarrow> nat \<Rightarrow> int \<Rightarrow> control_budget \<Rightarrow> (cp_error + bool) \<times> control_budget" where
  "release_capability env pid interrupt cap token b =
     (if ca_released (cb_caps b cap) then (Inr True, b)
      else if ca_pid (cb_caps b cap) \<noteq> pid then (Inr True, b)
      else let b = ensure_process_locked pid b in
        case map_of (cb_owners b) token of
          None \<Rightarrow>
            if ca_token (cb_caps b cap) = token then (Inr True, reconcile_counters (mark_capability_released cap b))
            else (Inr False, count_over_release b)
        | Some entry \<Rightarrow>
            if oe_capability entry \<noteq> cap \<or> ca_token (cb_caps b cap) \<noteq> token then (Inr False, count_over_release b)
            else let b = reconcile_counters b in
              if cb_reserved b < oe_amount entry \<or> cb_active b \<le> 0 then (Inr False, count_over_release b)
              else let b1 = b\<lparr>cb_owners := filter (\<lambda>x. fst x \<noteq> token) (cb_owners b)\<rparr>;
                       b2 = apply_all (cut interrupt (ticket_release_steps env token cap (oe_amount entry) b)) b1 in
                (if interrupt = None then Inr True else Inl Interrupt, b2))"

definition release :: "cp_env \<Rightarrow> int \<Rightarrow> nat option \<Rightarrow> ticket option \<Rightarrow> control_budget \<Rightarrow> (cp_error + bool) \<times> control_budget" where
  "release env pid interrupt t b =
     (case t of
        None \<Rightarrow> (Inr True, b)
      | Some t \<Rightarrow>
          if tk_pid t \<noteq> pid then (Inr True, b)
          else case release_capability env pid interrupt (tk_capability t) (tk_token t) b of
            (Inr True, b1) \<Rightarrow> (Inr True, mark_capability_released (tk_capability t) b1)
          | (r, b1) \<Rightarrow> (r, b1))"

definition request_retirement :: "int \<Rightarrow> ticket option \<Rightarrow> control_budget \<Rightarrow> bool \<times> control_budget" where
  "request_retirement pid t b =
     (case t of
        None \<Rightarrow> (False, b)
      | Some t \<Rightarrow>
          if ca_released (cb_caps b (tk_capability t)) then (True, b)
          else if tk_pid t \<noteq> pid then (True, b)
          else let b = ensure_process_locked pid b in
            case map_of (cb_owners b) (tk_token t) of
              None \<Rightarrow> (False, b)
            | Some entry \<Rightarrow>
                if oe_capability entry \<noteq> tk_capability t then (False, b)
                else (True, update_cap (tk_capability t) (\<lambda>c. c\<lparr>ca_retire_requested := True\<rparr>) b))"

definition release_control_plane :: "cp_env \<Rightarrow> int \<Rightarrow> nat option \<Rightarrow> ticket option \<Rightarrow> control_budget \<Rightarrow> (cp_error + bool) \<times> control_budget" where
  "release_control_plane env pid interrupt t b =
     (case release env pid interrupt t b of
        (Inr False, b1) \<Rightarrow> (Inr False, snd (request_retirement pid t b1))
      | (r, b1) \<Rightarrow> (r, b1))"

definition defer_control_plane_release :: "cp_env \<Rightarrow> int \<Rightarrow> nat option \<Rightarrow> ticket option \<Rightarrow> control_budget \<Rightarrow> (cp_error + bool) \<times> control_budget" where
  "defer_control_plane_release env pid interrupt t b =
     (if t = None then (Inr True, b)
      else case release_control_plane env pid interrupt t b of
        (Inr False, b1) \<Rightarrow> (case request_retirement pid t b1 of (r, b2) \<Rightarrow> (Inr r, b2))
      | (r, b1) \<Rightarrow> (r, b1))"

fun drain_requested_retirements :: "cp_env \<Rightarrow> int \<Rightarrow> nat \<Rightarrow> control_budget \<Rightarrow> nat \<times> control_budget" where
  "drain_requested_retirements env pid 0 b = (0, b)"
| "drain_requested_retirements env pid (Suc limit) b =
     (let b = reconcile_counters (ensure_process_locked pid b) in
      case filter (\<lambda>x. ca_retire_requested (cb_caps b (oe_capability (snd x)))) (cb_owners b) of
        [] \<Rightarrow> (0, b)
      | (token, entry) # _ \<Rightarrow>
          (case release_capability env pid None (oe_capability entry) token b of
             (Inr True, b1) \<Rightarrow> apfst Suc (drain_requested_retirements env pid limit b1)
           | (_, b1) \<Rightarrow> (0, b1)))"

section \<open>Snapshots and static registrations\<close>

record budget_snapshot =
  bs_capacity_bytes :: int
  bs_reserved_bytes :: int
  bs_peak_reserved_bytes :: int
  bs_active_tickets :: int
  bs_rejected_tickets :: int
  bs_over_release_count :: int
  bs_static_baseline_bytes :: int
  bs_reconciliation_pending :: bool

definition governed_bytes :: "budget_snapshot \<Rightarrow> int" where
  "governed_bytes s = bs_static_baseline_bytes s + bs_reserved_bytes s"

definition budget_snapshot_of :: "int \<Rightarrow> control_budget \<Rightarrow> budget_snapshot \<times> control_budget" where
  "budget_snapshot_of pid b =
     (case static_baseline (reconcile_counters (ensure_process_locked pid b)) of
        (base, b) \<Rightarrow>
          (\<lparr>bs_capacity_bytes = cb_capacity b, bs_reserved_bytes = cb_reserved b, bs_peak_reserved_bytes = cb_peak b,
            bs_active_tickets = cb_active b, bs_rejected_tickets = cb_rejected b, bs_over_release_count = cb_over_release b,
            bs_static_baseline_bytes = base, bs_reconciliation_pending = cb_counters_dirty b \<or> cb_corrupted b\<rparr>, b))"

definition snapshot_with_shadow :: "int \<Rightarrow> control_budget \<Rightarrow> (budget_snapshot \<times> bool \<times> int) \<times> control_budget" where
  "snapshot_with_shadow pid b =
     (case budget_snapshot_of pid b of
        (s, b) \<Rightarrow> let active = cb_shadow_ready b \<and> \<not> cb_shadow_dirty b in
          ((s, active, if active then cb_shadow_bytes b else 0), b))"

definition synchronize_native_shadow :: "cp_env \<Rightarrow> int \<Rightarrow> control_budget \<Rightarrow> (cp_error + int) \<times> control_budget" where
  "synchronize_native_shadow env pid b =
     (case prewarm_native_shadow env b of (Inl e, b1) \<Rightarrow> (Inl e, b1) | (Inr _, b1) \<Rightarrow> ensure_native_shadow env pid b1)"

definition try_synchronize_native_shadow :: "cp_env \<Rightarrow> int \<Rightarrow> bool \<Rightarrow> control_budget \<Rightarrow> (cp_error + bool) \<times> control_budget" where
  "try_synchronize_native_shadow env pid acquired b =
     (case prewarm_native_shadow env b of
        (Inl e, b1) \<Rightarrow> (Inl e, b1)
      | (Inr _, b1) \<Rightarrow>
          if \<not> acquired then (Inr False, b1)
          else case ensure_native_shadow env pid b1 of (Inl _, b2) \<Rightarrow> (Inr False, b2) | (Inr _, b2) \<Rightarrow> (Inr True, b2))"

definition publish_static_charge :: "cp_env \<Rightarrow> int \<Rightarrow> string \<Rightarrow> int \<Rightarrow> control_budget \<Rightarrow> (cp_error + bool) \<times> control_budget" where
  "publish_static_charge env pid kind amount b =
     (if kind = [] \<or> amount < 0 then (Inl (Py (ValueError ''invalid static control-plane registration'')), b)
      else case publish_static kind amount (cb_static b) of
        (Inl e, r) \<Rightarrow> (Inl (Py e), b\<lparr>cb_static := r\<rparr>)
      | (Inr False, r) \<Rightarrow> (Inr False, b\<lparr>cb_static := r\<rparr>)
      | (Inr True, r) \<Rightarrow>
          (case ensure_native_shadow env pid (b\<lparr>cb_static := r\<rparr>) of
             (Inr _, b1) \<Rightarrow> (Inr True, b1)
           | (Inl e, b1) \<Rightarrow>
               (Inl e, snd (ensure_native_shadow env pid (b1\<lparr>cb_static := undo_static kind amount (cb_static b1)\<rparr>)))))"

section \<open>The ring of free tokens\<close>

definition ring :: "(nat \<Rightarrow> int) \<Rightarrow> nat \<Rightarrow> nat \<Rightarrow> int list" where
  "ring f h n = map (\<lambda>i. f ((h + i) mod MAX_ACTIVE_TICKETS)) [0..<n]"

lemma max_tickets_pos: "0 < MAX_ACTIVE_TICKETS"
  by (simp add: MAX_ACTIVE_TICKETS_def)

lemma token_ring_next_mod: "h < MAX_ACTIVE_TICKETS \<Longrightarrow> token_ring_next h = (h + 1) mod MAX_ACTIVE_TICKETS"
  by (simp add: token_ring_next_def)

lemma ring_pop:
  assumes "h < MAX_ACTIVE_TICKETS" "0 < n"
  shows "ring f h n = f h # ring f (token_ring_next h) (n - 1)"
proof -
  obtain m where n: "n = Suc m" using assms(2) by (cases n) auto
  have "(h + Suc i) mod MAX_ACTIVE_TICKETS = (token_ring_next h + i) mod MAX_ACTIVE_TICKETS" for i
    unfolding token_ring_next_mod [OF assms(1)] mod_add_left_eq by (simp add: add.assoc)
  then show ?thesis using assms(1) by (simp add: ring_def n upt_conv_Cons map_Suc_upt [symmetric] comp_def del: upt_Suc)
qed

lemma ring_cell_distinct:
  assumes "i < n" "n < MAX_ACTIVE_TICKETS"
  shows "(h + i) mod MAX_ACTIVE_TICKETS \<noteq> (h + n) mod MAX_ACTIVE_TICKETS"
proof
  assume "(h + i) mod MAX_ACTIVE_TICKETS = (h + n) mod MAX_ACTIVE_TICKETS"
  then have "MAX_ACTIVE_TICKETS dvd (h + n) - (h + i)" by (metis mod_eq_dvd_iff_nat assms(1) add_le_cancel_left less_imp_le)
  then have "MAX_ACTIVE_TICKETS \<le> n - i" using assms(1) by (auto dest: dvd_imp_le)
  then show False using assms by linarith
qed

lemma ring_push:
  assumes "n < MAX_ACTIVE_TICKETS"
  shows "ring (f((h + n) mod MAX_ACTIVE_TICKETS := t)) h (n + 1) = ring f h n @ [t]"
  using ring_cell_distinct [OF _ assms] by (simp add: ring_def)

section \<open>Invariant\<close>

definition owner_tokens :: "control_budget \<Rightarrow> int list" where
  "owner_tokens b = map fst (cb_owners b)"

definition free_list :: "control_budget \<Rightarrow> int list" where
  "free_list b = ring (cb_free_tokens b) (cb_free_head b) (cb_free_count b)"

definition owner_ok :: "control_budget \<Rightarrow> int \<times> owner_entry \<Rightarrow> bool" where
  "owner_ok b x \<longleftrightarrow>
     (let c = cb_caps b (oe_capability (snd x)) in
      oe_capability (snd x) < cb_next_cap b \<and> ca_pid c = cb_pid b \<and> ca_token c = fst x \<and> \<not> ca_released c
      \<and> 0 < fst x \<and> MIN_TICKET_BYTES \<le> oe_amount (snd x))"

text \<open>Every token issued so far is owned once or free once.\<close>

definition tokens_ok :: "control_budget \<Rightarrow> bool" where
  "tokens_ok b \<longleftrightarrow>
     distinct (owner_tokens b @ free_list b) \<and> set (owner_tokens b @ free_list b) = {1..cb_sequence b}
     \<and> 0 \<le> cb_sequence b \<and> cb_sequence b \<le> int MAX_ACTIVE_TICKETS
     \<and> cb_free_head b < MAX_ACTIVE_TICKETS \<and> cb_free_tail b = (cb_free_head b + cb_free_count b) mod MAX_ACTIVE_TICKETS"

definition mirrors_ok :: "control_budget \<Rightarrow> bool" where
  "mirrors_ok b \<longleftrightarrow>
     cb_reserved b = sum_list (map (\<lambda>x. oe_amount (snd x)) (cb_owners b)) \<and> cb_active b = int (length (cb_owners b))
     \<and> \<not> cb_corrupted b \<and> \<not> cb_counters_dirty b"

definition budget_ok :: "int \<Rightarrow> control_budget \<Rightarrow> bool" where
  "budget_ok pid b \<longleftrightarrow>
     cb_pid b = pid \<and> list_all (owner_ok b) (cb_owners b) \<and> tokens_ok b \<and> mirrors_ok b \<and> static_ok (cb_static b)"

text \<open>What the native calls leave alone.\<close>

definition ledger_view where
  "ledger_view b = (cb_pid b, cb_capacity b, cb_reserved b, cb_peak b, cb_active b, cb_rejected b, cb_over_release b, cb_sequence b,
     cb_free_tokens b, cb_free_head b, cb_free_tail b, cb_free_count b, cb_owners b, cb_counters_dirty b, cb_corrupted b,
     cb_caps b, cb_next_cap b, cb_static b)"

lemma view_tick [simp]: "ledger_view (b\<lparr>cb_tick := n\<rparr>) = ledger_view b"
  and view_native [simp]: "ledger_view (b\<lparr>cb_native := l\<rparr>) = ledger_view b"
  and view_ready [simp]: "ledger_view (b\<lparr>cb_shadow_ready := x\<rparr>) = ledger_view b"
  and view_bytes [simp]: "ledger_view (b\<lparr>cb_shadow_bytes := i\<rparr>) = ledger_view b"
  and view_dirty [simp]: "ledger_view (b\<lparr>cb_shadow_dirty := x\<rparr>) = ledger_view b"
  by (simp_all add: ledger_view_def)

lemma prewarm_view: "ledger_view (snd (prewarm_native_shadow env b)) = ledger_view b"
  by (simp add: prewarm_native_shadow_def split: native_answer.split)

lemma call_reserve_view: "ledger_view (snd (call_reserve env n b)) = ledger_view b"
  by (simp add: call_reserve_def Let_def)

lemma call_release_view: "ledger_view (snd (call_release a n b)) = ledger_view b"
  by (simp add: call_release_def Let_def)

lemma refresh_view: "ledger_view (snd (refresh_shadow env b)) = ledger_view b"
  by (simp add: refresh_shadow_def Let_def)

lemma move_view: "ledger_view (snd (move_shadow env n b)) = ledger_view b"
  using call_reserve_view [of env "n - cb_shadow_bytes b" b] call_release_view [of "trim_answer env" "cb_shadow_bytes b - n" b]
  by (auto simp: move_shadow_def Let_def split: prod.split sum.split)

lemma sync_view: "ledger_view (snd (sync_native_shadow env n b)) = ledger_view b"
proof -
  obtain x c where p: "prewarm_native_shadow env b = (x, c)" by fastforce
  obtain y d where r: "refresh_shadow env c = (y, d)" by fastforce
  have "ledger_view c = ledger_view b" "ledger_view d = ledger_view c"
    using prewarm_view [of env b] refresh_view [of env c] p r by simp_all
  then show ?thesis using move_view [of env n d] p r by (simp add: sync_native_shadow_def split: sum.split)
qed

lemma release_shadow_view: "ledger_view (release_native_shadow env n b) = ledger_view b"
  using call_release_view [of "native_answer env" n b] by (auto simp: release_native_shadow_def split: prod.split sum.split)

lemma view_fields:
  assumes "ledger_view a = ledger_view b"
  shows "cb_pid a = cb_pid b" "cb_capacity a = cb_capacity b" "cb_reserved a = cb_reserved b" "cb_peak a = cb_peak b"
    "cb_active a = cb_active b" "cb_sequence a = cb_sequence b" "cb_free_tokens a = cb_free_tokens b"
    "cb_free_head a = cb_free_head b" "cb_free_tail a = cb_free_tail b" "cb_free_count a = cb_free_count b"
    "cb_owners a = cb_owners b" "cb_counters_dirty a = cb_counters_dirty b" "cb_corrupted a = cb_corrupted b"
    "cb_caps a = cb_caps b" "cb_next_cap a = cb_next_cap b" "cb_static a = cb_static b"
  using assms by (simp_all add: ledger_view_def)

lemma budget_ok_view: "ledger_view a = ledger_view b \<Longrightarrow> budget_ok pid a \<longleftrightarrow> budget_ok pid b"
  by (frule view_fields(1); frule view_fields(3); frule view_fields(5); frule view_fields(6); frule view_fields(7);
      frule view_fields(8); frule view_fields(9); frule view_fields(10); frule view_fields(11); frule view_fields(12);
      frule view_fields(13); frule view_fields(14); frule view_fields(15); drule view_fields(16))
    (simp add: budget_ok_def owner_ok_def [abs_def] tokens_ok_def mirrors_ok_def owner_tokens_def free_list_def)

section \<open>Reconciliation finds nothing to repair\<close>

lemma owners_valid: "budget_ok pid b \<Longrightarrow> list_all (entry_valid b) (map snd (cb_owners b))"
  by (auto simp: budget_ok_def list_all_iff owner_ok_def entry_valid_def Let_def MIN_TICKET_BYTES_def)

lemma reconcile_ok:
  assumes "budget_ok pid b"
  shows "reconcile_counters b = b"
proof -
  have "filter (entry_valid b) (map snd (cb_owners b)) = map snd (cb_owners b)"
    using owners_valid [OF assms] by (simp add: filter_id_conv list_all_iff)
  then show ?thesis
    using assms owners_valid [OF assms] by (simp add: reconcile_counters_def budget_ok_def mirrors_ok_def Let_def comp_def)
qed

lemma same_process_ok: "budget_ok pid b \<Longrightarrow> ensure_process_locked pid b = b"
  by (simp add: ensure_process_locked_def budget_ok_def)

lemma baseline_ok: "budget_ok pid b \<Longrightarrow> static_baseline b = (ledger_total (static_map (cb_static b)), b)"
  by (simp add: static_baseline_def static_control_plane_bytes_def budget_ok_def authoritative_is_total)

section \<open>Issued tickets\<close>

definition ticket_ok :: "control_budget \<Rightarrow> ticket \<Rightarrow> bool" where
  "ticket_ok b t \<longleftrightarrow>
     (let c = cb_caps b (tk_capability t) in
      tk_pid t = cb_pid b \<and> tk_capability t < cb_next_cap b \<and> ca_pid c = cb_pid b \<and> ca_token c = tk_token t
      \<and> (\<not> ca_released c \<longrightarrow> (tk_token t, \<lparr>oe_capability = tk_capability t, oe_amount = tk_amount t\<rparr>) \<in> set (cb_owners b)))"

definition live :: "control_budget \<Rightarrow> ticket \<Rightarrow> bool" where
  "live b t \<longleftrightarrow> \<not> ca_released (cb_caps b (tk_capability t))"

definition history_ok :: "control_budget \<Rightarrow> ticket list \<Rightarrow> bool" where
  "history_ok b ts \<longleftrightarrow>
     list_all (ticket_ok b) ts \<and> distinct (map tk_capability ts)
     \<and> oe_capability ` snd ` set (cb_owners b) \<subseteq> tk_capability ` set ts"

definition cp_inv :: "int \<Rightarrow> control_budget \<Rightarrow> ticket list \<Rightarrow> bool" where
  "cp_inv pid b ts \<longleftrightarrow> budget_ok pid b \<and> history_ok b ts"

lemma cp_inv_view:
  assumes "ledger_view a = ledger_view b"
  shows "cp_inv pid a ts \<longleftrightarrow> cp_inv pid b ts"
proof -
  have "ticket_ok a = ticket_ok b" using view_fields(1,11,14,15) [OF assms] by (simp add: ticket_ok_def [abs_def])
  then show ?thesis
    using budget_ok_view [OF assms, of pid] view_fields(11) [OF assms] by (simp add: cp_inv_def history_ok_def)
qed

lemma sync_inv: "cp_inv pid (snd (sync_native_shadow env n b)) ts \<longleftrightarrow> cp_inv pid b ts"
  by (rule cp_inv_view [OF sync_view])

text \<open>Flags of a capability other than the ones the invariant reads, and capabilities nobody knows.\<close>

lemma update_cap_simps [simp]:
  "cb_owners (update_cap c f b) = cb_owners b" "cb_pid (update_cap c f b) = cb_pid b" "cb_next_cap (update_cap c f b) = cb_next_cap b"
  "cb_static (update_cap c f b) = cb_static b" "cb_sequence (update_cap c f b) = cb_sequence b"
  "cb_free_count (update_cap c f b) = cb_free_count b" "cb_free_head (update_cap c f b) = cb_free_head b"
  "cb_free_tokens (update_cap c f b) = cb_free_tokens b" "cb_free_tail (update_cap c f b) = cb_free_tail b"
  "cb_reserved (update_cap c f b) = cb_reserved b" "cb_active (update_cap c f b) = cb_active b" "cb_peak (update_cap c f b) = cb_peak b"
  "cb_corrupted (update_cap c f b) = cb_corrupted b" "cb_counters_dirty (update_cap c f b) = cb_counters_dirty b"
  "cb_caps (update_cap c f b) = (cb_caps b)(c := f (cb_caps b c))"
  by (simp_all add: update_cap_def)

lemma tokens_ok_update_cap [simp]: "tokens_ok (update_cap c f b) \<longleftrightarrow> tokens_ok b"
  by (simp add: tokens_ok_def owner_tokens_def free_list_def)

lemma mirrors_ok_update_cap [simp]: "mirrors_ok (update_cap c f b) \<longleftrightarrow> mirrors_ok b"
  by (simp add: mirrors_ok_def)

lemma update_cap_flag:
  assumes "\<And>x. ca_pid (f x) = ca_pid x \<and> ca_token (f x) = ca_token x \<and> ca_released (f x) = ca_released x"
  shows "cp_inv pid (update_cap c f b) ts \<longleftrightarrow> cp_inv pid b ts"
proof -
  have "owner_ok (update_cap c f b) x \<longleftrightarrow> owner_ok b x" for x using assms by (simp add: owner_ok_def Let_def)
  moreover have "ticket_ok (update_cap c f b) t \<longleftrightarrow> ticket_ok b t" for t using assms by (simp add: ticket_ok_def Let_def)
  ultimately show ?thesis by (simp add: cp_inv_def budget_ok_def history_ok_def list_all_iff)
qed

definition unknown_cap :: "nat \<Rightarrow> control_budget \<Rightarrow> ticket list \<Rightarrow> bool" where
  "unknown_cap c b ts \<longleftrightarrow> c \<notin> tk_capability ` set ts"

lemma unknown_not_owner: "history_ok b ts \<Longrightarrow> unknown_cap c b ts \<Longrightarrow> x \<in> set (cb_owners b) \<Longrightarrow> oe_capability (snd x) \<noteq> c"
  by (auto simp: history_ok_def unknown_cap_def)

lemma update_cap_unknown:
  assumes "cp_inv pid b ts" "unknown_cap c b ts"
  shows "cp_inv pid (update_cap c f b) ts"
proof -
  have h: "history_ok b ts" using assms(1) by (simp add: cp_inv_def)
  have "owner_ok (update_cap c f b) x" if "x \<in> set (cb_owners b)" for x
    using that assms(1) unknown_not_owner [OF h assms(2) that] by (auto simp: cp_inv_def budget_ok_def list_all_iff owner_ok_def)
  moreover have "ticket_ok (update_cap c f b) t" if "t \<in> set ts" for t
    using that h assms(2) by (auto simp: history_ok_def list_all_iff ticket_ok_def unknown_cap_def)
  ultimately show ?thesis using assms(1) by (simp add: cp_inv_def budget_ok_def history_ok_def list_all_iff)
qed

lemma allocate_cap:
  assumes "cp_inv pid b ts"
  shows "cp_inv pid (b\<lparr>cb_caps := (cb_caps b)(cb_next_cap b := c), cb_next_cap := cb_next_cap b + 1\<rparr>) ts"
    "unknown_cap (cb_next_cap b) b ts"
proof -
  let ?b = "b\<lparr>cb_caps := (cb_caps b)(cb_next_cap b := c), cb_next_cap := cb_next_cap b + 1\<rparr>"
  have o: "owner_ok ?b x" if "x \<in> set (cb_owners b)" for x
    using that assms by (auto simp: cp_inv_def budget_ok_def list_all_iff owner_ok_def Let_def)
  have t: "ticket_ok ?b t" "tk_capability t < cb_next_cap b" if "t \<in> set ts" for t
    using that assms by (auto simp: cp_inv_def history_ok_def list_all_iff ticket_ok_def Let_def)
  have "tokens_ok ?b = tokens_ok b" "mirrors_ok ?b = mirrors_ok b"
    by (simp_all add: tokens_ok_def owner_tokens_def free_list_def mirrors_ok_def)
  then show "cp_inv pid ?b ts"
    using o t assms by (auto simp: cp_inv_def budget_ok_def history_ok_def list_all_iff)
  show "unknown_cap (cb_next_cap b) b ts" using t(2) by (fastforce simp: unknown_cap_def)
qed

section \<open>Admission\<close>

lemma tokens_count:
  assumes "tokens_ok b"
  shows "int (length (cb_owners b) + cb_free_count b) = cb_sequence b"
proof -
  have "card (set (owner_tokens b @ free_list b)) = length (owner_tokens b @ free_list b)"
    by (rule distinct_card) (use assms in \<open>simp add: tokens_ok_def\<close>)
  moreover have "set (owner_tokens b @ free_list b) = {1..cb_sequence b}" "0 \<le> cb_sequence b"
    using assms by (simp_all add: tokens_ok_def)
  moreover have "length (owner_tokens b @ free_list b) = length (cb_owners b) + cb_free_count b"
    by (simp add: owner_tokens_def free_list_def ring_def)
  ultimately have "nat (cb_sequence b) = length (cb_owners b) + cb_free_count b" by simp
  then show ?thesis using \<open>0 \<le> cb_sequence b\<close> by linarith
qed

lemma tokens_admit:
  assumes ok: "tokens_ok b" and room: "length (cb_owners b) < MAX_ACTIVE_TICKETS"
    and reuse: "reuse \<longleftrightarrow> cb_free_count b > 0" and token: "token = (if reuse then cb_free_tokens b (cb_free_head b) else cb_sequence b + 1)"
  shows "token \<notin> set (owner_tokens b)" "0 < token"
    "tokens_ok (b\<lparr>cb_free_head := (if reuse then token_ring_next (cb_free_head b) else cb_free_head b),
                  cb_free_count := (if reuse then cb_free_count b - 1 else cb_free_count b),
                  cb_sequence := (if reuse then cb_sequence b else token), cb_owners := cb_owners b @ [(token, e)]\<rparr>)"
proof -
  have d: "distinct (owner_tokens b @ free_list b)" and s: "set (owner_tokens b @ free_list b) = {1..cb_sequence b}"
    and h: "cb_free_head b < MAX_ACTIVE_TICKETS" and tl: "cb_free_tail b = (cb_free_head b + cb_free_count b) mod MAX_ACTIVE_TICKETS"
    using ok by (simp_all add: tokens_ok_def)
  have "token \<notin> set (owner_tokens b) \<and> 0 < token \<and>
    tokens_ok (b\<lparr>cb_free_head := (if reuse then token_ring_next (cb_free_head b) else cb_free_head b),
                  cb_free_count := (if reuse then cb_free_count b - 1 else cb_free_count b),
                  cb_sequence := (if reuse then cb_sequence b else token), cb_owners := cb_owners b @ [(token, e)]\<rparr>)"
  proof (cases reuse)
    case True
    have fl: "free_list b = token # ring (cb_free_tokens b) (token_ring_next (cb_free_head b)) (cb_free_count b - 1)"
      using ring_pop [OF h, of "cb_free_count b" "cb_free_tokens b"] True reuse token by (simp add: free_list_def)
    have "token_ring_next (cb_free_head b) < MAX_ACTIVE_TICKETS" using token_ring_next_mod [OF h] max_tickets_pos by simp
    moreover have "(token_ring_next (cb_free_head b) + (cb_free_count b - 1)) mod MAX_ACTIVE_TICKETS = cb_free_tail b"
      unfolding token_ring_next_mod [OF h] mod_add_left_eq tl using True reuse by (simp add: add.assoc)
    moreover have "token \<in> {1..cb_sequence b}" using s fl by auto
    ultimately show ?thesis using True d s fl ok by (auto simp: tokens_ok_def owner_tokens_def free_list_def)
  next
    case False
    then have c: "cb_free_count b = 0" "free_list b = []" using reuse by (simp_all add: free_list_def ring_def)
    have n: "int (length (cb_owners b)) = cb_sequence b" using tokens_count [OF ok] c by simp
    have st: "set (owner_tokens b) = {1..cb_sequence b}" using s c by simp
    have "insert (cb_sequence b + 1) {1..cb_sequence b} = {1..cb_sequence b + 1}" using n by auto
    then show ?thesis using False d st c token room n h tl by (auto simp: tokens_ok_def owner_tokens_def free_list_def ring_def)
  qed
  then show "token \<notin> set (owner_tokens b)" "0 < token"
    "tokens_ok (b\<lparr>cb_free_head := (if reuse then token_ring_next (cb_free_head b) else cb_free_head b),
                  cb_free_count := (if reuse then cb_free_count b - 1 else cb_free_count b),
                  cb_sequence := (if reuse then cb_sequence b else token), cb_owners := cb_owners b @ [(token, e)]\<rparr>)" by blast+
qed

text \<open>The budget after the statements of an undisturbed admission.\<close>

definition admitted :: "bool \<Rightarrow> int \<Rightarrow> owner_entry \<Rightarrow> control_budget \<Rightarrow> control_budget" where
  "admitted reuse token e b =
     b\<lparr>cb_free_head := (if reuse then token_ring_next (cb_free_head b) else cb_free_head b),
       cb_free_count := (if reuse then cb_free_count b - 1 else cb_free_count b),
       cb_sequence := (if reuse then cb_sequence b else token), cb_owners := cb_owners b @ [(token, e)]\<rparr>"

lemma admission_steps_all:
  assumes "map_of (cb_owners b) token = None"
    "next_head = (if reuse then token_ring_next (cb_free_head b) else cb_free_head b)"
    "next_count = (if reuse then cb_free_count b - 1 else cb_free_count b)"
  shows "snd (apply_all (admission_steps reuse token next_head next_count e) (l, b)) = admitted reuse token e b"
  using assms by (cases l; cases reuse) (auto simp: admission_steps_def admitted_def set_owner_def intro!: control_budget.equality)

lemma admitted_inv:
  assumes inv: "cp_inv pid b ts" and cap: "unknown_cap cap b ts" "cap < cb_next_cap b" "ca_pid (cb_caps b cap) = pid"
    "ca_token (cb_caps b cap) = token" "\<not> ca_released (cb_caps b cap)"
    and room: "length (cb_owners b) < MAX_ACTIVE_TICKETS" and amount: "MIN_TICKET_BYTES \<le> amount"
    and reuse: "reuse \<longleftrightarrow> cb_free_count b > 0"
    and token: "token = (if reuse then cb_free_tokens b (cb_free_head b) else cb_sequence b + 1)"
  shows "cp_inv pid (set_mirrors (cb_reserved b + amount) p (cb_active b + 1) (admitted reuse token \<lparr>oe_capability = cap, oe_amount = amount\<rparr> b))
    (new_ticket pid kind amount token cap # ts)"
proof -
  let ?e = "\<lparr>oe_capability = cap, oe_amount = amount\<rparr>"
  let ?b = "set_mirrors (cb_reserved b + amount) p (cb_active b + 1) (admitted reuse token ?e b)"
  have ok: "budget_ok pid b" "history_ok b ts" using inv by (simp_all add: cp_inv_def)
  have f [simp]: "cb_owners ?b = cb_owners b @ [(token, ?e)]" "cb_pid ?b = cb_pid b" "cb_caps ?b = cb_caps b"
    "cb_next_cap ?b = cb_next_cap b" "cb_static ?b = cb_static b" "cb_corrupted ?b = cb_corrupted b"
    "cb_counters_dirty ?b = cb_counters_dirty b" "cb_reserved ?b = cb_reserved b + amount" "cb_active ?b = cb_active b + 1"
    by (simp_all add: set_mirrors_def admitted_def)
  have tok: "tokens_ok b" using ok(1) by (simp add: budget_ok_def)
  note ta = tokens_admit(1,2) [OF tok room reuse token] tokens_admit(3) [OF tok room reuse token, of ?e]
  have "tokens_ok ?b"
    using ta(3) by (simp add: set_mirrors_def admitted_def tokens_ok_def owner_tokens_def free_list_def)
  moreover have "owner_ok ?b x" if "x \<in> set (cb_owners b) \<or> x = (token, ?e)" for x
    using that ok(1) cap ta(2) amount by (auto simp: budget_ok_def list_all_iff owner_ok_def Let_def)
  moreover have "mirrors_ok ?b" unfolding mirrors_ok_def f using ok(1) by (simp add: budget_ok_def mirrors_ok_def)
  ultimately have "budget_ok pid ?b" using ok(1) by (auto simp: budget_ok_def list_all_iff)
  moreover have "ticket_ok ?b t" if "t \<in> set ts" for t
    using that ok(2) by (auto simp: history_ok_def list_all_iff ticket_ok_def Let_def)
  moreover have "ticket_ok ?b (new_ticket pid kind amount token cap)"
    using cap ok(1) by (simp add: ticket_ok_def new_ticket_def budget_ok_def)
  moreover have "distinct (map tk_capability (new_ticket pid kind amount token cap # ts))"
    using ok(2) cap(1) by (auto simp: history_ok_def unknown_cap_def new_ticket_def)
  moreover have "oe_capability ` snd ` set (cb_owners ?b) \<subseteq> tk_capability ` set (new_ticket pid kind amount token cap # ts)"
  proof -
    have "oe_capability ` snd ` set (cb_owners b) \<subseteq> tk_capability ` set ts" using ok(2) by (simp add: history_ok_def)
    then show ?thesis unfolding f by (simp add: new_ticket_def) blast
  qed
  ultimately show ?thesis unfolding cp_inv_def history_ok_def list_all_iff by simp
qed

lemma admit_inv:
  assumes inv: "cp_inv pid b ts" and cap: "unknown_cap cap b ts" "cap < cb_next_cap b" "ca_pid (cb_caps b cap) = pid"
    "\<not> ca_released (cb_caps b cap)"
    and room: "length (cb_owners b) < MAX_ACTIVE_TICKETS" and amount: "MIN_TICKET_BYTES \<le> amount"
    and a: "admit_ticket env None cur nxt amount cap b = (r, b')"
  shows "case r of Inl e \<Rightarrow> cp_inv pid b' ts \<and> cb_owners b' = cb_owners b
    | Inr token \<Rightarrow> cp_inv pid b' (new_ticket pid kind amount token cap # ts)
        \<and> cb_owners b' = cb_owners b @ [(token, \<lparr>oe_capability = cap, oe_amount = amount\<rparr>)]
        \<and> cb_capacity b' = cb_capacity b \<and> cb_static b' = cb_static b"
proof -
  define reuse where "reuse \<longleftrightarrow> cb_free_count b > 0"
  define token where "token = (if reuse then cb_free_tokens b (cb_free_head b) else cb_sequence b + 1)"
  let ?e = "\<lparr>oe_capability = cap, oe_amount = amount\<rparr>"
  let ?b1 = "update_cap cap (\<lambda>c. c\<lparr>ca_token := token\<rparr>) b"
  obtain x b2 where s: "sync_native_shadow env nxt ?b1 = (x, b2)" by fastforce
  have v: "ledger_view b2 = ledger_view ?b1" using sync_view [of env nxt ?b1] s by simp
  note vf = view_fields [OF v, simplified]
  have inv2: "cp_inv pid b2 ts" using cp_inv_view [OF v] update_cap_unknown [OF inv cap(1)] by blast
  have u2: "unknown_cap cap b2 ts" using cap(1) by (simp add: unknown_cap_def)
  have tok: "tokens_ok b" using inv by (simp add: cp_inv_def budget_ok_def)
  have tn: "map_of (cb_owners b2) token = None"
    using tokens_admit(1) [OF tok room reuse_def token_def] vf(11) by (simp add: map_of_eq_None_iff owner_tokens_def)
  show ?thesis
  proof (cases x)
    case (Inl e)
    then have "r = Inl e" "b' = update_cap cap (\<lambda>c. c\<lparr>ca_token := 0\<rparr>) b2"
      using a s tn by (simp_all add: admit_ticket_def Let_def reuse_def token_def admission_failed_def undo_admission_def)
    then show ?thesis using update_cap_unknown [OF inv2 u2] vf(11) by simp
  next
    case (Inr u)
    let ?h = "if reuse then token_ring_next (cb_free_head b) else cb_free_head b" and ?n = "if reuse then cb_free_count b - 1 else cb_free_count b"
    have st: "snd (apply_all (admission_steps reuse token ?h ?n ?e) ((False, False), b2)) = admitted reuse token ?e b2"
      by (rule admission_steps_all [OF tn]) (simp_all add: vf)
    have r: "r = Inr token" "b' = set_mirrors (cb_reserved b2 + amount) (max (cb_peak b) (cb_reserved b + amount)) (cb_active b2 + 1) (admitted reuse token ?e b2)"
      using a s Inr st vf(3,5) by (simp_all add: admit_ticket_def Let_def reuse_def [symmetric] token_def [symmetric])
    have "cp_inv pid b' (new_ticket pid kind amount token cap # ts)"
      unfolding r(2)
    proof (rule admitted_inv [OF inv2 u2])
      show "cap < cb_next_cap b2" "ca_pid (cb_caps b2 cap) = pid" "ca_token (cb_caps b2 cap) = token" "\<not> ca_released (cb_caps b2 cap)"
        using vf(14,15) cap by simp_all
      show "length (cb_owners b2) < MAX_ACTIVE_TICKETS" "reuse \<longleftrightarrow> 0 < cb_free_count b2"
        "token = (if reuse then cb_free_tokens b2 (cb_free_head b2) else cb_sequence b2 + 1)"
        using vf room by (simp_all add: reuse_def token_def)
    qed (rule amount)
    moreover have "cb_owners b' = cb_owners b @ [(token, ?e)]" "cb_capacity b' = cb_capacity b" "cb_static b' = cb_static b"
      unfolding r(2) using vf(2,11,16) by (simp_all add: set_mirrors_def admitted_def update_cap_def)
    ultimately show ?thesis using r(1) by simp
  qed
qed

lemma cp_inv_counters [simp]:
  "cp_inv pid (b\<lparr>cb_rejected := n\<rparr>) ts = cp_inv pid b ts" "cp_inv pid (b\<lparr>cb_over_release := n\<rparr>) ts = cp_inv pid b ts"
  "cp_inv pid (b\<lparr>cb_capacity := n\<rparr>) ts = cp_inv pid b ts" "cp_inv pid (b\<lparr>cb_tick := k\<rparr>) ts = cp_inv pid b ts"
  by (simp_all add: cp_inv_def budget_ok_def owner_ok_def [abs_def] tokens_ok_def mirrors_ok_def owner_tokens_def free_list_def
      history_ok_def ticket_ok_def [abs_def])

definition governed :: "control_budget \<Rightarrow> int" where
  "governed b = ledger_total (static_map (cb_static b)) + sum_list (map (\<lambda>x. oe_amount (snd x)) (cb_owners b))"

lemma governed_ok: "budget_ok pid b \<Longrightarrow> governed b = ledger_total (static_map (cb_static b)) + cb_reserved b"
  by (simp add: governed_def budget_ok_def mirrors_ok_def)

lemma exhausted_limit_None:
  assumes "exhausted_limit env amount g b = (Inr None, b')"
  shows "b' = b\<lparr>cb_tick := cb_tick b + 1\<rparr>" "g \<le> cb_capacity b" "cb_active b + 1 \<le> int MAX_ACTIVE_TICKETS"
  using assms by (auto simp: exhausted_limit_def Let_def split: if_splits option.splits)

lemma exhausted_limit_state: "exhausted_limit env amount g b = (r, b') \<Longrightarrow> \<exists>n. b' = b\<lparr>cb_tick := n\<rparr>"
proof -
  assume "exhausted_limit env amount g b = (r, b')"
  then have "b' = b \<or> b' = b\<lparr>cb_tick := cb_tick b + 1\<rparr>"
    by (auto simp: exhausted_limit_def Let_def split: if_splits option.splits)
  moreover have "b = b\<lparr>cb_tick := cb_tick b\<rparr>" by (rule control_budget.equality) simp_all
  ultimately show ?thesis by metis
qed

text \<open>What an admission promises: the tickets stay accounted for, and a granted one is the new owner.\<close>

definition admits :: "int \<Rightarrow> string \<Rightarrow> int \<Rightarrow> nat \<Rightarrow> ticket list \<Rightarrow> control_budget \<Rightarrow> (cp_error + int) \<times> control_budget \<Rightarrow> bool" where
  "admits pid kind amount cap ts b r \<longleftrightarrow>
     (case fst r of
        Inl e \<Rightarrow> cp_inv pid (snd r) ts \<and> cb_owners (snd r) = cb_owners b
      | Inr token \<Rightarrow> cp_inv pid (snd r) (new_ticket pid kind amount token cap # ts)
          \<and> cb_owners (snd r) = cb_owners b @ [(token, \<lparr>oe_capability = cap, oe_amount = amount\<rparr>)]
          \<and> governed (snd r) \<le> cb_capacity (snd r))"

definition fresh_cap :: "int \<Rightarrow> nat \<Rightarrow> ticket list \<Rightarrow> control_budget \<Rightarrow> bool" where
  "fresh_cap pid cap ts b \<longleftrightarrow>
     unknown_cap cap b ts \<and> cap < cb_next_cap b \<and> ca_pid (cb_caps b cap) = pid \<and> \<not> ca_released (cb_caps b cap)"

lemma fresh_cap_view:
  assumes "ledger_view a = ledger_view b" "fresh_cap pid cap ts b"
  shows "fresh_cap pid cap ts a"
  using assms(2) view_fields(14,15) [OF assms(1)] by (simp add: fresh_cap_def unknown_cap_def)

lemma check_and_admit_inv:
  assumes "cp_inv pid b ts" "fresh_cap pid cap ts b" "MIN_TICKET_BYTES \<le> amount" "base = ledger_total (static_map (cb_static b))"
  shows "admits pid kind amount cap ts b (check_and_admit env None base amount cap b)"
proof -
  obtain x b1 where e: "exhausted_limit env amount (base + (cb_reserved b + amount)) b = (x, b1)" by fastforce
  obtain n where n: "b1 = b\<lparr>cb_tick := n\<rparr>" using exhausted_limit_state [OF e] by blast
  have inv1: "cp_inv pid b1 ts" and ob: "cb_owners b1 = cb_owners b" "cb_next_cap b1 = cb_next_cap b" "cb_caps b1 = cb_caps b"
    "cb_capacity b1 = cb_capacity b" "cb_static b1 = cb_static b"
    using assms(1) n by simp_all
  consider (err) er where "x = Inl er" | (lim) nm where "x = Inr (Some nm)" | (go) "x = Inr None"
    by (metis sum.exhaust option.exhaust)
  then show ?thesis
  proof cases
    case go
    have "cb_active b + 1 \<le> int MAX_ACTIVE_TICKETS" and cp: "base + (cb_reserved b + amount) \<le> cb_capacity b"
      using exhausted_limit_None(2,3) e go by blast+
    then have "length (cb_owners b1) < MAX_ACTIVE_TICKETS"
      using assms(1) n by (simp add: cp_inv_def budget_ok_def mirrors_ok_def)
    moreover obtain r b' where a: "admit_ticket env None (base + cb_reserved b) (base + (cb_reserved b + amount)) amount cap b1 = (r, b')" by fastforce
    moreover have "cb_reserved b = sum_list (map (\<lambda>x. oe_amount (snd x)) (cb_owners b))"
      using assms(1) by (simp add: cp_inv_def budget_ok_def mirrors_ok_def)
    ultimately show ?thesis
      using admit_inv [OF inv1 _ _ _ _ _ assms(3) a, of kind, unfolded ob] assms(2,4) e go cp
      by (cases r) (simp_all add: check_and_admit_def admits_def fresh_cap_def unknown_cap_def ob(1) governed_def)
  qed (use e inv1 n in \<open>simp_all add: check_and_admit_def admits_def\<close>)
qed

lemma new_capability_inv:
  assumes "cp_inv pid b ts"
  shows "cp_inv pid (new_capability pid b) ts" "fresh_cap pid (cb_next_cap b) ts (new_capability pid b)"
    "cb_owners (new_capability pid b) = cb_owners b"
  using allocate_cap [OF assms] by (simp_all add: new_capability_def fresh_cap_def unknown_cap_def)

lemma reserve_locked_inv:
  assumes "cp_inv pid b ts" "fresh_cap pid cap ts b" "MIN_TICKET_BYTES \<le> amount"
  shows "admits pid kind amount cap ts b (reserve_locked env pid None amount cap b)"
proof -
  have ok: "budget_ok pid b" using assms(1) by (simp add: cp_inv_def)
  then have c: "\<not> cb_corrupted b" by (simp add: budget_ok_def mirrors_ok_def)
  let ?base = "ledger_total (static_map (cb_static b))"
  obtain x b2 where s: "sync_native_shadow env (?base + cb_reserved b) b = (x, b2)" by fastforce
  have v: "ledger_view b2 = ledger_view b" using sync_view [of env "?base + cb_reserved b" b] s by simp
  have inv2: "cp_inv pid b2 ts" using assms(1) cp_inv_view [OF v] by blast
  have "reserve_locked env pid None amount cap b =
    (case x of Inl e \<Rightarrow> (Inl e, b2) | Inr _ \<Rightarrow> check_and_admit env None ?base amount cap b2)"
    using c s by (simp add: reserve_locked_def same_process_ok [OF ok] reconcile_ok [OF ok] baseline_ok [OF ok] split: sum.split)
  then show ?thesis
    using inv2 check_and_admit_inv [OF inv2 fresh_cap_view [OF v assms(2)] assms(3), of ?base kind env] view_fields(11,16) [OF v]
    by (auto simp: admits_def split: sum.splits)
qed

lemma reserve_inv:
  assumes "cp_inv pid b ts" "reserve env pid None kind amount b = (r, b')"
  shows "case r of Inl e \<Rightarrow> cp_inv pid b' ts \<and> cb_owners b' = cb_owners b
    | Inr t \<Rightarrow> cp_inv pid b' (t # ts) \<and> tk_amount t = amount
        \<and> cb_owners b' = cb_owners b @ [(tk_token t, \<lparr>oe_capability = tk_capability t, oe_amount = amount\<rparr>)]
        \<and> governed b' \<le> cb_capacity b'"
proof (cases "amount < MIN_TICKET_BYTES")
  case True
  then have "r = Inl (Py (ValueError ''control-plane reservation must be >= 256 bytes''))" "b' = b"
    using assms(2) by (simp_all add: reserve_def)
  then show ?thesis using assms(1) by simp
next
  case False
  obtain x0 b0 where p: "prewarm_native_shadow env b = (x0, b0)" by fastforce
  have v0: "ledger_view b0 = ledger_view b" using prewarm_view [of env b] p by simp
  have inv0: "cp_inv pid b0 ts" using assms(1) cp_inv_view [OF v0] by blast
  note nc = new_capability_inv [OF inv0]
  obtain x b2 where l: "reserve_locked env pid None amount (cb_next_cap b0) (new_capability pid b0) = (x, b2)" by fastforce
  have "admits pid kind amount (cb_next_cap b0) ts (new_capability pid b0) (x, b2)"
    using reserve_locked_inv [OF nc(1,2), of amount kind env] False l by simp
  then have "case x of Inl e \<Rightarrow> cp_inv pid b2 ts \<and> cb_owners b2 = cb_owners b
    | Inr token \<Rightarrow> cp_inv pid b2 (new_ticket pid kind amount token (cb_next_cap b0) # ts)
        \<and> cb_owners b2 = cb_owners b @ [(token, \<lparr>oe_capability = cb_next_cap b0, oe_amount = amount\<rparr>)]
        \<and> governed b2 \<le> cb_capacity b2"
    using nc(3) view_fields(11) [OF v0] by (cases x) (simp_all add: admits_def)
  then show ?thesis
    using assms(2) p l False inv0 view_fields(11) [OF v0]
    by (cases x0; cases x) (auto simp: reserve_def new_ticket_def)
qed


section \<open>Release\<close>

lemma reconcile_restores:
  assumes "list_all (owner_ok b) (cb_owners b)" "\<not> cb_corrupted b"
  shows "mirrors_ok (reconcile_counters b)"
proof -
  have "list_all (entry_valid b) (map snd (cb_owners b))"
    using assms(1) by (auto simp: list_all_iff owner_ok_def entry_valid_def Let_def MIN_TICKET_BYTES_def)
  moreover from this have "filter (entry_valid b) (map snd (cb_owners b)) = map snd (cb_owners b)"
    by (simp add: filter_id_conv list_all_iff)
  ultimately show ?thesis using assms(2) by (simp add: reconcile_counters_def mirrors_ok_def Let_def comp_def)
qed

lemma reconcile_fields [simp]:
  "cb_owners (reconcile_counters b) = cb_owners b" "cb_pid (reconcile_counters b) = cb_pid b"
  "cb_caps (reconcile_counters b) = cb_caps b" "cb_next_cap (reconcile_counters b) = cb_next_cap b"
  "cb_static (reconcile_counters b) = cb_static b" "tokens_ok (reconcile_counters b) = tokens_ok b"
  "owner_ok (reconcile_counters b) = owner_ok b" "ticket_ok (reconcile_counters b) = ticket_ok b"
  by (simp_all add: reconcile_counters_def Let_def tokens_ok_def owner_tokens_def free_list_def owner_ok_def [abs_def] ticket_ok_def [abs_def])

text \<open>The budget after the statements of an undisturbed release, before reconciliation.\<close>

definition recycled :: "int \<Rightarrow> control_budget \<Rightarrow> control_budget" where
  "recycled token b =
     b\<lparr>cb_owners := filter (\<lambda>x. fst x \<noteq> token) (cb_owners b), cb_free_tokens := (cb_free_tokens b)(cb_free_tail b := token),
       cb_free_tail := token_ring_next (cb_free_tail b), cb_free_count := cb_free_count b + 1\<rparr>"

lemma filter_tokens: "map fst (filter (\<lambda>x. fst x \<noteq> t) xs) = filter (\<lambda>y. y \<noteq> t) (map fst xs)"
  by (induction xs) auto

lemma tokens_recycle:
  assumes ok: "tokens_ok b" and t: "token \<in> set (owner_tokens b)"
  shows "tokens_ok (recycled token b)" "cb_free_count b < MAX_ACTIVE_TICKETS"
proof -
  have "0 < length (cb_owners b)" using t by (auto simp: owner_tokens_def)
  moreover have "cb_sequence b \<le> int MAX_ACTIVE_TICKETS" using ok by (simp add: tokens_ok_def)
  ultimately show room: "cb_free_count b < MAX_ACTIVE_TICKETS" using tokens_count [OF ok] by linarith
  have tl: "cb_free_tail b = (cb_free_head b + cb_free_count b) mod MAX_ACTIVE_TICKETS" using ok by (simp add: tokens_ok_def)
  have fl: "free_list (recycled token b) = free_list b @ [token]"
    using ring_push [OF room, of "cb_free_tokens b" "cb_free_head b" token] by (simp add: free_list_def recycled_def tl)
  have ot: "owner_tokens (recycled token b) = filter (\<lambda>y. y \<noteq> token) (owner_tokens b)"
    by (simp add: owner_tokens_def recycled_def filter_tokens)
  have "token_ring_next (cb_free_tail b) = (cb_free_head b + (cb_free_count b + 1)) mod MAX_ACTIVE_TICKETS"
    using token_ring_next_mod [of "cb_free_tail b"] max_tickets_pos by (simp add: tl mod_Suc_eq)
  moreover have "distinct (owner_tokens (recycled token b) @ free_list (recycled token b))"
    using ok t unfolding fl ot by (auto simp: tokens_ok_def)
  moreover have "set (owner_tokens (recycled token b) @ free_list (recycled token b)) = {1..cb_sequence b}"
  proof -
    have "set (owner_tokens b @ free_list b) = {1..cb_sequence b}" using ok by (simp add: tokens_ok_def)
    then show ?thesis unfolding fl ot using t by auto
  qed
  ultimately show "tokens_ok (recycled token b)" using ok by (simp add: tokens_ok_def recycled_def)
qed


text \<open>The native release happens after the owner is gone and touches nothing of the ledger.\<close>

lemma ticket_release_steps_all:
  fixes b :: control_budget and token :: int
  assumes "cb_free_count b < MAX_ACTIVE_TICKETS"
  defines "os \<equiv> filter (\<lambda>x. fst x \<noteq> token) (cb_owners b)"
  obtains c where "ledger_view c = ledger_view (recycled token b)"
    "cb_native c = cb_native (release_native_shadow env amount (b\<lparr>cb_owners := os\<rparr>))"
    "cb_shadow_ready c = cb_shadow_ready (release_native_shadow env amount (b\<lparr>cb_owners := os\<rparr>))"
    "cb_shadow_dirty c = cb_shadow_dirty (release_native_shadow env amount (b\<lparr>cb_owners := os\<rparr>))"
    "cb_shadow_bytes c = cb_shadow_bytes (release_native_shadow env amount (b\<lparr>cb_owners := os\<rparr>))"
    "apply_all (ticket_release_steps env token cap amount b) (b\<lparr>cb_owners := os\<rparr>) = reconcile_counters (mark_capability_released cap c)"
proof -
  define n where "n = release_native_shadow env amount (b\<lparr>cb_owners := os\<rparr>)"
  have v: "ledger_view n = ledger_view (b\<lparr>cb_owners := os\<rparr>)" unfolding n_def by (rule release_shadow_view)
  have f: "cb_free_tokens n = cb_free_tokens b" using view_fields(7) [OF v] by simp
  have m: "update_cap cap (\<lambda>c. c\<lparr>ca_retire_requested := False\<rparr>) (update_cap cap (\<lambda>c. c\<lparr>ca_released := True\<rparr>) d) = mark_capability_released cap d" for d
    by (simp add: update_cap_def mark_capability_released_def)
  let ?c = "n\<lparr>cb_free_tokens := (cb_free_tokens b)(cb_free_tail b := token), cb_free_tail := token_ring_next (cb_free_tail b),
    cb_free_count := cb_free_count b + 1\<rparr>"
  have "ledger_view ?c = ledger_view (recycled token b)" using v by (simp add: ledger_view_def recycled_def os_def)
  moreover have "apply_all (ticket_release_steps env token cap amount b) (b\<lparr>cb_owners := os\<rparr>) = reconcile_counters (mark_capability_released cap ?c)"
    using assms(1) f by (simp add: ticket_release_steps_def n_def [symmetric] m)
  ultimately show thesis by (intro that [of ?c]) (simp_all add: n_def)
qed

lemma ticket_owner:
  assumes "cp_inv pid b ts" "t \<in> set ts" "live b t"
  shows "map_of (cb_owners b) (tk_token t) = Some \<lparr>oe_capability = tk_capability t, oe_amount = tk_amount t\<rparr>"
    "(tk_token t, \<lparr>oe_capability = tk_capability t, oe_amount = tk_amount t\<rparr>) \<in> set (cb_owners b)"
proof -
  show m: "(tk_token t, \<lparr>oe_capability = tk_capability t, oe_amount = tk_amount t\<rparr>) \<in> set (cb_owners b)"
    using assms by (auto simp: cp_inv_def history_ok_def list_all_iff ticket_ok_def live_def Let_def)
  have "distinct (map fst (cb_owners b))" using assms(1) by (simp add: cp_inv_def budget_ok_def tokens_ok_def owner_tokens_def)
  then show "map_of (cb_owners b) (tk_token t) = Some \<lparr>oe_capability = tk_capability t, oe_amount = tk_amount t\<rparr>"
    using m by simp
qed

lemma owners_cover:
  assumes "budget_ok pid b" "(t, e) \<in> set (cb_owners b)"
  shows "oe_amount e \<le> cb_reserved b" "0 < cb_active b"
proof -
  have nn: "0 \<le> oe_amount (snd x)" if "x \<in> set (cb_owners b)" for x
    using that assms(1) by (fastforce simp: budget_ok_def list_all_iff owner_ok_def Let_def MIN_TICKET_BYTES_def)
  moreover have "oe_amount (snd (t, e)) \<in> set (map (\<lambda>x. oe_amount (snd x)) (cb_owners b))"
    unfolding set_map using assms(2) by (rule imageI)
  ultimately have "oe_amount (snd (t, e)) \<le> sum_list (map (\<lambda>x. oe_amount (snd x)) (cb_owners b))"
    by (intro member_le_sum_list) auto
  then show "oe_amount e \<le> cb_reserved b" using assms(1) by (simp add: budget_ok_def mirrors_ok_def)
  show "0 < cb_active b" using assms by (auto simp: budget_ok_def mirrors_ok_def dest: length_pos_if_in_set)
qed

text \<open>The state a release leaves: its owner gone, its capability marked, nothing else of the tickets changed.\<close>

definition released_ticket :: "ticket \<Rightarrow> control_budget \<Rightarrow> control_budget \<Rightarrow> bool" where
  "released_ticket t b b' \<longleftrightarrow>
     cb_owners b' = filter (\<lambda>x. fst x \<noteq> tk_token t) (cb_owners b) \<and> cb_next_cap b' = cb_next_cap b
     \<and> cb_static b' = cb_static b \<and> cb_pid b' = cb_pid b
     \<and> cb_caps b' = (cb_caps b)(tk_capability t := (cb_caps b (tk_capability t))\<lparr>ca_released := True, ca_retire_requested := False\<rparr>)"

lemma released_owners_ok:
  assumes inv: "cp_inv pid b ts" and t: "t \<in> set ts" "live b t" and r: "released_ticket t b b'"
  shows "list_all (owner_ok b') (cb_owners b')"
proof -
  have ok: "budget_ok pid b" using inv by (simp add: cp_inv_def)
  have tok: "ca_token (cb_caps b (oe_capability (snd x))) = fst x" if "x \<in> set (cb_owners b)" for x
    using that ok by (auto simp: budget_ok_def list_all_iff owner_ok_def Let_def)
  have "oe_capability (snd x) \<noteq> tk_capability t" if "x \<in> set (cb_owners b)" "fst x \<noteq> tk_token t" for x
    using tok [OF that(1)] tok [OF ticket_owner(2) [OF inv t]] that(2) by auto
  then show ?thesis using r ok by (auto simp: released_ticket_def budget_ok_def list_all_iff owner_ok_def Let_def)
qed

lemma released_inv:
  assumes inv: "cp_inv pid b ts" and t: "t \<in> set ts" "live b t" and r: "released_ticket t b b'"
    and "tokens_ok b'" "mirrors_ok b'"
  shows "cp_inv pid b' ts"
proof -
  have ok: "budget_ok pid b" "history_ok b ts" using inv by (simp_all add: cp_inv_def)
  note owner = ticket_owner [OF inv t]
  have tick: "ticket_ok b' u" if u: "u \<in> set ts" for u
  proof (cases "u = t")
    case True
    then show ?thesis using r ok(2) t(1) by (auto simp: released_ticket_def ticket_ok_def history_ok_def list_all_iff Let_def)
  next
    case False
    then have c: "tk_capability u \<noteq> tk_capability t" using ok(2) u t(1) by (auto simp: history_ok_def distinct_map dest: inj_onD)
    have "tk_token u \<noteq> tk_token t" if "live b u"
    proof
      assume "tk_token u = tk_token t"
      then show False using ticket_owner(1) [OF inv u that] owner(1) c by simp
    qed
    then show ?thesis using r ok(2) u c by (auto simp: released_ticket_def ticket_ok_def history_ok_def list_all_iff Let_def live_def)
  qed
  have "budget_ok pid b'"
    using r ok(1) assms(5,6) released_owners_ok [OF inv t r] by (simp add: released_ticket_def budget_ok_def)
  moreover have "oe_capability ` snd ` set (cb_owners b') \<subseteq> tk_capability ` set ts"
  proof -
    have "set (cb_owners b') \<subseteq> set (cb_owners b)" using r by (auto simp: released_ticket_def)
    then show ?thesis using ok(2) unfolding history_ok_def by blast
  qed
  ultimately show ?thesis using tick ok(2) by (simp add: cp_inv_def history_ok_def list_all_iff)
qed

lemma release_capability_live:
  assumes inv: "cp_inv pid b ts" and t: "t \<in> set ts" "live b t"
  obtains b' where "release_capability env pid None (tk_capability t) (tk_token t) b = (Inr True, b')"
    "cp_inv pid b' ts" "released_ticket t b b'"
    "let n = release_native_shadow env (tk_amount t) (b\<lparr>cb_owners := filter (\<lambda>x. fst x \<noteq> tk_token t) (cb_owners b)\<rparr>) in
     cb_native b' = cb_native n \<and> cb_shadow_ready b' = cb_shadow_ready n \<and> cb_shadow_dirty b' = cb_shadow_dirty n
     \<and> cb_shadow_bytes b' = cb_shadow_bytes n"
proof -
  have ok: "budget_ok pid b" "history_ok b ts" using inv by (simp_all add: cp_inv_def)
  note owner = ticket_owner [OF inv t]
  have cap: "ca_pid (cb_caps b (tk_capability t)) = pid" "ca_token (cb_caps b (tk_capability t)) = tk_token t"
    "\<not> ca_released (cb_caps b (tk_capability t))"
    using ok t by (auto simp: history_ok_def list_all_iff ticket_ok_def Let_def live_def budget_ok_def)
  have tok: "tokens_ok b" "tk_token t \<in> set (owner_tokens b)" using ok(1) owner(2) by (force simp: budget_ok_def owner_tokens_def)+
  let ?b1 = "b\<lparr>cb_owners := filter (\<lambda>x. fst x \<noteq> tk_token t) (cb_owners b)\<rparr>"
  obtain c where c: "ledger_view c = ledger_view (recycled (tk_token t) b)"
    and sh: "cb_native c = cb_native (release_native_shadow env (tk_amount t) ?b1)"
    "cb_shadow_ready c = cb_shadow_ready (release_native_shadow env (tk_amount t) ?b1)"
    "cb_shadow_dirty c = cb_shadow_dirty (release_native_shadow env (tk_amount t) ?b1)"
    "cb_shadow_bytes c = cb_shadow_bytes (release_native_shadow env (tk_amount t) ?b1)"
    and st: "apply_all (ticket_release_steps env (tk_token t) (tk_capability t) (tk_amount t) b) ?b1 =
      reconcile_counters (mark_capability_released (tk_capability t) c)"
    by (rule ticket_release_steps_all [OF tokens_recycle(2) [OF tok]])
  note cf = view_fields [OF c]
  define b' where "b' = reconcile_counters (mark_capability_released (tk_capability t) c)"
  have "release_capability env pid None (tk_capability t) (tk_token t) b = (Inr True, b')"
    using cap owner(1) owners_cover [OF ok(1) owner(2)] same_process_ok [OF ok(1)] reconcile_ok [OF ok(1)] st
    by (simp add: release_capability_def Let_def b'_def)
  moreover have r: "released_ticket t b b'"
    using cf by (simp add: released_ticket_def b'_def mark_capability_released_def recycled_def)
  moreover have "cp_inv pid b' ts"
  proof (rule released_inv [OF inv t r])
    have "tokens_ok c" using tokens_recycle(1) [OF tok] cf by (simp add: tokens_ok_def owner_tokens_def free_list_def)
    then show "tokens_ok b'" by (simp add: b'_def mark_capability_released_def)
    have "list_all (owner_ok (mark_capability_released (tk_capability t) c)) (cb_owners (mark_capability_released (tk_capability t) c))"
      using released_owners_ok [OF inv t r] unfolding b'_def by simp
    moreover have "\<not> cb_corrupted c" using cf(13) ok(1) by (simp add: recycled_def budget_ok_def mirrors_ok_def)
    ultimately show "mirrors_ok b'" unfolding b'_def by (intro reconcile_restores) (simp_all add: mark_capability_released_def)
  qed
  moreover have "cb_native b' = cb_native c" "cb_shadow_ready b' = cb_shadow_ready c" "cb_shadow_dirty b' = cb_shadow_dirty c"
    "cb_shadow_bytes b' = cb_shadow_bytes c"
    by (simp_all add: b'_def reconcile_counters_def mark_capability_released_def update_cap_def Let_def)
  ultimately show thesis using sh by (intro that [of b']) simp_all
qed

lemma mark_capability_released_again:
  assumes "cp_inv pid b ts" "ca_released (cb_caps b c)"
  shows "cp_inv pid (mark_capability_released c b) ts"
proof -
  have "owner_ok (mark_capability_released c b) x" if "owner_ok b x" for x
    using that assms(2) by (auto simp: owner_ok_def Let_def mark_capability_released_def)
  moreover have "ticket_ok (mark_capability_released c b) t \<longleftrightarrow> ticket_ok b t" for t
    using assms(2) by (auto simp: ticket_ok_def Let_def mark_capability_released_def)
  ultimately show ?thesis
    using assms(1) by (auto simp: cp_inv_def budget_ok_def history_ok_def list_all_iff mark_capability_released_def)
qed

lemma mark_capability_released_simps [simp]:
  "cb_owners (mark_capability_released c b) = cb_owners b" "cb_static (mark_capability_released c b) = cb_static b" "cb_pid (mark_capability_released c b) = cb_pid b"
  "cb_next_cap (mark_capability_released c b) = cb_next_cap b" "cb_native (mark_capability_released c b) = cb_native b"
  "cb_shadow_ready (mark_capability_released c b) = cb_shadow_ready b" "cb_shadow_dirty (mark_capability_released c b) = cb_shadow_dirty b"
  "cb_shadow_bytes (mark_capability_released c b) = cb_shadow_bytes b"
  "cb_caps (mark_capability_released c b) = (cb_caps b)(c := (cb_caps b c)\<lparr>ca_released := True, ca_retire_requested := False\<rparr>)"
  by (simp_all add: mark_capability_released_def update_cap_def)

text \<open>Releasing a ticket, live or stale, succeeds; a stale one changes no owner.\<close>

lemma release_inv:
  assumes inv: "cp_inv pid b ts" and t: "t \<in> set ts"
  obtains b' where "release env pid None (Some t) b = (Inr True, b')" "cp_inv pid b' ts"
    "live b t \<longrightarrow> released_ticket t b b'" "\<not> live b t \<longrightarrow> b' = mark_capability_released (tk_capability t) b"
proof -
  have p: "tk_pid t = pid" using inv t by (auto simp: cp_inv_def budget_ok_def history_ok_def list_all_iff ticket_ok_def Let_def)
  show thesis
  proof (cases "live b t")
    case True
    obtain b1 where r: "release_capability env pid None (tk_capability t) (tk_token t) b = (Inr True, b1)"
      and i: "cp_inv pid b1 ts" and rt: "released_ticket t b b1"
      by (rule release_capability_live [OF inv t True])
    have rel: "ca_released (cb_caps b1 (tk_capability t))" using rt by (simp add: released_ticket_def)
    have "release env pid None (Some t) b = (Inr True, mark_capability_released (tk_capability t) b1)" using r p by (simp add: release_def)
    moreover have "released_ticket t b (mark_capability_released (tk_capability t) b1)" using rt by (simp add: released_ticket_def)
    ultimately show thesis using mark_capability_released_again [OF i rel] True by (intro that) simp_all
  next
    case False
    then have rel: "ca_released (cb_caps b (tk_capability t))" by (simp add: live_def)
    then have "release env pid None (Some t) b = (Inr True, mark_capability_released (tk_capability t) b)"
      using p by (simp add: release_def release_capability_def)
    then show thesis using mark_capability_released_again [OF inv rel] False by (intro that) simp_all
  qed
qed

lemma retire_flag_inv [simp]: "cp_inv pid (update_cap c (\<lambda>c. c\<lparr>ca_retire_requested := x\<rparr>) b) ts \<longleftrightarrow> cp_inv pid b ts"
  by (rule update_cap_flag) simp

lemma request_retirement_inv:
  assumes "cp_inv pid b ts"
  shows "cp_inv pid (snd (request_retirement pid t b)) ts"
proof -
  have "ensure_process_locked pid b = b" using assms same_process_ok by (simp add: cp_inv_def)
  then show ?thesis using assms by (simp add: request_retirement_def Let_def split: option.split)
qed

lemma collect_ticket_inv: "cp_inv pid b ts \<Longrightarrow> cp_inv pid (collect_ticket pid t b) ts"
  by (simp add: collect_ticket_def Let_def)

text \<open>An owner in the table belongs to an issued ticket that is live.\<close>

lemma owner_ticket:
  assumes inv: "cp_inv pid b ts" and x: "x \<in> set (cb_owners b)"
  obtains t where "t \<in> set ts" "live b t" "tk_capability t = oe_capability (snd x)" "tk_token t = fst x" "tk_amount t = oe_amount (snd x)"
proof -
  have ok: "budget_ok pid b" "history_ok b ts" using inv by (simp_all add: cp_inv_def)
  have "oe_capability (snd x) \<in> oe_capability ` snd ` set (cb_owners b)" using x by (intro imageI)
  then have "oe_capability (snd x) \<in> tk_capability ` set ts" using ok(2) unfolding history_ok_def by (meson subsetD)
  then obtain t where t: "t \<in> set ts" "tk_capability t = oe_capability (snd x)" by (metis imageE)
  have o: "ca_token (cb_caps b (oe_capability (snd x))) = fst x" "\<not> ca_released (cb_caps b (oe_capability (snd x)))"
    using ok(1) x by (auto simp: budget_ok_def list_all_iff owner_ok_def Let_def)
  have l: "live b t" using o(2) t(2) by (simp add: live_def)
  have tt: "tk_token t = fst x" using ok(2) t o(1) by (auto simp: history_ok_def list_all_iff ticket_ok_def Let_def)
  have d: "distinct (map fst (cb_owners b))" using ok(1) by (simp add: budget_ok_def tokens_ok_def owner_tokens_def)
  have "map_of (cb_owners b) (fst x) = Some (snd x)" using d x by simp
  then have "snd x = \<lparr>oe_capability = tk_capability t, oe_amount = tk_amount t\<rparr>"
    using ticket_owner(1) [OF inv t(1) l] tt by simp
  then have "oe_amount (snd x) = tk_amount t" by (metis owner_entry.select_convs(2))
  then show thesis using t l tt by (intro that [of t]) simp_all
qed

lemma drain_inv: "cp_inv pid b ts \<Longrightarrow> cp_inv pid (snd (drain_requested_retirements env pid n b)) ts"
proof (induction n arbitrary: b)
  case (Suc n)
  have ok: "budget_ok pid b" using Suc.prems by (simp add: cp_inv_def)
  let ?f = "filter (\<lambda>x. ca_retire_requested (cb_caps b (oe_capability (snd x)))) (cb_owners b)"
  show ?case
  proof (cases ?f)
    case Nil
    then show ?thesis using Suc.prems same_process_ok [OF ok] reconcile_ok [OF ok] by simp
  next
    case (Cons x xs)
    then have "x \<in> set (cb_owners b)" by (metis filter_is_subset list.set_intros(1) subsetD)
    then obtain t where t: "t \<in> set ts" "live b t" "tk_capability t = oe_capability (snd x)" "tk_token t = fst x"
      by (rule owner_ticket [OF Suc.prems])
    obtain b1 where "release_capability env pid None (tk_capability t) (tk_token t) b = (Inr True, b1)" "cp_inv pid b1 ts"
      by (rule release_capability_live [OF Suc.prems t(1,2)])
    then show ?thesis
      using Suc.IH [of b1] Cons t(3,4) same_process_ok [OF ok] reconcile_ok [OF ok] by (cases x) simp
  qed
qed simp



section \<open>The remaining operations\<close>

lemma configure_inv:
  assumes "cp_inv pid b ts"
  shows "cp_inv pid (snd (configure pid n b)) ts" "cb_owners (snd (configure pid n b)) = cb_owners b"
    "cb_static (snd (configure pid n b)) = cb_static b"
proof -
  have ok: "budget_ok pid b" using assms by (simp add: cp_inv_def)
  then show "cp_inv pid (snd (configure pid n b)) ts" "cb_owners (snd (configure pid n b)) = cb_owners b"
    "cb_static (snd (configure pid n b)) = cb_static b"
    using assms by (simp_all add: configure_def same_process_ok [OF ok] reconcile_ok [OF ok] baseline_ok [OF ok] Let_def)
qed

lemma snapshot_inv:
  assumes "cp_inv pid b ts"
  shows "snd (budget_snapshot_of pid b) = b" "snd (snapshot_with_shadow pid b) = b"
    "bs_reserved_bytes (fst (budget_snapshot_of pid b)) = cb_reserved b"
    "bs_active_tickets (fst (budget_snapshot_of pid b)) = cb_active b"
    "governed_bytes (fst (budget_snapshot_of pid b)) = governed b"
    "\<not> bs_reconciliation_pending (fst (budget_snapshot_of pid b))"
proof -
  have ok: "budget_ok pid b" using assms by (simp add: cp_inv_def)
  note n = same_process_ok [OF ok] reconcile_ok [OF ok] baseline_ok [OF ok]
  have m: "\<not> cb_corrupted b" "\<not> cb_counters_dirty b" using ok by (simp_all add: budget_ok_def mirrors_ok_def)
  show "snd (budget_snapshot_of pid b) = b" "snd (snapshot_with_shadow pid b) = b"
    "bs_reserved_bytes (fst (budget_snapshot_of pid b)) = cb_reserved b"
    "bs_active_tickets (fst (budget_snapshot_of pid b)) = cb_active b"
    "governed_bytes (fst (budget_snapshot_of pid b)) = governed b"
    "\<not> bs_reconciliation_pending (fst (budget_snapshot_of pid b))"
    using m governed_ok [OF ok]
    by (simp_all add: budget_snapshot_of_def snapshot_with_shadow_def n governed_bytes_def Let_def)
qed

lemma ensure_shadow_eq:
  assumes "budget_ok pid b"
  shows "ensure_native_shadow env pid b =
    (case sync_native_shadow env (governed b) b of (Inl e, b2) \<Rightarrow> (Inl e, b2) | (Inr _, b2) \<Rightarrow> (Inr (cb_shadow_bytes b2), b2))"
  using governed_ok [OF assms]
  by (simp add: ensure_native_shadow_def same_process_ok [OF assms] reconcile_ok [OF assms] baseline_ok [OF assms])

lemma ensure_shadow_state: "budget_ok pid b \<Longrightarrow> snd (ensure_native_shadow env pid b) = snd (sync_native_shadow env (governed b) b)"
  by (simp add: ensure_shadow_eq split: prod.split sum.split)

lemma ensure_shadow_inv: "cp_inv pid b ts \<Longrightarrow> cp_inv pid (snd (ensure_native_shadow env pid b)) ts"
  using ensure_shadow_state [of pid b env] sync_inv [of pid env "governed b" b ts] by (simp add: cp_inv_def)

lemma static_inv:
  assumes "cp_inv pid b ts" "static_ok r"
  shows "cp_inv pid (b\<lparr>cb_static := r\<rparr>) ts"
proof -
  have "owner_ok (b\<lparr>cb_static := r\<rparr>) = owner_ok b" "ticket_ok (b\<lparr>cb_static := r\<rparr>) = ticket_ok b"
    "tokens_ok (b\<lparr>cb_static := r\<rparr>) = tokens_ok b" "mirrors_ok (b\<lparr>cb_static := r\<rparr>) = mirrors_ok b"
    by (simp_all add: owner_ok_def [abs_def] ticket_ok_def [abs_def] tokens_ok_def owner_tokens_def free_list_def mirrors_ok_def)
  then show ?thesis using assms by (simp add: cp_inv_def budget_ok_def history_ok_def)
qed

lemma static_charge_inv:
  assumes inv: "cp_inv pid b ts"
  shows "cp_inv pid (snd (publish_static_charge env pid kind amount b)) ts"
proof (cases "kind = [] \<or> amount < 0")
  case True
  then show ?thesis using inv by (simp add: publish_static_charge_def)
next
  case False
  have so: "static_ok (cb_static b)" using inv by (simp add: cp_inv_def budget_ok_def)
  obtain x r where p: "publish_static kind amount (cb_static b) = (x, r)" by fastforce
  have i: "cp_inv pid (b\<lparr>cb_static := r\<rparr>) ts" using static_inv [OF inv] publish_static_ok(1) [OF so _ _ p] False by simp
  obtain y c where e: "ensure_native_shadow env pid (b\<lparr>cb_static := r\<rparr>) = (y, c)" by fastforce
  have ic: "cp_inv pid c ts" using ensure_shadow_inv [OF i, of env] e by simp
  then have "static_ok (undo_static kind amount (cb_static c))" by (simp add: cp_inv_def budget_ok_def undo_static_ok(1))
  then have "cp_inv pid (c\<lparr>cb_static := undo_static kind amount (cb_static c)\<rparr>) ts" by (rule static_inv [OF ic])
  from ensure_shadow_inv [OF this, of env] i ic False p e show ?thesis
    by (cases x; cases y) (auto simp: publish_static_charge_def split: bool.split)
qed

section \<open>Histories\<close>

text \<open>
  The states of the budget of one process and the tickets it issued, newest first.
  The native ledger answers every operation as it likes, within \<open>ok\<close>.
\<close>

inductive cp_reach :: "(cp_env \<Rightarrow> bool) \<Rightarrow> int \<Rightarrow> control_budget \<Rightarrow> ticket list \<Rightarrow> bool" for ok pid where
  start: "static_ok r \<Longrightarrow> cp_reach ok pid (init_budget pid r) []"
| reserved: "cp_reach ok pid b ts \<Longrightarrow> ok env \<Longrightarrow> reserve env pid None kind amount b = (Inr t, b') \<Longrightarrow> cp_reach ok pid b' (t # ts)"
| refused: "cp_reach ok pid b ts \<Longrightarrow> ok env \<Longrightarrow> reserve env pid None kind amount b = (Inl e, b') \<Longrightarrow> cp_reach ok pid b' ts"
| released: "cp_reach ok pid b ts \<Longrightarrow> ok env \<Longrightarrow> t \<in> set ts \<Longrightarrow> cp_reach ok pid (snd (release env pid None (Some t) b)) ts"
| requested: "cp_reach ok pid b ts \<Longrightarrow> t \<in> set ts \<Longrightarrow> cp_reach ok pid (snd (request_retirement pid (Some t) b)) ts"
| collected: "cp_reach ok pid b ts \<Longrightarrow> t \<in> set ts \<Longrightarrow> cp_reach ok pid (collect_ticket pid t b) ts"
| drained: "cp_reach ok pid b ts \<Longrightarrow> ok env \<Longrightarrow> cp_reach ok pid (snd (drain_requested_retirements env pid n b)) ts"
| configured: "cp_reach ok pid b ts \<Longrightarrow> cp_reach ok pid (snd (configure pid n b)) ts"
| synchronized: "cp_reach ok pid b ts \<Longrightarrow> ok env \<Longrightarrow> cp_reach ok pid (snd (ensure_native_shadow env pid b)) ts"
| registered: "cp_reach ok pid b ts \<Longrightarrow> ok env \<Longrightarrow> cp_reach ok pid (snd (publish_static_charge env pid kind amount b)) ts"

lemma init_inv: "static_ok r \<Longrightarrow> cp_inv pid (init_budget pid r) []"
  by (simp add: cp_inv_def budget_ok_def history_ok_def init_budget_def tokens_ok_def owner_tokens_def free_list_def ring_def
      mirrors_ok_def max_tickets_pos)

lemma reach_inv: "cp_reach ok pid b ts \<Longrightarrow> cp_inv pid b ts"
proof (induction rule: cp_reach.induct)
  case (start r)
  then show ?case by (rule init_inv)
next
  case (reserved b ts env kind amount t b')
  then show ?case using reserve_inv [of pid b ts env kind amount "Inr t" b'] by simp
next
  case (refused b ts env kind amount e b')
  then show ?case using reserve_inv [of pid b ts env kind amount "Inl e" b'] by simp
next
  case (released b ts env t)
  obtain b' where "release env pid None (Some t) b = (Inr True, b')" "cp_inv pid b' ts"
    by (rule release_inv [OF released.IH released.hyps(3)])
  then show ?case by simp
qed (simp_all add: request_retirement_inv collect_ticket_inv drain_inv configure_inv ensure_shadow_inv static_charge_inv)

lemma live_owner:
  assumes inv: "cp_inv pid b ts" and t: "t \<in> set ts"
  shows "live b t \<longleftrightarrow> tk_capability t \<in> (\<lambda>x. oe_capability (snd x)) ` set (cb_owners b)"
proof
  assume "live b t"
  from ticket_owner(2) [OF inv t this] show "tk_capability t \<in> (\<lambda>x. oe_capability (snd x)) ` set (cb_owners b)"
    by (rule rev_image_eqI) simp
next
  assume "tk_capability t \<in> (\<lambda>x. oe_capability (snd x)) ` set (cb_owners b)"
  then obtain x where x: "x \<in> set (cb_owners b)" "tk_capability t = oe_capability (snd x)" by blast
  have "owner_ok b x" using inv x(1) by (simp add: cp_inv_def budget_ok_def list_all_iff)
  then show "live b t" using x(2) by (simp add: live_def owner_ok_def Let_def)
qed

definition owner_of :: "ticket \<Rightarrow> int \<times> owner_entry" where
  "owner_of t = (tk_token t, \<lparr>oe_capability = tk_capability t, oe_amount = tk_amount t\<rparr>)"

lemma owners_are_live:
  assumes inv: "cp_inv pid b ts"
  shows "set (cb_owners b) = owner_of ` set (filter (live b) ts)" "inj_on owner_of (set (filter (live b) ts))"
    "distinct (cb_owners b)" "distinct (filter (live b) ts)"
proof -
  have "x \<in> owner_of ` set (filter (live b) ts)" if x: "x \<in> set (cb_owners b)" for x
  proof -
    obtain t where "t \<in> set ts" "live b t" "tk_capability t = oe_capability (snd x)" "tk_token t = fst x" "tk_amount t = oe_amount (snd x)"
      by (rule owner_ticket [OF inv x])
    moreover from this have "x = owner_of t" by (cases x) (simp add: owner_of_def)
    ultimately show ?thesis by auto
  qed
  moreover have "owner_of t \<in> set (cb_owners b)" if "t \<in> set ts" "live b t" for t
    unfolding owner_of_def by (rule ticket_owner(2) [OF inv that])
  ultimately show "set (cb_owners b) = owner_of ` set (filter (live b) ts)" by auto
  have d: "distinct (map tk_capability ts)" using inv by (simp add: cp_inv_def history_ok_def)
  then show "inj_on owner_of (set (filter (live b) ts))"
    by (auto simp: inj_on_def owner_of_def distinct_map)
  show "distinct (filter (live b) ts)" using d by (simp add: distinct_map)
  have "distinct (map fst (cb_owners b))" using inv by (simp add: cp_inv_def budget_ok_def tokens_ok_def owner_tokens_def)
  then show "distinct (cb_owners b)" by (simp add: distinct_map)
qed

lemma live_sums:
  assumes inv: "cp_inv pid b ts"
  shows "cb_reserved b = sum_list (map tk_amount (filter (live b) ts))" "cb_active b = int (length (filter (live b) ts))"
    "distinct (map tk_token (filter (live b) ts))"
proof -
  note o = owners_are_live [OF inv]
  have m: "cb_reserved b = sum_list (map (\<lambda>x. oe_amount (snd x)) (cb_owners b))" "cb_active b = int (length (cb_owners b))"
    using inv by (simp_all add: cp_inv_def budget_ok_def mirrors_ok_def)
  have "sum_list (map (\<lambda>x. oe_amount (snd x)) (cb_owners b)) = (\<Sum>x\<in>set (cb_owners b). oe_amount (snd x))"
    by (rule sum_list_distinct_conv_sum_set [OF o(3)])
  also have "\<dots> = (\<Sum>t\<in>set (filter (live b) ts). tk_amount t)"
    unfolding o(1) by (subst sum.reindex [OF o(2)]) (simp add: owner_of_def comp_def)
  also have "\<dots> = sum_list (map tk_amount (filter (live b) ts))" by (rule sum_list_distinct_conv_sum_set [OF o(4), symmetric])
  finally show "cb_reserved b = sum_list (map tk_amount (filter (live b) ts))" using m(1) by simp
  show "cb_active b = int (length (filter (live b) ts))"
    unfolding m(2) using distinct_card [OF o(3)] distinct_card [OF o(4)] card_image [OF o(2)] o(1) by simp
  have d: "distinct (map fst (cb_owners b))" using inv by (simp add: cp_inv_def budget_ok_def tokens_ok_def owner_tokens_def)
  have "inj_on tk_token (set (filter (live b) ts))"
  proof (rule inj_onI)
    fix t u assume t: "t \<in> set (filter (live b) ts)" and u: "u \<in> set (filter (live b) ts)" and e: "tk_token t = tk_token u"
    have "owner_of t \<in> set (cb_owners b)" "owner_of u \<in> set (cb_owners b)" using t u o(1) by auto
    moreover have "fst (owner_of t) = fst (owner_of u)" using e by (simp add: owner_of_def)
    ultimately have "owner_of t = owner_of u" using d by (auto simp: distinct_map inj_on_def)
    then show "t = u" using o(2) t u by (auto dest: inj_onD)
  qed
  then show "distinct (map tk_token (filter (live b) ts))" using o(4) by (simp add: distinct_map)
qed

lemma live_after_release:
  assumes inv: "cp_inv pid b ts" and t: "t \<in> set ts" and r: "release env pid None (Some t) b = (x, b')"
  shows "x = Inr True" "filter (live b') ts = filter (\<lambda>u. live b u \<and> u \<noteq> t) ts"
proof -
  obtain c where c: "release env pid None (Some t) b = (Inr True, c)" "cp_inv pid c ts" "live b t \<longrightarrow> released_ticket t b c"
    "\<not> live b t \<longrightarrow> c = mark_capability_released (tk_capability t) b"
    by (rule release_inv [OF inv t])
  show "x = Inr True" using r c(1) by simp
  have bc: "b' = c" using r c(1) by simp
  have caps: "cb_caps c = (cb_caps b)(tk_capability t := (cb_caps b (tk_capability t))\<lparr>ca_released := True, ca_retire_requested := False\<rparr>)"
    using c(3,4) by (cases "live b t") (simp_all add: released_ticket_def)
  have "live c u \<longleftrightarrow> live b u \<and> u \<noteq> t" if u: "u \<in> set ts" for u
  proof -
    have "u \<noteq> t \<Longrightarrow> tk_capability u \<noteq> tk_capability t"
      using inv t u by (auto simp: cp_inv_def history_ok_def distinct_map dest: inj_onD)
    then show ?thesis by (cases "u = t") (simp_all add: live_def caps)
  qed
  then show "filter (live b') ts = filter (\<lambda>u. live b u \<and> u \<noteq> t) ts" unfolding bc by (intro filter_cong) auto
qed

lemma live_after_reserve:
  assumes inv: "cp_inv pid b ts" and r: "reserve env pid None kind amount b = (Inr t, b')"
  shows "filter (live b') (t # ts) = t # filter (live b) ts"
proof -
  have i: "cp_inv pid b' (t # ts)" and o: "cb_owners b' = cb_owners b @ [(tk_token t, \<lparr>oe_capability = tk_capability t, oe_amount = amount\<rparr>)]"
    using reserve_inv [OF inv r] by simp_all
  have "tk_capability t \<notin> tk_capability ` set ts" using i by (simp add: cp_inv_def history_ok_def)
  then have "tk_capability u \<noteq> tk_capability t" if "u \<in> set ts" for u using that by (metis imageI)
  then have "live b' u \<longleftrightarrow> live b u" if "u \<in> set ts" for u
    using that live_owner [OF i, of u] live_owner [OF inv that] by (simp add: o)
  moreover have "live b' t" using live_owner [OF i, of t] by (simp add: o)
  ultimately show ?thesis by (simp cong: filter_cong)
qed

text \<open>
  C6: control-plane tickets are exact.  After any history of uninterrupted
  admissions, refusals, releases, retirements, collected wrappers, drains, reconfigurations and static
  registrations, whatever the native ledger answers, the snapshot accounts for
  exactly the live tickets, whose tokens differ; releasing any issued ticket, live
  or stale, succeeds and takes out that ticket only; and a new admission adds one
  live ticket and leaves the governed bytes within the capacity.
\<close>

theorem control_tickets_are_exact:
  assumes "cp_reach ok pid b ts"
  shows "let s = fst (budget_snapshot_of pid b); live_now = filter (live b) ts in
     bs_reserved_bytes s = sum_list (map tk_amount live_now) \<and> bs_active_tickets s = int (length live_now)
     \<and> \<not> bs_reconciliation_pending s \<and> distinct (map tk_token live_now)
     \<and> (t \<in> set ts \<longrightarrow> (case release env pid None (Some t) b of (r, b') \<Rightarrow>
          r = Inr True \<and> filter (live b') ts = filter (\<lambda>u. live b u \<and> u \<noteq> t) ts))
     \<and> (case reserve env pid None kind amount b of
          (Inl e, b') \<Rightarrow> bs_reserved_bytes (fst (budget_snapshot_of pid b')) = bs_reserved_bytes s
        | (Inr u, b') \<Rightarrow> filter (live b') (u # ts) = u # live_now \<and> tk_amount u = amount
            \<and> governed_bytes (fst (budget_snapshot_of pid b')) \<le> cb_capacity b')"
proof -
  note inv = reach_inv [OF assms]
  obtain r b' where rel: "release env pid None (Some t) b = (r, b')" by fastforce
  obtain x c where res: "reserve env pid None kind amount b = (x, c)" by fastforce
  note ri = reserve_inv [OF inv res]
  have "case x of Inl e \<Rightarrow> bs_reserved_bytes (fst (budget_snapshot_of pid c)) = cb_reserved b
      | Inr u \<Rightarrow> filter (live c) (u # ts) = u # filter (live b) ts \<and> tk_amount u = amount
          \<and> governed_bytes (fst (budget_snapshot_of pid c)) \<le> cb_capacity c"
  proof (cases x)
    case (Inl e)
    have i: "cp_inv pid c ts" and o: "cb_owners c = cb_owners b" using ri Inl by simp_all
    have "cb_reserved c = cb_reserved b" using i inv o by (simp add: cp_inv_def budget_ok_def mirrors_ok_def)
    then show ?thesis using Inl snapshot_inv(3) [OF i] by simp
  next
    case (Inr u)
    then show ?thesis using ri live_after_reserve [OF inv res [unfolded Inr]] snapshot_inv(5) [of pid c "u # ts"] by simp
  qed
  then show ?thesis
    using live_sums [OF inv] snapshot_inv [OF inv] live_after_release [OF inv _ rel] rel res
    by (cases x) (simp_all add: Let_def)
qed


definition calm_env :: cp_env where
  "calm_env = \<lparr>native_answer = (\<lambda>_. Answers), trim_answer = (\<lambda>_. Answers), pool_accepts = (\<lambda>_. True),
     resident_stats = (\<lambda>_. Some (0, 1000000))\<rparr>"

lemma empty_registry_ok: "static_ok empty_registry"
  by (simp add: static_ok_def empty_registry_def authoritative_total_def)

definition one_ticket :: control_budget where
  "one_ticket = snd (reserve calm_env 7 None ''waiter'' 300 (init_budget 7 empty_registry))"

lemma one_ticket_reserved:
  "reserve calm_env 7 None ''waiter'' 300 (init_budget 7 empty_registry) = (Inr (new_ticket 7 ''waiter'' 300 1 0), one_ticket)"
proof -
  have "fst (reserve calm_env 7 None ''waiter'' 300 (init_budget 7 empty_registry)) = Inr (new_ticket 7 ''waiter'' 300 1 0)"
    by code_simp
  then show ?thesis by (simp add: one_ticket_def prod_eq_iff)
qed

lemma one_ticket_reach: "cp_reach (\<lambda>env. True) 7 one_ticket [new_ticket 7 ''waiter'' 300 1 0]"
  by (rule cp_reach.reserved [OF cp_reach.start [OF empty_registry_ok] TrueI one_ticket_reserved])

theorem control_tickets_are_exact_witness:
  "bs_reserved_bytes (fst (budget_snapshot_of 7 one_ticket)) = 300 \<and> bs_active_tickets (fst (budget_snapshot_of 7 one_ticket)) = 1"
proof -
  have "live one_ticket (new_ticket 7 ''waiter'' 300 1 0)" by code_simp
  then show ?thesis
    using control_tickets_are_exact [OF one_ticket_reach] by (simp add: Let_def new_ticket_def)
qed

section \<open>The native shadow covers the governed bytes\<close>

definition trims_known :: "cp_env \<Rightarrow> bool" where
  "trims_known env \<longleftrightarrow> (\<forall>n. trim_answer env n \<noteq> Answer_Lost)"

abbreviation native_bytes :: "control_budget \<Rightarrow> int" where
  "native_bytes b \<equiv> nl_bytes (cb_native b)"

definition shadow_ok :: "control_budget \<Rightarrow> bool" where
  "shadow_ok b \<longleftrightarrow>
     0 \<le> native_bytes b \<and> \<not> nl_corrupted (cb_native b)
     \<and> (cb_shadow_ready b \<and> \<not> cb_shadow_dirty b \<longrightarrow> 0 \<le> cb_shadow_bytes b \<and> cb_shadow_bytes b \<le> native_bytes b)
     \<and> (cb_owners b \<noteq> [] \<longrightarrow> cb_shadow_ready b)"

definition covered :: "control_budget \<Rightarrow> bool" where
  "covered b \<longleftrightarrow> shadow_ok b \<and> (cb_owners b \<noteq> [] \<longrightarrow> governed b \<le> native_bytes b)"

lemma prewarm_shadow:
  assumes "shadow_ok b" "prewarm_native_shadow env b = (x, b')"
  shows "shadow_ok b'" "cb_shadow_ready b \<Longrightarrow> b' = b" "x = Inr u \<Longrightarrow> cb_shadow_ready b'"
  using assms by (auto simp: prewarm_native_shadow_def shadow_ok_def fresh_ledger_def split: if_splits native_answer.splits)

lemma refresh_shadow_ok:
  assumes "shadow_ok b" "refresh_shadow env b = (x, b')"
  shows "shadow_ok b'" "cb_native b' = cb_native b" "cb_shadow_ready b' = cb_shadow_ready b" "x = Inr u \<Longrightarrow> \<not> cb_shadow_dirty b'"
  using assms by (auto simp: refresh_shadow_def shadow_ok_def Let_def split: if_splits)

lemma move_shadow_ok:
  assumes "shadow_ok b" "cb_shadow_ready b" "\<not> cb_shadow_dirty b" "0 \<le> target" "trims_known env" "move_shadow env target b = (x, b')"
  shows "shadow_ok b' \<and> cb_shadow_ready b' \<and> \<not> cb_shadow_dirty b'
    \<and> (case x of Inl e \<Rightarrow> native_bytes b \<le> native_bytes b' | Inr u \<Rightarrow> target \<le> native_bytes b')"
proof -
  have m: "0 \<le> cb_shadow_bytes b" "cb_shadow_bytes b \<le> native_bytes b" using assms(1-3) by (simp_all add: shadow_ok_def)
  consider (up) "cb_shadow_bytes b < target" | (down) "target < cb_shadow_bytes b" | (same) "target = cb_shadow_bytes b" by linarith
  then show ?thesis
  proof cases
    case up
    then show ?thesis
      using assms m by (auto simp: move_shadow_def call_reserve_def Let_def shadow_ok_def native_reserve_def split: if_splits)
  next
    case down
    have "trim_answer env (cb_tick b) = Refuses \<or> trim_answer env (cb_tick b) = Answers"
      using assms(5) by (cases "trim_answer env (cb_tick b)") (auto simp: trims_known_def)
    then show ?thesis
      using assms m down by (auto simp: move_shadow_def call_release_def Let_def shadow_ok_def native_release_def split: if_splits)
  next
    case same
    then show ?thesis using assms m by (auto simp: move_shadow_def)
  qed
qed

lemma sync_shadow_ok:
  assumes "shadow_ok b" "0 \<le> target" "trims_known env" "sync_native_shadow env target b = (x, b')"
  shows "shadow_ok b'" "x = Inr u \<Longrightarrow> cb_shadow_ready b' \<and> target \<le> native_bytes b'"
    "x = Inl e \<Longrightarrow> cb_shadow_ready b \<Longrightarrow> native_bytes b \<le> native_bytes b'"
proof -
  obtain y c where p: "prewarm_native_shadow env b = (y, c)" by fastforce
  note pw = prewarm_shadow [OF assms(1) p]
  obtain z d where r: "refresh_shadow env c = (z, d)" by fastforce
  note rf = refresh_shadow_ok [OF pw(1) r]
  have "shadow_ok b' \<and> (\<forall>u. x = Inr u \<longrightarrow> cb_shadow_ready b' \<and> target \<le> native_bytes b')
    \<and> (\<forall>e. x = Inl e \<longrightarrow> cb_shadow_ready b \<longrightarrow> native_bytes b \<le> native_bytes b')"
  proof (cases y)
    case (Inl e)
    then show ?thesis using assms(4) p pw by (auto simp: sync_native_shadow_def)
  next
    case yr: (Inr v)
    show ?thesis
    proof (cases z)
      case (Inl e)
      then show ?thesis using assms(4) p r yr pw rf(1,2) by (auto simp: sync_native_shadow_def)
    next
      case (Inr w)
      have "move_shadow env target d = (x, b')" using assms(4) p r yr Inr by (simp add: sync_native_shadow_def)
      from move_shadow_ok [OF rf(1) _ rf(4) [OF Inr] assms(2,3) this] rf(3) pw(3) [OF yr]
      have "shadow_ok b' \<and> cb_shadow_ready b' \<and> (case x of Inl e \<Rightarrow> native_bytes d \<le> native_bytes b' | Inr u \<Rightarrow> target \<le> native_bytes b')"
        by simp
      then show ?thesis using pw(2) rf(2) by auto
    qed
  qed
  then show "shadow_ok b'" "x = Inr u \<Longrightarrow> cb_shadow_ready b' \<and> target \<le> native_bytes b'"
    "x = Inl e \<Longrightarrow> cb_shadow_ready b \<Longrightarrow> native_bytes b \<le> native_bytes b'" by blast+
qed

lemma governed_view: "ledger_view a = ledger_view b \<Longrightarrow> governed a = governed b"
  by (simp add: governed_def view_fields(11,16) [of a b])

lemma owner_amounts: "budget_ok pid b \<Longrightarrow> x \<in> set (cb_owners b) \<Longrightarrow> MIN_TICKET_BYTES \<le> oe_amount (snd x)"
  by (simp add: budget_ok_def list_all_iff owner_ok_def Let_def)

lemma governed_nonneg:
  assumes "budget_ok pid b"
  shows "0 \<le> governed b" "(t, e) \<in> set (cb_owners b) \<Longrightarrow> oe_amount e \<le> governed b"
proof -
  have so: "static_ok (cb_static b)" using assms by (simp add: budget_ok_def)
  have s: "0 \<le> ledger_total (static_map (cb_static b))" by (rule ledger_total_nonneg) (rule amount_nonneg [OF so])
  have "0 \<le> sum_list (map (\<lambda>x. oe_amount (snd x)) (cb_owners b))"
    by (rule sum_list_nonneg) (use owner_amounts [OF assms] in \<open>fastforce simp: MIN_TICKET_BYTES_def\<close>)
  then have "0 \<le> cb_reserved b" using assms by (simp add: budget_ok_def mirrors_ok_def)
  then show "0 \<le> governed b" "(t, e) \<in> set (cb_owners b) \<Longrightarrow> oe_amount e \<le> governed b"
    using s governed_ok [OF assms] owners_cover(1) [OF assms, of t e] by simp_all
qed

text \<open>Synchronizing to the governed bytes covers them, or leaves the cover as it was.\<close>

lemma sync_covered:
  assumes "budget_ok pid b" "covered b" "trims_known env" "sync_native_shadow env (governed b + n) b = (x, b')" "0 \<le> n"
  shows "covered b'" "x = Inr u \<Longrightarrow> cb_shadow_ready b' \<and> governed b + n \<le> native_bytes b'"
proof -
  have v: "ledger_view b' = ledger_view b" using sync_view [of env "governed b + n" b] assms(4) by simp
  have g: "governed b' = governed b" "cb_owners b' = cb_owners b" using governed_view [OF v] view_fields(11) [OF v] by simp_all
  have sh: "shadow_ok b" using assms(2) by (simp add: covered_def)
  have "0 \<le> governed b + n" using governed_nonneg(1) [OF assms(1)] assms(5) by simp
  note sy = sync_shadow_ok [OF sh this assms(3,4)]
  show "x = Inr u \<Longrightarrow> cb_shadow_ready b' \<and> governed b + n \<le> native_bytes b'" by (rule sy(2))
  show "covered b'"
  proof (cases x)
    case (Inl e)
    then show ?thesis using sy(1) sy(3) [OF Inl] assms(2) g by (auto simp: covered_def shadow_ok_def)
  next
    case (Inr u)
    then show ?thesis using sy(1) sy(2) [OF Inr] assms(5) g by (auto simp: covered_def)
  qed
qed

lemma covered_counters [simp]:
  "covered (b\<lparr>cb_rejected := n\<rparr>) = covered b" "covered (b\<lparr>cb_capacity := n\<rparr>) = covered b" "covered (b\<lparr>cb_tick := k\<rparr>) = covered b"
  "covered (update_cap c f b) = covered b" "covered (new_capability pid b) = covered b" "covered (mark_capability_released c b) = covered b"
  by (simp_all add: covered_def shadow_ok_def governed_def update_cap_def new_capability_def mark_capability_released_def)


lemma admit_covered:
  assumes inv: "cp_inv pid b ts" and f: "fresh_cap pid cap ts b" and amount: "MIN_TICKET_BYTES \<le> amount"
    and room: "length (cb_owners b) < MAX_ACTIVE_TICKETS" and cov: "covered b" and env: "trims_known env"
    and a: "admit_ticket env None cur (governed b + amount) amount cap b = (r, b')"
  shows "covered b'"
proof -
  define reuse where "reuse \<longleftrightarrow> cb_free_count b > 0"
  define token where "token = (if reuse then cb_free_tokens b (cb_free_head b) else cb_sequence b + 1)"
  let ?e = "\<lparr>oe_capability = cap, oe_amount = amount\<rparr>"
  let ?b1 = "update_cap cap (\<lambda>c. c\<lparr>ca_token := token\<rparr>) b"
  have ok: "tokens_ok b" using inv by (simp add: cp_inv_def budget_ok_def)
  have u: "unknown_cap cap b ts" using f by (simp add: fresh_cap_def)
  have ok1: "budget_ok pid ?b1" using update_cap_unknown [OF inv u] by (simp add: cp_inv_def)
  have g1: "governed ?b1 = governed b" by (simp add: governed_def)
  obtain x b2 where s: "sync_native_shadow env (governed b + amount) ?b1 = (x, b2)" by fastforce
  have v: "ledger_view b2 = ledger_view ?b1" using sync_view [of env "governed b + amount" ?b1] s by simp
  note vf = view_fields [OF v, simplified]
  have cov1: "covered ?b1" using cov by simp
  have nn: "0 \<le> amount" using amount by (simp add: MIN_TICKET_BYTES_def)
  note sc = sync_covered [OF ok1 cov1 env _ nn, unfolded g1, OF s]
  have tn: "map_of (cb_owners b2) token = None"
    using tokens_admit(1) [OF ok room reuse_def token_def] vf(11) by (simp add: map_of_eq_None_iff owner_tokens_def)
  show ?thesis
  proof (cases x)
    case (Inl e)
    then have "b' = update_cap cap (\<lambda>c. c\<lparr>ca_token := 0\<rparr>) b2"
      using a s tn by (simp add: admit_ticket_def Let_def reuse_def token_def admission_failed_def undo_admission_def)
    then show ?thesis using sc(1) by simp
  next
    case (Inr w)
    let ?h = "if reuse then token_ring_next (cb_free_head b) else cb_free_head b" and ?n = "if reuse then cb_free_count b - 1 else cb_free_count b"
    have st: "snd (apply_all (admission_steps reuse token ?h ?n ?e) ((False, False), b2)) = admitted reuse token ?e b2"
      by (rule admission_steps_all [OF tn]) (simp_all add: vf)
    have "b' = set_mirrors (cb_reserved b + amount) (max (cb_peak b) (cb_reserved b + amount)) (cb_active b + 1) (admitted reuse token ?e b2)"
      using a s Inr st by (simp add: admit_ticket_def Let_def reuse_def [symmetric] token_def [symmetric])
    moreover have "governed b2 = governed b" using governed_view [OF v] g1 by simp
    ultimately show ?thesis
      using sc(1) sc(2) [OF Inr] by (simp add: covered_def shadow_ok_def governed_def set_mirrors_def admitted_def)
  qed
qed

lemma reserve_covered:
  assumes inv: "cp_inv pid b ts" and cov: "covered b" and env: "trims_known env"
  shows "covered (snd (reserve env pid None kind amount b))"
proof (cases "amount < MIN_TICKET_BYTES")
  case True
  then show ?thesis using cov by (simp add: reserve_def)
next
  case False
  obtain x0 b0 where p: "prewarm_native_shadow env b = (x0, b0)" by fastforce
  have v0: "ledger_view b0 = ledger_view b" using prewarm_view [of env b] p by simp
  have inv0: "cp_inv pid b0 ts" using inv cp_inv_view [OF v0] by blast
  have cov0: "covered b0"
    using prewarm_shadow [OF _ p] cov governed_view [OF v0] view_fields(11) [OF v0] by (auto simp: covered_def shadow_ok_def)
  define c where "c = new_capability pid b0"
  note nc = new_capability_inv [OF inv0, folded c_def]
  have ok: "budget_ok pid c" using nc(1) by (simp add: cp_inv_def)
  have covc: "covered c" using cov0 by (simp add: c_def)
  have g: "ledger_total (static_map (cb_static c)) + cb_reserved c = governed c" using governed_ok [OF ok] by simp
  obtain x d where s: "sync_native_shadow env (governed c) c = (x, d)" by fastforce
  have vd: "ledger_view d = ledger_view c" using sync_view [of env "governed c" c] s by simp
  have covd: "covered d" using sync_covered(1) [OF ok covc env, of 0] s by simp
  have invd: "cp_inv pid d ts" using nc(1) cp_inv_view [OF vd] by blast
  have fd: "fresh_cap pid (cb_next_cap b0) ts d" by (rule fresh_cap_view [OF vd nc(2)])
  have gd: "governed d = governed c" by (rule governed_view [OF vd])
  have cor: "\<not> cb_corrupted c" using ok by (simp add: budget_ok_def mirrors_ok_def)
  let ?base = "ledger_total (static_map (cb_static c))"
  have base: "?base + (cb_reserved d + amount) = governed d + amount" using g gd view_fields(3) [OF vd] by simp
  obtain y k where e: "exhausted_limit env amount (governed d + amount) d = (y, k)" by fastforce
  obtain n where n: "k = d\<lparr>cb_tick := n\<rparr>" using exhausted_limit_state [OF e] by blast
  have covk: "covered k" using covd n by simp
  have gk: "governed k = governed d" using n by (simp add: governed_def)
  have adm: "covered (snd (admit_ticket env None (?base + cb_reserved d) (governed d + amount) amount (cb_next_cap b0) k))" if "y = Inr None"
  proof -
    have "cb_active d + 1 \<le> int MAX_ACTIVE_TICKETS" using exhausted_limit_None(3) e that by blast
    then have "length (cb_owners k) < MAX_ACTIVE_TICKETS" using invd n by (simp add: cp_inv_def budget_ok_def mirrors_ok_def)
    moreover have "cp_inv pid k ts" "fresh_cap pid (cb_next_cap b0) ts k" using invd fd n by (simp_all add: fresh_cap_def unknown_cap_def)
    moreover obtain r b' where "admit_ticket env None (?base + cb_reserved d) (governed k + amount) amount (cb_next_cap b0) k = (r, b')" by fastforce
    ultimately show ?thesis using admit_covered [of pid k ts "cb_next_cap b0" amount env "?base + cb_reserved d" r b'] covk env False gk by simp
  qed
  have "covered (snd (check_and_admit env None ?base amount (cb_next_cap b0) d))"
    using e adm covk by (auto simp: check_and_admit_def base split: sum.split option.split)
  then have "covered (snd (reserve_locked env pid None amount (cb_next_cap b0) c))"
    using cor s covd by (simp add: reserve_locked_def same_process_ok [OF ok] reconcile_ok [OF ok] baseline_ok [OF ok] g split: sum.split)
  then show ?thesis using p False cov0 by (auto simp: reserve_def c_def split: sum.split prod.split)
qed

lemma sum_without_token:
  "distinct (map fst xs) \<Longrightarrow> (t, e) \<in> set xs \<Longrightarrow>
     sum_list (map f (filter (\<lambda>x. fst x \<noteq> t) xs)) = sum_list (map f xs) - (f (t, e) :: int)"
proof (induction xs)
  case (Cons x xs)
  have "filter (\<lambda>y. fst y \<noteq> t) xs = xs" if "t \<notin> fst ` set xs" using that by (force simp: filter_id_conv)
  moreover have "t \<in> fst ` set xs" if "(t, e) \<in> set xs" using that by (rule rev_image_eqI) simp
  ultimately show ?case using Cons by (cases x) (auto split: if_splits)
qed simp

lemma release_native_covered:
  assumes "shadow_ok b" "cb_shadow_ready b" "0 < amount" "0 \<le> g" "g + amount \<le> native_bytes b"
  shows "shadow_ok (release_native_shadow env amount b)" "g \<le> native_bytes (release_native_shadow env amount b)"
    "cb_shadow_ready (release_native_shadow env amount b)"
  using assms
  by (auto simp: release_native_shadow_def call_release_def Let_def native_release_def shadow_ok_def split: if_splits)

lemma release_capability_covered:
  assumes inv: "cp_inv pid b ts" and t: "t \<in> set ts" "live b t" and cov: "covered b"
  obtains b' where "release_capability env pid None (tk_capability t) (tk_token t) b = (Inr True, b')"
    "cp_inv pid b' ts" "covered b'"
proof -
  let ?b1 = "b\<lparr>cb_owners := filter (\<lambda>x. fst x \<noteq> tk_token t) (cb_owners b)\<rparr>"
  let ?n = "release_native_shadow env (tk_amount t) ?b1"
  obtain b' where r: "release_capability env pid None (tk_capability t) (tk_token t) b = (Inr True, b')"
    and i: "cp_inv pid b' ts" and rt: "released_ticket t b b'"
    and sh: "let n = ?n in cb_native b' = cb_native n \<and> cb_shadow_ready b' = cb_shadow_ready n \<and> cb_shadow_dirty b' = cb_shadow_dirty n
     \<and> cb_shadow_bytes b' = cb_shadow_bytes n"
    by (rule release_capability_live [OF inv t])
  have ok: "budget_ok pid b" "budget_ok pid b'" using inv i by (simp_all add: cp_inv_def)
  note owner = ticket_owner(2) [OF inv t]
  have d: "distinct (map fst (cb_owners b))" using ok(1) by (simp add: budget_ok_def tokens_ok_def owner_tokens_def)
  have g: "governed b' = governed b - tk_amount t"
    using sum_without_token [OF d owner, of "\<lambda>x. oe_amount (snd x)"] rt by (simp add: governed_def released_ticket_def)
  have am: "0 < tk_amount t" using owner_amounts [OF ok(1) owner] by (simp add: MIN_TICKET_BYTES_def)
  have ne: "cb_owners b \<noteq> []" using owner by auto
  have so: "shadow_ok ?b1" "cb_shadow_ready ?b1" "governed b' + tk_amount t \<le> native_bytes ?b1"
    using cov ne g by (auto simp: covered_def shadow_ok_def)
  note rn = release_native_covered [OF so(1,2) am governed_nonneg(1) [OF ok(2)] so(3), of env]
  have "covered b'" using rn sh by (auto simp: covered_def shadow_ok_def Let_def)
  then show thesis using r i by (intro that)
qed

lemma release_covered:
  assumes inv: "cp_inv pid b ts" and t: "t \<in> set ts" and cov: "covered b"
  shows "covered (snd (release env pid None (Some t) b))"
proof -
  have p: "tk_pid t = pid" using inv t by (auto simp: cp_inv_def budget_ok_def history_ok_def list_all_iff ticket_ok_def Let_def)
  show ?thesis
  proof (cases "live b t")
    case True
    obtain b' where "release_capability env pid None (tk_capability t) (tk_token t) b = (Inr True, b')" "covered b'"
      by (rule release_capability_covered [OF inv t True cov])
    then show ?thesis using p by (simp add: release_def)
  next
    case False
    then show ?thesis using p cov by (simp add: release_def release_capability_def live_def)
  qed
qed

lemma drain_covered: "cp_inv pid b ts \<Longrightarrow> covered b \<Longrightarrow> covered (snd (drain_requested_retirements env pid n b))"
proof (induction n arbitrary: b)
  case (Suc n)
  have ok: "budget_ok pid b" using Suc.prems(1) by (simp add: cp_inv_def)
  let ?f = "filter (\<lambda>x. ca_retire_requested (cb_caps b (oe_capability (snd x)))) (cb_owners b)"
  show ?case
  proof (cases ?f)
    case Nil
    then show ?thesis using Suc.prems(2) same_process_ok [OF ok] reconcile_ok [OF ok] by simp
  next
    case (Cons x xs)
    then have "x \<in> set (cb_owners b)" by (metis filter_is_subset list.set_intros(1) subsetD)
    then obtain t where t: "t \<in> set ts" "live b t" "tk_capability t = oe_capability (snd x)" "tk_token t = fst x"
      by (rule owner_ticket [OF Suc.prems(1)])
    obtain b1 where "release_capability env pid None (tk_capability t) (tk_token t) b = (Inr True, b1)" "cp_inv pid b1 ts" "covered b1"
      by (rule release_capability_covered [OF Suc.prems(1) t(1,2) Suc.prems(2)])
    then show ?thesis
      using Suc.IH [of b1] Cons t(3,4) same_process_ok [OF ok] reconcile_ok [OF ok] by (cases x) simp
  qed
qed simp

lemma ensure_covered:
  assumes "cp_inv pid b ts" "covered b" "trims_known env"
  shows "covered (snd (ensure_native_shadow env pid b))"
proof -
  have ok: "budget_ok pid b" using assms(1) by (simp add: cp_inv_def)
  obtain x b' where "sync_native_shadow env (governed b + 0) b = (x, b')" by fastforce
  from sync_covered(1) [OF ok assms(2,3) this order_refl] this show ?thesis by (simp add: ensure_shadow_state [OF ok])
qed

text \<open>A static registration that cannot be mirrored is taken back, and the old charge stays covered.\<close>

lemma static_charge_covered:
  assumes inv: "cp_inv pid b ts" and cov: "covered b" and env: "trims_known env"
  shows "covered (snd (publish_static_charge env pid kind amount b))"
proof (cases "kind = [] \<or> amount < 0")
  case True
  then show ?thesis using cov by (simp add: publish_static_charge_def)
next
  case False
  have so: "static_ok (cb_static b)" using inv by (simp add: cp_inv_def budget_ok_def)
  obtain x r where p: "publish_static kind amount (cb_static b) = (x, r)" by fastforce
  note ps = publish_static_ok [OF so _ _ p]
  show ?thesis
  proof (cases "x = Inr True")
    case no: False
    have "static_map r = static_map (cb_static b)" using ps(2) no False by simp
    then have "covered (b\<lparr>cb_static := r\<rparr>)" using cov by (simp add: covered_def shadow_ok_def governed_def)
    then show ?thesis using no False p by (cases x) (auto simp: publish_static_charge_def split: bool.split)
  next
    case True
    define c where "c = b\<lparr>cb_static := r\<rparr>"
    have invc: "cp_inv pid c ts" unfolding c_def using static_inv [OF inv] ps(1) False by simp
    then have okc: "budget_ok pid c" by (simp add: cp_inv_def)
    have shc: "shadow_ok c" using cov by (simp add: c_def covered_def shadow_ok_def)
    obtain y d where s: "sync_native_shadow env (governed c) c = (y, d)" by fastforce
    note sy = sync_shadow_ok [OF shc governed_nonneg(1) [OF okc] env s]
    have vd: "ledger_view d = ledger_view c" using sync_view [of env "governed c" c] s by simp
    have od: "cb_owners d = cb_owners b" "cb_static d = r" using view_fields(11,16) [OF vd] by (simp_all add: c_def)
    show ?thesis
    proof (cases y)
      case (Inr u)
      have "covered d" using sy(1) sy(2) [OF Inr] governed_view [OF vd] by (simp add: covered_def)
      then show ?thesis using True False p s Inr by (simp add: publish_static_charge_def ensure_shadow_eq [OF okc, unfolded c_def] c_def)
    next
      case (Inl e)
      let ?r = "undo_static kind amount r"
      have undone: "static_map ?r = static_map (cb_static b)"
        using undo_static_ok(2) [of r kind amount] ps(1,2,3) True False by (simp add: fun_upd_idem)
      have "cp_inv pid d ts" using invc cp_inv_view [OF vd] by blast
      then have invd: "cp_inv pid (d\<lparr>cb_static := ?r\<rparr>) ts" by (rule static_inv) (use undo_static_ok(1) ps(1) False in \<open>simp\<close>)
      have "native_bytes b \<le> native_bytes d" if "cb_owners b \<noteq> []"
        using sy(3) [OF Inl] cov that by (simp add: c_def covered_def shadow_ok_def)
      then have "covered (d\<lparr>cb_static := ?r\<rparr>)"
        using sy(1) cov od(1) undone by (auto simp: covered_def shadow_ok_def governed_def)
      from ensure_covered [OF invd this env] show ?thesis
        using True False p s Inl od(2) by (simp add: publish_static_charge_def ensure_shadow_eq [OF okc, unfolded c_def] c_def)
    qed
  qed
qed

lemma configure_covered: "cp_inv pid b ts \<Longrightarrow> covered b \<Longrightarrow> covered (snd (configure pid n b))"
proof -
  assume inv: "cp_inv pid b ts" and cov: "covered b"
  have ok: "budget_ok pid b" using inv by (simp add: cp_inv_def)
  show ?thesis using cov by (simp add: configure_def same_process_ok [OF ok] reconcile_ok [OF ok] baseline_ok [OF ok] Let_def)
qed

lemma reach_covered: "cp_reach trims_known pid b ts \<Longrightarrow> covered b"
proof (induction rule: cp_reach.induct)
  case (start r)
  then show ?case by (simp add: covered_def shadow_ok_def init_budget_def fresh_ledger_def)
next
  case (reserved b ts env kind amount t b')
  then show ?case using reserve_covered [OF reach_inv, of trims_known pid b ts env kind amount] by simp
next
  case (refused b ts env kind amount e b')
  then show ?case using reserve_covered [OF reach_inv, of trims_known pid b ts env kind amount] by simp
next
  case (released b ts env t)
  then show ?case using release_covered [OF reach_inv] by blast
next
  case (requested b ts t)
  then have "ensure_process_locked pid b = b" using reach_inv same_process_ok by (simp add: cp_inv_def)
  then show ?case using requested.IH by (simp add: request_retirement_def Let_def split: option.split)
next
  case (collected b ts t)
  then show ?case by (simp add: collect_ticket_def Let_def)
next
  case (drained b ts env n)
  then show ?case using drain_covered [OF reach_inv] by blast
next
  case (configured b ts n)
  then show ?case using configure_covered [OF reach_inv] by blast
next
  case (synchronized b ts env)
  then show ?case using ensure_covered [OF reach_inv] by blast
next
  case (registered b ts env kind amount)
  then show ?case using static_charge_covered [OF reach_inv] by blast
qed

text \<open>
  C7: control bytes are never free for payload.  In every history of
  uninterrupted calls in which no release that trims the shadow is lost, while a ticket is live the native ledger
  holds at least all governed bytes, static and dynamic, although its other calls
  may be refused or take effect and raise; and it is never released below zero.
\<close>

theorem native_shadow_covers_governed:
  assumes "cp_reach trims_known pid b ts"
  shows "(filter (live b) ts \<noteq> [] \<longrightarrow> governed_bytes (fst (budget_snapshot_of pid b)) \<le> nl_bytes (cb_native b))
    \<and> 0 \<le> nl_bytes (cb_native b) \<and> \<not> nl_corrupted (cb_native b)"
proof -
  note inv = reach_inv [OF assms]
  have c: "covered b" by (rule reach_covered [OF assms])
  have "cb_owners b \<noteq> []" if "filter (live b) ts \<noteq> []"
    using that live_sums(2) [OF inv] inv by (auto simp: cp_inv_def budget_ok_def mirrors_ok_def)
  then show ?thesis using c snapshot_inv(5) [OF inv] by (auto simp: covered_def shadow_ok_def)
qed

lemma one_ticket_reach_known: "cp_reach trims_known 7 one_ticket [new_ticket 7 ''waiter'' 300 1 0]"
  by (rule cp_reach.reserved [OF cp_reach.start [OF empty_registry_ok] _ one_ticket_reserved])
    (simp add: trims_known_def calm_env_def)

theorem native_shadow_covers_governed_witness:
  "governed_bytes (fst (budget_snapshot_of 7 one_ticket)) = 300 \<and> 300 \<le> nl_bytes (cb_native one_ticket)"
proof -
  have "live one_ticket (new_ticket 7 ''waiter'' 300 1 0)" by code_simp
  moreover have "governed_bytes (fst (budget_snapshot_of 7 one_ticket)) = 300" by code_simp
  ultimately show ?thesis using native_shadow_covers_governed [OF one_ticket_reach_known] by simp
qed

section \<open>Interruptions that are not repaired\<close>

text \<open>The definitions that evaluate the operations on a concrete budget.\<close>

lemmas cp_eval =
  reserve_def prewarm_native_shadow_def new_capability_def reserve_locked_def reconcile_counters_def ensure_process_locked_def
  entry_valid_def static_baseline_def static_control_plane_bytes_def validate_total_def authoritative_total_def
  sync_native_shadow_def refresh_shadow_def move_shadow_def call_reserve_def call_release_def native_accepts_def native_reserve_def native_release_def
  check_and_admit_def exhausted_limit_def admit_ticket_def update_cap_def admission_steps_def set_mirrors_def set_owner_def token_ring_next_def token_ring_prev_def
  admission_failed_def undo_admission_def new_ticket_def fresh_ledger_def init_budget_def empty_registry_def calm_env_def
  release_def release_capability_def mark_capability_released_def ticket_release_steps_def release_native_shadow_def Let_def
  MIN_TICKET_BYTES_def MAX_CAPACITY_BYTES_def DEFAULT_CAPACITY_BYTES_def MAX_ACTIVE_TICKETS_def MAX_TICKET_TOKEN_def

definition first_ticket :: ticket where
  "first_ticket = new_ticket 7 ''waiter'' 300 1 0"

text \<open>
  The first ticket was given back, so that its token is free, and an admission was
  interrupted between the assignments of the head and of the count of the ring.
\<close>

definition torn_ring :: control_budget where
  "torn_ring = snd (reserve calm_env 7 (Some 2) ''waiter'' 300 (snd (release calm_env 7 None (Some first_ticket) one_ticket)))"

definition poisoned :: control_budget where
  "poisoned = snd (reserve calm_env 7 None ''waiter'' 300 torn_ring)"

lemma corrupted_refuses:
  assumes "cb_corrupted (reconcile_counters (ensure_process_locked pid (new_capability pid b)))" "cb_shadow_ready b" "MIN_TICKET_BYTES \<le> amount"
  shows "fst (reserve env pid i kind amount b) = Inl (Resource_Error ''process_control_plane_corruption_quarantine'')"
  using assms by (simp add: reserve_def prewarm_native_shadow_def reserve_locked_def Let_def)



text \<open>
  The release of the first ticket was interrupted after its token went back to the
  ring, before its capability was marked, and a second ticket took the token.
\<close>

definition half_released :: control_budget where
  "half_released = snd (release calm_env 7 (Some 4) (Some first_ticket) one_ticket)"

definition token_taken :: control_budget where
  "token_taken = snd (reserve calm_env 7 None ''other'' 500 half_released)"


text \<open>
  The release of the first of two tickets could not be mirrored, and the
  synchronization that trims the shadow afterwards took effect and was interrupted.
\<close>

definition refusing_env :: cp_env where
  "refusing_env = calm_env\<lparr>native_answer := (\<lambda>_. Refuses)\<rparr>"

definition lost_trim_env :: cp_env where
  "lost_trim_env = calm_env\<lparr>trim_answer := (\<lambda>_. Answer_Lost)\<rparr>"

definition trimmed_twice :: control_budget where
  "trimmed_twice =
     snd (ensure_native_shadow calm_env 7 (snd (ensure_native_shadow lost_trim_env 7
       (snd (release refusing_env 7 None (Some first_ticket) (snd (reserve calm_env 7 None ''other'' 400 one_ticket)))))))"


end
