(* ===== verification/Spec2Isabelle.thy ===== *)
theory Spec2Isabelle
  imports Generation_Pool Expiry_Heap Provider_Throttle Coordination_Journal Hive_Plan Cgroup_View Gcs_Upload Modified_Time Packetization
    Terminal_Ownership Control_Plane_Budget
begin

text \<open>
  A verification library for schema-sanitizer, a Python package
  (\<^verbatim>\<open>src/src/schema_sanitizer\<close>) with a native engine (\<^verbatim>\<open>src/cpp/src\<close>) that reads CSV,
  JSON, XML and Parquet inputs, local or remote, and writes sanitized tables.  The
  library covers the decisions around the engine: what to read, how much to hold in
  memory, how many requests to run, and how to publish results and shared state
  safely.  Paths below are relative to \<^verbatim>\<open>src/src/schema_sanitizer\<close> unless they start
  with \<^verbatim>\<open>cpp\<close>.

  \<^bold>\<open>The parts and how they interact.\<close>  A pipeline run first plans its partitions,
  either from a date range (\<^verbatim>\<open>pipeline/hive.py\<close>) or from the modification times of
  the objects of a prefix (\<^verbatim>\<open>pipeline/modified_time.py\<close>).  The remote files of a
  partition are frozen in a manifest (\<^verbatim>\<open>sources/models.py\<close>) and staged packet by
  packet (\<^verbatim>\<open>remote_impl/packetization.py\<close>).  Every request passes the throttle of its
  provider (\<^verbatim>\<open>remote_impl/provider_throttle.py\<close>), which holds leases in a pool of
  generation-tagged slots (\<^verbatim>\<open>core_impl/bounded_generation.py\<close>).  Memory is bounded
  by a budget derived from the limits of the host and its control group
  (\<^verbatim>\<open>core_impl/cgroup_view.py\<close>, \<^verbatim>\<open>cpp/src/internal/memory\<close>), from which worker
  counts follow (\<^verbatim>\<open>cpp/src/internal/runtime/execution_policy.hh\<close>).  What the
  package itself keeps resident is charged to a control-plane budget
  (\<^verbatim>\<open>core_impl/control_plane_budget.py\<close>) on top of a static baseline
  (\<^verbatim>\<open>core_impl/static_control_plane.py\<close>) and mirrored into the native memory ledger;
  owners that could not be cleaned up are recorded in a terminal ledger
  (\<^verbatim>\<open>core_impl/terminal_ownership.py\<close>).  Outputs are
  published by resumable or multipart uploads (\<^verbatim>\<open>remote_impl/upload_policy.py\<close>,
  \<^verbatim>\<open>remote_impl/gcs_resumable.py\<close>).  State shared by processes is a document with a
  crash journal (\<^verbatim>\<open>core_impl/coordination_journal.py\<close>).

  \<^bold>\<open>Conventions.\<close>  A raised exception is the left value of a sum (\<open>result\<close> in
  \<open>Prelude\<close>); an early return is a branch.  Objects with mutable fields are records
  that the operations return updated.  Python integers are \<open>int\<close>; the 63-bit tokens of
  the pool and the 64-bit quantities of C++ are integers with lemmas that bound them.
  Instants and ratios are exact.  A string is a list of characters with codes below
  256.  The operating system, the clock, the storage services, checksums and JSON are
  arguments, some of them functions of a counter, so that they may answer differently
  at every observation; what a theorem needs of them is a named hypothesis
  (\<open>codec_ok\<close>, a conforming service), and a witness shows that it can hold.

  \<^bold>\<open>Theories.\<close>
  \<^item> \<open>Prelude\<close>: exceptions, results, lists and words.  \<open>Py_Strings\<close>: string
    methods and patterns.  \<open>Calendar\<close>: dates and ranges of days.
  \<^item> \<open>Generation_Pool\<close> models \<^verbatim>\<open>core_impl/bounded_generation.py\<close>.  The record
    \<open>pool\<close> is the object; \<open>acquire_for\<close>, \<open>release_for\<close>, \<open>owner_for\<close> and the
    others are its methods, with the positions at which asynchronous exceptions
    interrupt them.  Shown: an invariant kept by every call and interruption,
    conservation of slots, tokens that never repeat and never resolve to a stranger,
    recovery after an interruption, and the two states that a second exception inside
    a handler can leave.  The locale \<open>token_namespace\<close> states the contract of the
    search for free tokens.
  \<^item> \<open>Expiry_Heap\<close> models \<^verbatim>\<open>_ExpiryHeap\<close>, the indexed heap of the throttle, and
    shows that it refines a map with the minimum on top (locale \<open>expiry_index\<close>).
    \<open>Provider_Throttle\<close> models the governor: admission, outcomes, the three steps
    of a release, promotion of expired circuits, eviction.  Shown for every
    interleaving of the steps: the in-flight count is the number of held leases, a
    slot is given back once, windows stay within their bounds, promotion ends.
  \<^item> \<open>Coordination_Journal\<close>: commit and recovery as lists of elementary file
    updates.  Shown: recovery is atomic after any sequence of crashes, a successful
    commit is durable, a failed one rolls back except in the case that is exhibited.
  \<^item> \<open>Hive_Uris\<close> and \<open>Hive_Plan\<close> model \<^verbatim>\<open>core_impl/hive_uris.py\<close> and
    \<^verbatim>\<open>pipeline/hive.py\<close>.  Shown: a plan covers its range in order with distinct
    outputs, dates are read back from URIs, a rolled daily URI is the generated one.
  \<^item> \<open>Cgroup_View\<close> models \<^verbatim>\<open>core_impl/cgroup_view.py\<close>.  Shown: a known limit or
    headroom is the minimum over a complete hierarchy.
  \<^item> \<open>Memory_Budget\<close> and \<open>Execution_Policy\<close> model the native headers named above
    and \<^verbatim>\<open>core_impl/memory_budget.py\<close>, \<^verbatim>\<open>core_impl/execution_policy.py\<close> and
    \<^verbatim>\<open>core_impl/system_pressure.py\<close>.  Shown: budgets are positive and bounded,
    nothing overflows 64 bits, and a policy fits the memory it was derived from.
  \<^item> \<open>Upload_Policy\<close> and \<open>Gcs_Upload\<close> model part sizes, the reading of parts and
    both forms of the resumable upload with retries and reconciliation.  Shown: parts
    reassemble to the file, and a successful upload has published the file on any
    conforming service, with the two ways in which a file changed meanwhile slips
    through.
  \<^item> \<open>Keyed_Ledger\<close> states the contract of a ledger of charges under keys
    (locale \<open>keyed_ledger\<close>) and what every history of such a ledger satisfies.
    \<open>Terminal_Ownership\<close> and \<open>Static_Control_Plane\<close> interpret it for the fixed
    bank of slots and for the registry of static charges.  Shown: reported owners and
    bytes are exactly those in force, a refusal stays visible, a frozen registry
    accepts no charge.
  \<^item> \<open>Control_Plane_Budget\<close> models the budget, its tickets and capabilities, the
    ring of reusable tokens, the native shadow with
    \<^verbatim>\<open>OperationMemoryLedger\<close> of \<^verbatim>\<open>cpp/src/internal/memory/memory_pool.cc\<close>
    behind it, and static registrations while the budget is loaded.  Shown for every
    history of uninterrupted calls, whatever the native ledger answers: tickets are
    accounted exactly, and while one is live the native ledger covers the governed
    bytes unless a trimming release was lost.  Three interruptions that the code does
    not repair are exhibited.
  \<^item> \<open>Uris\<close>, \<open>Source_Models\<close>, \<open>Modified_Time\<close> and \<open>Packetization\<close> model
    \<^verbatim>\<open>core_impl/uris.py\<close>, \<^verbatim>\<open>sources/models.py\<close>, \<^verbatim>\<open>pipeline/modified_time.py\<close> and
    \<^verbatim>\<open>remote_impl/packetization.py\<close>.  Shown: grouping by binary search is selection
    per window, a daily plan loses and duplicates no object, and the packets of a
    manifest partition it within their limits.

  \<^bold>\<open>Loops and bounds.\<close>  Most loops are structural or have a termination proof.  The
  search for a token and the promotion of circuits are partial functions, proved to
  return.  Retries count down from the number of attempts the code computes, at most
  32.  No definition has a fuel parameter.

  \<^bold>\<open>Not modelled.\<close>  The native parsers, type inference, materialization and
  output: pointer code over large buffers, outside what the Python layer decides.  The
  adapters to PyArrow, DuckDB and BigQuery, and the provider transports: their objects
  belong to other packages.  The other ledgers and permit pools, finalizers, shutdown
  and fork handling of \<^verbatim>\<open>core_impl\<close>: their behaviour is that of threads, the garbage
  collector and signals between bytecodes, of which the library keeps only the
  interruptions of the pool and of the control-plane budget, and the lock regions of
  the throttle and of the static baseline.  Temporary files and their janitor: identities and
  advisory locks of the file system.  Option classes and diagnostics: data without
  decisions.  Of the modelled modules, caches, locks that only serialize, and the
  identifiers quoted in messages are left out.
\<close>

end
